(* ===== verification/Prelude.thy ===== *)
theory Prelude
  imports Main "HOL-Library.Monad_Syntax" "HOL-Library.Code_Target_Numeral"
begin

text \<open>
  What every component of the development shares: C values, C memory and undefined behaviour.

  A piece of C code that can step outside its objects is a function into \<^typ>\<open>'a option\<close>:
  \<^term>\<open>None\<close> means that the C program has undefined behaviour on this input (it reads or
  writes outside an allocation, reads an indeterminate byte, dereferences a null pointer,
  overflows a signed integer), \<^term>\<open>Some r\<close> that it runs to completion with result
  \<open>r\<close>. An error that the code reports itself (a negative return code, a null result) is a value
  inside \<^term>\<open>Some\<close>.

  An object of \<open>n\<close> bytes is a list of length \<open>n\<close>; a pointer into it is an offset. Bytes of a fresh
  allocation are indeterminate, so the type of a heap buffer is \<open>char option list\<close>.
\<close>

section \<open>Collections of facts\<close>

named_theorems cmem \<open>the memory operations, unfolded\<close>
named_theorems cmem_len \<open>lengths of buffers after an operation\<close>

section \<open>Machine sizes\<close>

text \<open>\<open>size_t\<close> has 64 bits (the build passes \<open>-m64\<close>); no object is larger than \<open>PTRDIFF_MAX\<close>.\<close>

definition sz_sub :: "nat \<Rightarrow> nat \<Rightarrow> nat" where
  "sz_sub a b = (if b \<le> a then a - b else 2 ^ 64 + a - b)"

definition sz_add :: "nat \<Rightarrow> nat \<Rightarrow> nat" where
  "sz_add a b = (a + b) mod 2 ^ 64"

definition obj_limit :: nat where
  "obj_limit = 2 ^ 63"

lemma sz_sub_le [simp]: "b \<le> a \<Longrightarrow> sz_sub a b = a - b"
  by (simp add: sz_sub_def)

lemma sz_add_lt [simp]: "a + b < 2 ^ 64 \<Longrightarrow> sz_add a b = a + b"
  by (simp add: sz_add_def)

lemma sz_sub_wrap: "a < b \<Longrightarrow> sz_sub a b = 2 ^ 64 + a - b"
  by (simp add: sz_sub_def)

text \<open>\<open>int\<close> has 32 bits. Storing a wider value in one keeps its low 32 bits (as gcc defines it).\<close>

definition int_max :: int where "int_max = 2 ^ 31 - 1"

definition c_int :: "int \<Rightarrow> int" where
  "c_int x = (x + 2 ^ 31) mod 2 ^ 32 - 2 ^ 31"

lemma c_int_id [simp]: "- int_max \<le> x \<Longrightarrow> x \<le> int_max \<Longrightarrow> c_int x = x"
  by (simp add: c_int_def int_max_def)

lemma c_int_range: "- int_max - 1 \<le> c_int x" "c_int x \<le> int_max"
  by (simp_all add: c_int_def int_max_def)

lemma int_max_ge [simp]: "0 \<le> int_max" "1 \<le> int_max" "2 \<le> int_max" "- int_max \<le> int n"
  by (simp_all add: int_max_def)

section \<open>Characters\<close>

text \<open>\<open>char\<close> is signed on the target: a byte of 128 or more reads as a negative number.\<close>

abbreviation NUL :: char where "NUL \<equiv> CHR 0x00"
abbreviation CR :: char where "CR \<equiv> CHR 0x0D"
abbreviation LF :: char where "LF \<equiv> CHR 0x0A"
abbreviation SP :: char where "SP \<equiv> CHR 0x20"
abbreviation TAB :: char where "TAB \<equiv> CHR 0x09"

definition uchar :: "char \<Rightarrow> nat" where
  "uchar c = of_char c"

definition schar :: "char \<Rightarrow> int" where
  "schar c = (let n = int (uchar c) in if n < 128 then n else n - 256)"

lemma uchar_less [simp]: "uchar c < 256"
  by (simp add: uchar_def)

lemma uchar_inject [simp]: "uchar c = uchar d \<longleftrightarrow> c = d"
  by (simp add: uchar_def)

lemma schar_range: "- 128 \<le> schar c" "schar c < 128"
  using uchar_less [of c] by (simp_all add: schar_def Let_def del: uchar_less)

section \<open>Reading and writing memory\<close>

definition rd :: "'a list \<Rightarrow> nat \<Rightarrow> 'a option" where
  "rd b i = (if i < length b then Some (b ! i) else None)"

definition wr :: "'a list \<Rightarrow> nat \<Rightarrow> 'a \<Rightarrow> 'a list option" where
  "wr b i x = (if i < length b then Some (b[i := x]) else None)"

type_synonym buf = "char option list"

definition rdb :: "buf \<Rightarrow> nat \<Rightarrow> char option" where
  "rdb b i = (case rd b i of None \<Rightarrow> None | Some x \<Rightarrow> x)"

definition malloc :: "nat \<Rightarrow> buf option" where
  "malloc n = (if n < obj_limit then Some (replicate n None) else None)"

definition memcpy :: "buf \<Rightarrow> nat \<Rightarrow> buf \<Rightarrow> nat \<Rightarrow> nat \<Rightarrow> buf option" where
  "memcpy dst d src s n =
     (if d + n \<le> length dst \<and> s + n \<le> length src
      then Some (take d dst @ take n (drop s src) @ drop (d + n) dst) else None)"

definition memmove :: "'a list \<Rightarrow> nat \<Rightarrow> nat \<Rightarrow> nat \<Rightarrow> 'a list option" where
  "memmove b dst src n =
     (if dst + n \<le> length b \<and> src + n \<le> length b
      then Some (take dst b @ take n (drop src b) @ drop (dst + n) b) else None)"

lemma memmove_length [cmem_len]: "memmove b dst src n = Some b' \<Longrightarrow> length b' = length b"
  by (auto simp: memmove_def split: if_splits)

lemma rd_in [simp]: "i < length b \<Longrightarrow> rd b i = Some (b ! i)"
  by (simp add: rd_def)

lemma rd_out [simp]: "length b \<le> i \<Longrightarrow> rd b i = None"
  by (simp add: rd_def)

lemma rd_Some: "rd b i = Some x \<longleftrightarrow> i < length b \<and> x = b ! i"
  by (auto simp: rd_def)

lemma rd_None: "rd b i = None \<longleftrightarrow> length b \<le> i"
  by (simp add: rd_def)

lemma wr_Some: "wr b i x = Some b' \<longleftrightarrow> i < length b \<and> b' = b[i := x]"
  by (auto simp: wr_def)

lemma wr_in [simp]: "i < length b \<Longrightarrow> wr b i x = Some (b[i := x])"
  by (simp add: wr_def)

lemma wr_out [simp]: "length b \<le> i \<Longrightarrow> wr b i x = None"
  by (simp add: wr_def)

lemma malloc_small [simp]: "n < obj_limit \<Longrightarrow> malloc n = Some (replicate n None)"
  by (simp add: malloc_def)

lemma memcpy_length [cmem_len]: "memcpy dst d src s n = Some b \<Longrightarrow> length b = length dst"
  by (auto simp: memcpy_def split: if_splits)

lemmas cmem_defs [cmem] = rd_def wr_def rdb_def malloc_def memcpy_def

section \<open>C strings\<close>

text \<open>
  A \<open>const char *\<close> argument is the HOL string of the bytes before its terminator; in memory it is
  followed by a NUL byte. \<open>c_str\<close> reads a string back from a buffer: reading an indeterminate byte
  or running off the end of the object is undefined.
\<close>

definition cstr_mem :: "string \<Rightarrow> buf" where
  "cstr_mem s = map Some s @ [Some NUL]"

fun c_str :: "buf \<Rightarrow> string option" where
  "c_str [] = None"
| "c_str (None # b) = None"
| "c_str (Some c # b) = (if c = NUL then Some [] else map_option ((#) c) (c_str b))"

definition str_at :: "buf \<Rightarrow> nat \<Rightarrow> string option" where
  "str_at b p = c_str (drop p b)"

text \<open>Reading byte \<open>i\<close> of a C string: the terminator can be read, nothing past it.\<close>

definition cs_at :: "string \<Rightarrow> nat \<Rightarrow> char option" where
  "cs_at s i = (if i < obj_limit then rd (s @ [NUL]) i else None)"

definition no_nul :: "string \<Rightarrow> bool" where
  "no_nul s \<longleftrightarrow> NUL \<notin> set s"

lemma no_nul_simps [simp]:
  "no_nul []" "no_nul (c # s) \<longleftrightarrow> c \<noteq> NUL \<and> no_nul s"
  "no_nul (s @ t) \<longleftrightarrow> no_nul s \<and> no_nul t"
  by (auto simp: no_nul_def)

lemma c_str_append_nul [simp]: "no_nul s \<Longrightarrow> c_str (map Some s @ Some NUL # b) = Some s"
  by (induction s) auto

lemma c_str_cstr_mem [simp]: "no_nul s \<Longrightarrow> c_str (cstr_mem s) = Some s"
  by (simp add: cstr_mem_def)

lemma length_cstr_mem [simp]: "length (cstr_mem s) = Suc (length s)"
  by (simp add: cstr_mem_def)

lemma cs_at_in [simp]: "i < length s \<Longrightarrow> length s < obj_limit \<Longrightarrow> cs_at s i = Some (s ! i)"
  by (simp add: cs_at_def nth_append)

lemma cs_at_end [simp]: "length s < obj_limit \<Longrightarrow> cs_at s (length s) = Some NUL"
  by (simp add: cs_at_def)

lemma cs_at_out [simp]: "length s < i \<Longrightarrow> cs_at s i = None"
  by (simp add: cs_at_def)

text \<open>\<open>strstr\<close>: the offset of the first occurrence.\<close>

fun is_prefix :: "string \<Rightarrow> string \<Rightarrow> bool" where
  "is_prefix [] s = True"
| "is_prefix (x # xs) [] = False"
| "is_prefix (x # xs) (y # ys) = (x = y \<and> is_prefix xs ys)"

fun strstr :: "string \<Rightarrow> string \<Rightarrow> nat option" where
  "strstr [] n = (if n = [] then Some 0 else None)"
| "strstr (c # s) n = (if is_prefix n (c # s) then Some 0 else map_option Suc (strstr s n))"

lemma is_prefix_iff: "is_prefix n s \<longleftrightarrow> (\<exists>t. s = n @ t)"
  by (induction n s rule: is_prefix.induct) auto

lemma is_prefix_append [simp]: "is_prefix n (n @ t)"
  by (auto simp: is_prefix_iff)

lemma strstr_0_iff: "n \<noteq> [] \<Longrightarrow> strstr s n = Some 0 \<longleftrightarrow> is_prefix n s"
  by (cases s; cases n) auto

section \<open>Lists\<close>

lemma takeWhile_neq_append:
  "c \<notin> set xs \<Longrightarrow> takeWhile (\<lambda>x. x \<noteq> c) (xs @ c # ys) = xs"
  by (induction xs) auto

lemma nth_append_same [simp]: "(xs @ y # ys) ! length xs = y"
  by simp

lemma drop_replicate_Cons [simp]: "drop n (x # replicate n x) = [x]"
  by (induction n) auto

lemma split_first:
  assumes "c \<in> set xs"
  obtains ys zs where "xs = ys @ c # zs" "c \<notin> set ys"
  using split_list_first [OF assms] by blast

end
