(* ===== verification/UtilPath.thy ===== *)
theory UtilPath
  imports Prelude
begin

text \<open>
  The path functions of \<open>src/util/util.c\<close>: \<open>str_split\<close>, \<open>is_http_path\<close>, \<open>is_absolute_path\<close>,
  \<open>dirname\<close> and \<open>normalize_path\<close>, with the index arithmetic on \<open>size_t\<close> written out.
  Arguments are the bytes of the C string before its terminator (assumed free of NUL where it
  matters, and shorter than \<^const>\<open>obj_limit\<close>); \<open>normalize_path\<close> builds its buffers byte by byte.
\<close>

section \<open>Splitting in place\<close>

function str_split_loop :: "char \<Rightarrow> nat \<Rightarrow> string \<Rightarrow> nat \<Rightarrow> int \<Rightarrow> nat \<Rightarrow> string \<times> nat \<times> int" where
  "str_split_loop delim len str lst count i =
     (if i < len then
        (if str ! i = delim then
           (let str' = str[i := NUL] in
            if i + 1 < len then str_split_loop delim len str' (i + 1) (count + 1) (i + 1)
            else str_split_loop delim len str' lst count (i + 1))
         else str_split_loop delim len str lst count (i + 1))
      else (str, lst, count))"
  by pat_completeness auto
termination by (relation "measure (\<lambda>(delim, len, str, last, count, i). len - i)") auto

declare str_split_loop.simps [simp del]

text \<open>The result is the rewritten string, the offset of the last piece and the number of pieces.\<close>

definition str_split :: "string \<Rightarrow> char \<Rightarrow> string \<times> nat \<times> int" where
  "str_split str delim = str_split_loop delim (length str) str 0 1 0"

section \<open>Kinds of path\<close>

definition is_http_path :: "string \<Rightarrow> bool" where
  "is_http_path path \<longleftrightarrow> strstr path ''https://'' = Some 0 \<or> strstr path ''http://'' = Some 0"

definition is_absolute_path :: "string \<Rightarrow> bool" where
  "is_absolute_path path \<longleftrightarrow> (path @ [NUL]) ! 0 = CHR ''/'' \<or> is_http_path path"

text \<open>The offset \<open>start\<close> that \<open>dirname\<close>, \<open>normalize_path\<close> and \<open>http_get\<close> compute first.\<close>

definition scheme_len :: "string \<Rightarrow> nat" where
  "scheme_len path =
     (if strstr path ''https://'' = Some 0 then 8
      else if strstr path ''http://'' = Some 0 then 7 else 0)"

text \<open>The loop \<open>for(i = start; i < len; i++) if(P(s[i])) { r = i; break; }\<close>, with the value of \<open>r\<close>
  before the loop.\<close>

function scan_to :: "(char \<Rightarrow> bool) \<Rightarrow> string \<Rightarrow> nat \<Rightarrow> nat \<Rightarrow> nat" where
  "scan_to P s i r =
     (if i < length s then (if P (s ! i) then i else scan_to P s (Suc i) r) else r)"
  by pat_completeness auto
termination by (relation "measure (\<lambda>(P, s, i, r). length s - i)") auto

declare scan_to.simps [simp del]

section \<open>dirname\<close>

text \<open>
  The backward scan. Its index is a \<open>size_t\<close>: the test \<open>i >= start\<close> cannot fail for \<open>start = 0\<close>,
  and decrementing past 0 wraps to \<open>SIZE_MAX\<close>, whose read is out of the string.
\<close>

function dirname_scan :: "string \<Rightarrow> nat \<Rightarrow> nat \<Rightarrow> nat option" where
  "dirname_scan path start i =
     (if start \<le> i then
        (case cs_at path i of
           None \<Rightarrow> None
         | Some c \<Rightarrow>
             if c = CHR ''/'' \<and> i \<noteq> sz_sub (length path) 1 then Some i
             else dirname_scan path start (sz_sub i 1))
      else Some i)"
  by pat_completeness auto
termination
  by (relation "measure (\<lambda>(path, start, i). if i < obj_limit then Suc i else 0)")
     (auto simp: cs_at_def sz_sub_def obj_limit_def split: if_splits)

declare dirname_scan.simps [simp del]

definition dirname :: "string \<Rightarrow> string option" where
  "dirname path = do {
     let len = length path;
     let is_http = (scheme_len path \<noteq> 0);
     let start = scheme_len path;
     i \<leftarrow> dirname_scan path start (sz_sub len 1);
     if i = start then
       (if is_http then
          Some (take (scan_to (\<lambda>c. c = CHR ''/'' \<or> c = CHR ''?'') path start len) path)
        else do {
          c \<leftarrow> cs_at path i;
          Some [if c = CHR ''/'' then CHR ''/'' else CHR ''.'']
        })
     else Some (take i path)
   }"
section \<open>normalize_path\<close>

text \<open>
  The loop over the pieces: \<open>stack\<close> holds offsets of pieces in the split buffer (\<^term>\<open>None\<close> for an
  entry not written yet), \<open>index\<close> is the \<open>int\<close> of the code and may become negative, \<open>total\<close> is a
  \<open>size_t\<close>, \<open>prev\<close> and \<open>cur\<close> (the code's \<open>p\<close>) are offsets of pieces.
\<close>

record norm_state =
  stack :: "nat option list"
  index :: int
  total :: nat
  prev :: nat
  cur :: nat

definition norm_step :: "buf \<Rightarrow> norm_state \<Rightarrow> norm_state option" where
  "norm_step str st = do {
     piece \<leftarrow> str_at str (cur st);
     let len = length piece;
     st' \<leftarrow>
       (if piece \<noteq> ''..'' then
          (if piece \<noteq> ''.'' then
             (if 0 \<le> index st \<and> nat (index st) < length (stack st) then
                Some (st\<lparr>stack := (stack st)[nat (index st) := Some (cur st)],
                        index := index st + 1,
                        total := sz_add (total st) (len + 1)\<rparr>)
              else None)
           else Some st)
        else do {
          pv \<leftarrow> str_at str (prev st);
          Some (st\<lparr>index := index st - 1, total := sz_sub (total st) (length pv + 1)\<rparr>)
        });
     Some (st'\<lparr>prev := cur st, cur := cur st + (len + 1)\<rparr>)
   }"

primrec norm_loop :: "nat \<Rightarrow> buf \<Rightarrow> norm_state \<Rightarrow> norm_state option" where
  "norm_loop 0 str st = Some st"
| "norm_loop (Suc n) str st = do { st' \<leftarrow> norm_step str st; norm_loop n str st' }"

text \<open>The second loop copies the stacked pieces into the result, from offset \<open>j\<close>.\<close>

fun norm_emit :: "buf \<Rightarrow> nat option list \<Rightarrow> nat \<Rightarrow> buf \<Rightarrow> buf option" where
  "norm_emit str [] j result = Some result"
| "norm_emit str (None # qs) j result = None"
| "norm_emit str (Some q # qs) j result = do {
     s \<leftarrow> str_at str q;
     result \<leftarrow> wr result j (Some (CHR ''/''));
     result \<leftarrow> memcpy result (j + 1) str q (length s);
     norm_emit str qs (j + 1 + length s) result
   }"

text \<open>The joined string, \<open>basedir\<close> without its prefix up to \<open>start\<close> and the byte there, \<open>/\<close>, \<open>path\<close>.\<close>

definition norm_join :: "string \<Rightarrow> string \<Rightarrow> nat \<Rightarrow> buf option" where
  "norm_join path basedir start = do {
     let len = length basedir;
     let len2 = length path;
     str \<leftarrow> malloc (len2 + len - start + 1);
     str \<leftarrow> memcpy str 0 (cstr_mem basedir) (start + 1) (sz_sub (len - start) 1);
     str \<leftarrow> wr str (sz_sub (len - start) 1) (Some (CHR ''/''));
     str \<leftarrow> memcpy str (len - start) (cstr_mem path) 0 len2;
     wr str (len2 + len - start) (Some NUL)
   }"

definition norm_start :: "string \<Rightarrow> nat" where
  "norm_start basedir = scan_to (\<lambda>c. c = CHR ''/'') basedir (scheme_len basedir) (scheme_len basedir)"

definition normalize_path :: "string \<Rightarrow> string \<Rightarrow> buf option" where
  "normalize_path path basedir =
     (if is_absolute_path path then do {
        str \<leftarrow> malloc (length path + 1);
        str \<leftarrow> wr str (length path) (Some NUL);
        memcpy str 0 (cstr_mem path) 0 (length path)
      }
      else do {
        let start = norm_start basedir;
        str \<leftarrow> norm_join path basedir start;
        s \<leftarrow> str_at str 0;
        let (s', lst, count) = str_split s (CHR ''/'');
        let str = map Some s' @ drop (length s') str;
        st \<leftarrow> norm_loop (nat count) str
          \<lparr>stack = replicate (nat count) None, index = 0, total = 0, prev = 0, cur = 0\<rparr>;
        let total' = sz_add (total st) start;
        result \<leftarrow> malloc (sz_add total' 1);
        result \<leftarrow> memcpy result 0 (cstr_mem basedir) 0 start;
        result \<leftarrow> norm_emit str (take (nat (index st)) (stack st)) start result;
        wr result total' (Some NUL)
      })"

text \<open>The string a caller reads from the returned buffer.\<close>

definition normalized :: "string \<Rightarrow> string \<Rightarrow> string option" where
  "normalized path basedir = do { b \<leftarrow> normalize_path path basedir; c_str b }"

section \<open>The forward scans\<close>

lemma scan_to_default: "\<forall>x \<in> set (drop i s). \<not> P x \<Longrightarrow> scan_to P s i r = r"
proof (induction P s i r rule: scan_to.induct)
  case (1 P s i r)
  show ?case
  proof (cases "i < length s")
    case True
    then have "drop i s = s ! i # drop (Suc i) s" by (rule Cons_nth_drop_Suc [symmetric])
    with 1 True show ?thesis by (subst scan_to.simps) auto
  next
    case False
    then show ?thesis by (subst scan_to.simps) simp
  qed
qed

lemma scan_to_found:
  "\<forall>x \<in> set pre. \<not> P x \<Longrightarrow> P c \<Longrightarrow>
     scan_to P (front @ pre @ c # post) (length front) r = length front + length pre"
proof (induction pre arbitrary: front)
  case Nil
  then show ?case by (subst scan_to.simps) simp
next
  case (Cons x pre)
  from Cons.IH [of "front @ [x]"] Cons.prems show ?case by (subst scan_to.simps) simp
qed

lemma scan_to_le: "r \<le> length s \<Longrightarrow> scan_to P s i r \<le> length s"
  by (induction P s i r rule: scan_to.induct) (subst scan_to.simps, auto)

section \<open>Kinds of path: facts\<close>

lemma scheme_len_le: "scheme_len p \<le> length p"
  by (auto simp: scheme_len_def strstr_0_iff is_prefix_iff)

lemma scheme_len_small: "scheme_len p \<le> 8"
  by (simp add: scheme_len_def)

lemma is_http_iff: "is_http_path p \<longleftrightarrow> scheme_len p \<noteq> 0"
  by (simp add: is_http_path_def scheme_len_def)

lemma not_http_scheme [simp]: "\<not> is_http_path p \<Longrightarrow> scheme_len p = 0"
  by (simp add: is_http_iff)

lemma is_http_prefix: "is_http_path p \<longleftrightarrow> (\<exists>t. p = ''https://'' @ t \<or> p = ''http://'' @ t)"
  by (auto simp: is_http_path_def strstr_0_iff is_prefix_iff)

lemma scheme_len_https [simp]: "scheme_len (''https://'' @ t) = 8"
  by (simp add: scheme_len_def)

lemma scheme_len_http [simp]: "scheme_len (''http://'' @ t) = 7"
  by (simp add: scheme_len_def)

lemma is_absolute_iff: "is_absolute_path p \<longleftrightarrow> (\<exists>t. p = CHR ''/'' # t) \<or> is_http_path p"
  by (cases p) (auto simp: is_absolute_path_def)

section \<open>dirname\<close>

text \<open>\<open>sep_at p j\<close>: the scan of \<open>dirname\<close> stops at \<open>j\<close> (a slash that is not the last byte).\<close>

definition sep_at :: "string \<Rightarrow> nat \<Rightarrow> bool" where
  "sep_at p j \<longleftrightarrow> Suc j < length p \<and> p ! j = CHR ''/''"

lemma dirname_scan_stop:
  "length p < obj_limit \<Longrightarrow> start \<le> i \<Longrightarrow> sep_at p i \<Longrightarrow> dirname_scan p start i = Some i"
  by (subst dirname_scan.simps) (auto simp: sep_at_def)

lemma dirname_scan_down:
  assumes "length p < obj_limit" "start \<le> i" "i \<le> length p" "\<not> sep_at p i"
  shows "dirname_scan p start i = dirname_scan p start (sz_sub i 1)"
proof -
  have "\<not> (c = CHR ''/'' \<and> i \<noteq> sz_sub (length p) 1)" if "cs_at p i = Some c" for c
    using assms that by (cases "i = length p") (auto simp: sep_at_def)
  moreover have "\<exists>c. cs_at p i = Some c"
    using assms by (cases "i = length p") auto
  ultimately show ?thesis using assms by (subst dirname_scan.simps) auto
qed

lemma dirname_scan_found:
  assumes "length p < obj_limit" "start \<le> k" "sep_at p k"
  shows "k \<le> i \<Longrightarrow> i \<le> length p \<Longrightarrow> \<forall>j. k < j \<and> j \<le> i \<longrightarrow> \<not> sep_at p j \<Longrightarrow>
    dirname_scan p start i = Some k"
proof (induction i)
  case 0
  with assms show ?case by (simp add: dirname_scan_stop)
next
  case (Suc i)
  show ?case
  proof (cases "k = Suc i")
    case True
    with assms show ?thesis by (simp add: dirname_scan_stop)
  next
    case False
    with Suc.prems assms have "dirname_scan p start (Suc i) = dirname_scan p start (sz_sub (Suc i) 1)"
      by (intro dirname_scan_down) auto
    with False Suc show ?thesis by simp
  qed
qed

lemma dirname_scan_none:
  assumes "length p < obj_limit"
  shows "i \<le> length p \<Longrightarrow> \<forall>j. start \<le> j \<and> j \<le> i \<longrightarrow> \<not> sep_at p j \<Longrightarrow> start \<le> Suc i \<Longrightarrow>
    dirname_scan p start i = (if start = 0 then None else Some (start - 1))"
proof (induction i)
  case 0
  have wrap: "dirname_scan p 0 (sz_sub 0 1) = None"
    using assms by (subst dirname_scan.simps) (simp add: cs_at_def sz_sub_def obj_limit_def)
  show ?case
  proof (cases "start = 0")
    case True
    with 0 assms wrap show ?thesis by (simp add: dirname_scan_down [of p 0 0])
  next
    case False
    with 0 show ?thesis by (subst dirname_scan.simps) auto
  qed
next
  case (Suc i)
  show ?case
  proof (cases "start \<le> Suc i")
    case True
    with Suc.prems assms have "dirname_scan p start (Suc i) = dirname_scan p start (sz_sub (Suc i) 1)"
      by (intro dirname_scan_down) auto
    with True Suc show ?thesis by auto
  next
    case False
    with Suc.prems show ?thesis by (subst dirname_scan.simps) auto
  qed
qed

lemma sep_at_append:
  assumes "f \<noteq> []" "CHR ''/'' \<notin> set (butlast f)"
  shows "sep_at (d @ CHR ''/'' # f) (length d)"
    and "length d < j \<Longrightarrow> \<not> sep_at (d @ CHR ''/'' # f) j"
proof -
  show "sep_at (d @ CHR ''/'' # f) (length d)"
    using assms by (simp add: sep_at_def)
  assume "length d < j"
  show "\<not> sep_at (d @ CHR ''/'' # f) j"
  proof
    assume s: "sep_at (d @ CHR ''/'' # f) j"
    define m where "m = j - Suc (length d)"
    from \<open>length d < j\<close> have j: "j = length d + Suc m" by (simp add: m_def)
    from s have "Suc m < length f" "f ! m = CHR ''/''"
      by (auto simp: sep_at_def nth_append j)
    then have "CHR ''/'' = butlast f ! m" "m < length (butlast f)" by (auto simp: nth_butlast)
    with assms(2) show False using nth_mem by metis
  qed
qed

lemma sep_at_butlast: "sep_at p j \<Longrightarrow> CHR ''/'' \<in> set (butlast p)"
  by (metis One_nat_def Suc_lessD add_diff_cancel_left' length_butlast less_diff_conv nth_butlast nth_mem
      plus_1_eq_Suc sep_at_def less_imp_diff_less add.commute)

lemma last_slash:
  assumes "CHR ''/'' \<in> set (butlast p)"
  obtains d f where "p = d @ CHR ''/'' # f" "f \<noteq> []" "CHR ''/'' \<notin> set (butlast f)"
proof -
  from assms obtain ys zs where b: "butlast p = ys @ CHR ''/'' # zs" "CHR ''/'' \<notin> set zs"
    using split_list_last by fastforce
  then have "p \<noteq> []" by auto
  then have "p = butlast p @ [last p]" by simp
  with b have "p = ys @ CHR ''/'' # (zs @ [last p])" by simp
  with b(2) show thesis by (intro that [of ys "zs @ [last p]"]) auto
qed


lemma dirname_slash:
  assumes f: "f \<noteq> []" "CHR ''/'' \<notin> set (butlast f)"
    and len: "length (d @ CHR ''/'' # f) < obj_limit"
    and start: "scheme_len (d @ CHR ''/'' # f) < length d \<or> scheme_len (d @ CHR ''/'' # f) = 0"
  shows "dirname (d @ CHR ''/'' # f) = Some (if d = [] then ''/'' else d)"
proof -
  define p where "p = d @ CHR ''/'' # f"
  have "dirname_scan p (scheme_len p) (sz_sub (length p) 1) = Some (length d)"
    using len start sep_at_append [OF f] f(1)
    by (intro dirname_scan_found) (auto simp: p_def Suc_le_eq)
  then show ?thesis
    using len start by (auto simp: dirname_def p_def Let_def)
qed

lemma dirname_no_slash:
  assumes "CHR ''/'' \<notin> set (butlast (drop (scheme_len p) p))" "length p < obj_limit"
  shows "dirname p = (if scheme_len p = 0 then None else Some (take (scheme_len p - 1) p))"
proof -
  define s where "s = scheme_len p"
  have no: "\<not> sep_at p j" if "s \<le> j" for j
  proof
    assume j: "sep_at p j"
    with that have "sep_at (drop s p) (j - s)" by (auto simp: sep_at_def)
    then show False using assms(1) sep_at_butlast s_def by blast
  qed
  have "dirname_scan p s (sz_sub (length p) 1) = (if s = 0 then None else Some (s - 1))"
  proof (cases "p = []")
    case True
    then have "s = 0" by (simp add: s_def scheme_len_def)
    with True show ?thesis
      by (subst dirname_scan.simps) (simp add: sz_sub_def cs_at_def obj_limit_def)
  next
    case False
    then have "sz_sub (length p) 1 = length p - 1" by (simp add: Suc_leI)
    with False show ?thesis using assms(2) no scheme_len_le [of p]
      by (simp add: dirname_scan_none s_def [symmetric])
  qed
  then show ?thesis by (simp add: dirname_def s_def [symmetric] Let_def)
qed

section \<open>str_split\<close>

definition nul_of :: "char \<Rightarrow> char \<Rightarrow> char" where
  "nul_of delim c = (if c = delim then NUL else c)"

lemma nul_of_simps [simp]: "nul_of d d = NUL" "c \<noteq> d \<Longrightarrow> nul_of d c = c"
  by (simp_all add: nul_of_def)

lemma str_split_loop_eq:
  "\<exists>lst'. str_split_loop delim (length pre + length suf) (map (nul_of delim) pre @ suf) lst count (length pre)
     = (map (nul_of delim) (pre @ suf), lst', count + int (count_list (butlast suf) delim))"
proof (induction suf arbitrary: pre lst count)
  case Nil
  then show ?case by (subst str_split_loop.simps) simp
next
  case (Cons c suf)
  have step: "map (nul_of delim) pre @ (nul_of delim c) # suf = map (nul_of delim) (pre @ [c]) @ suf"
    by simp
  have at: "(map (nul_of delim) pre @ x # suf) ! length pre = x"
    "(map (nul_of delim) pre @ x # suf)[length pre := NUL] = map (nul_of delim) pre @ NUL # suf" for x
    by (simp_all add: nth_append list_update_append)
  show ?case
  proof (cases "c = delim \<and> suf \<noteq> []")
    case True
    from Cons.IH [of "pre @ [c]" "Suc (length pre)" "count + 1"] True show ?thesis
      by (subst str_split_loop.simps) (simp add: at Let_def add.assoc)
  next
    case False
    from Cons.IH [of "pre @ [c]" lst count] False show ?thesis
      by (subst str_split_loop.simps) (auto simp: at list_update_append Let_def)
  qed
qed

lemma str_split_eq:
  "\<exists>lst. str_split s delim = (map (nul_of delim) s, lst, 1 + int (count_list (butlast s) delim))"
  using str_split_loop_eq [of delim "[]" s 0 1] by (simp add: str_split_def)

text \<open>The pieces that the loop of \<open>normalize_path\<close> walks over: a slash at the very end of the string
  does not start another piece.\<close>

fun pieces :: "string \<Rightarrow> string list" where
  "pieces [] = [[]]"
| "pieces [c] = (if c = CHR ''/'' then [[]] else [[c]])"
| "pieces (c # d # s) =
     (if c = CHR ''/'' then [] # pieces (d # s)
      else (c # hd (pieces (d # s))) # tl (pieces (d # s)))"

lemma pieces_nonempty [simp]: "pieces s \<noteq> []"
  by (induction s rule: pieces.induct) auto

lemma length_pieces: "length (pieces s) = Suc (count_list (butlast s) (CHR ''/''))"
  by (induction s rule: pieces.induct) auto

lemma hd_pieces: "hd (pieces s) = takeWhile (\<lambda>c. c \<noteq> CHR ''/'') s"
  by (induction s rule: pieces.induct) auto

lemma pieces_one: "CHR ''/'' \<notin> set w \<Longrightarrow> pieces w = [w]"
  by (induction w rule: pieces.induct) auto

lemma pieces_append: "CHR ''/'' \<notin> set w \<Longrightarrow> t \<noteq> [] \<Longrightarrow> pieces (w @ CHR ''/'' # t) = w # pieces t"
proof (induction w)
  case Nil
  then show ?case by (cases t) auto
next
  case (Cons c w)
  then show ?case by (cases w) auto
qed

lemma tl_pieces:
  "tl (pieces s) \<noteq> [] \<Longrightarrow> \<exists>w t. s = w @ CHR ''/'' # t \<and> t \<noteq> [] \<and> CHR ''/'' \<notin> set w \<and>
     pieces s = w # pieces t"
proof (induction s rule: pieces.induct)
  case (3 c d s)
  show ?case
  proof (cases "c = CHR ''/''")
    case True
    then show ?thesis by (intro exI [of _ "[]"] exI [of _ "d # s"]) simp
  next
    case False
    with 3 obtain w t where w: "d # s = w @ CHR ''/'' # t" "t \<noteq> []" "CHR ''/'' \<notin> set w" by auto
    then have "c # d # s = (c # w) @ CHR ''/'' # t" "CHR ''/'' \<notin> set (c # w)" using False by auto
    with w(2) show ?thesis by (metis pieces_append)
  qed
qed (auto split: if_splits)

lemma str_split_count: "\<exists>lst. str_split s (CHR ''/'') = (map (nul_of (CHR ''/'')) s, lst, int (length (pieces s)))"
  using str_split_eq [of s "CHR ''/''"] by (simp add: length_pieces)

section \<open>Reading pieces out of the split buffer\<close>

lemma c_str_take: "c_str b = Some s \<Longrightarrow> length s < length b \<and> take (length s) b = map Some s"
  by (induction b arbitrary: s rule: c_str.induct) (auto split: if_splits)

abbreviation slash_nul :: "char \<Rightarrow> char" where "slash_nul \<equiv> nul_of (CHR ''/'')"

text \<open>The buffer after the split, from the start of a piece on.\<close>

definition enc :: "string \<Rightarrow> buf" where
  "enc s = map Some (map slash_nul s) @ [Some NUL]"

lemma c_str_enc: "no_nul s \<Longrightarrow> c_str (enc s) = Some (hd (pieces s))"
  unfolding hd_pieces enc_def by (induction s) (auto simp: nul_of_def)

lemma drop_enc:
  "CHR ''/'' \<notin> set w \<Longrightarrow> drop (Suc (length w)) (enc (w @ CHR ''/'' # t)) = enc t"
  by (simp add: enc_def)

section \<open>The reference semantics of a path\<close>

text \<open>
  \<open>resolve_from stk cs\<close>: the components \<open>cs\<close> applied to the directory \<open>stk\<close> (a component list,
  outermost first): \<open>.\<close> stays, \<open>..\<close> goes to the parent, anything else goes down.
\<close>

fun resolve_from :: "string list \<Rightarrow> string list \<Rightarrow> string list" where
  "resolve_from stk [] = stk"
| "resolve_from stk (c # cs) =
     resolve_from (if c = ''..'' then butlast stk else if c = ''.'' then stk else stk @ [c]) cs"

definition resolve :: "string list \<Rightarrow> string list" where
  "resolve cs = resolve_from [] cs"

definition render :: "string list \<Rightarrow> string" where
  "render cs = concat (map (\<lambda>c. CHR ''/'' # c) cs)"

text \<open>Every \<open>..\<close> comes right after an ordinary component (\<open>ok\<close>: the component before was one).\<close>

fun dotdot_ok :: "bool \<Rightarrow> string list \<Rightarrow> bool" where
  "dotdot_ok ok [] = True"
| "dotdot_ok ok (c # cs) =
     (if c = ''..'' then ok \<and> dotdot_ok False cs else dotdot_ok (c \<noteq> ''.'') cs)"

text \<open>Never above the root: no \<open>..\<close> at depth 0.\<close>

fun within :: "nat \<Rightarrow> string list \<Rightarrow> bool" where
  "within d [] = True"
| "within d (c # cs) =
     (if c = ''..'' then 0 < d \<and> within (d - 1) cs else if c = ''.'' then within d cs else within (d + 1) cs)"

text \<open>What the code gets wrong about the length of the result: for every \<open>..\<close>, the length of the component it removes less
  that of the component before it in the text (\<open>before\<close>), which is the one the code subtracts.\<close>

fun length_error :: "string \<Rightarrow> string list \<Rightarrow> string list \<Rightarrow> int" where
  "length_error before dir [] = 0"
| "length_error before dir (c # cs) =
     (if c = ''..'' then int (length (last dir)) - int (length before) else 0) + length_error c (resolve_from dir [c]) cs"

lemma within_mono: "within d cs \<Longrightarrow> d \<le> e \<Longrightarrow> within e cs"
  by (induction cs arbitrary: d e) (auto simp: diff_le_mono)

lemma dotdot_within: "dotdot_ok ok cs \<Longrightarrow> (ok \<Longrightarrow> 0 < d) \<Longrightarrow> within d cs"
  by (induction cs arbitrary: ok d) (auto split: if_splits)

lemma dotdot_length: "dotdot_ok ok cs \<Longrightarrow> (ok \<Longrightarrow> dir \<noteq> [] \<and> last dir = before) \<Longrightarrow> length_error before dir cs = 0"
  by (induction cs arbitrary: ok before dir) (auto split: if_splits)

text \<open>An ordinary component is met when more \<open>..\<close> than ordinary components came before it.\<close>

fun overclimbs :: "int \<Rightarrow> string list \<Rightarrow> bool" where
  "overclimbs d [] = False"
| "overclimbs d (c # cs) =
     (if c = ''..'' then overclimbs (d - 1) cs
      else if c = ''.'' then overclimbs d cs
      else d < 0 \<or> overclimbs (d + 1) cs)"

section \<open>The loop over the pieces\<close>

text \<open>A \<open>size_t\<close> as what it is of an integer.\<close>

definition size_of :: "int \<Rightarrow> nat" where
  "size_of z = nat (z mod 2 ^ 64)"

lemma sz_nat: "n < 2 ^ 64 \<Longrightarrow> size_of (int n) = n"
  by (simp add: size_of_def)

lemma sz_add_sz: "sz_add (size_of z) n = size_of (z + int n)"
proof -
  have "int (sz_add (size_of z) n) = int (size_of (z + int n))" by (simp add: sz_add_def size_of_def zmod_int mod_add_left_eq)
  then show ?thesis by simp
qed

lemma sz_sub_sz:
  assumes "n < 2 ^ 64"
  shows "sz_sub (size_of z) n = size_of (z - int n)"
proof -
  define r where "r = z mod 2 ^ 64"
  have r: "0 \<le> r" "r < 2 ^ 64" by (simp_all add: r_def)
  have "(z - int n) mod 2 ^ 64 = (r - int n) mod 2 ^ 64" unfolding r_def by (simp add: mod_diff_left_eq)
  also have "\<dots> = (if int n \<le> r then r - int n else 2 ^ 64 + r - int n)"
  proof (cases "int n \<le> r")
    case False
    have "(r - int n) mod 2 ^ 64 = (2 ^ 64 + r - int n) mod 2 ^ 64"
      using mod_add_self1 [of "2 ^ 64" "r - int n"] by (simp only: add_diff_eq)
    also have "\<dots> = 2 ^ 64 + r - int n" by (rule mod_pos_pos_trivial) (use False r assms in simp_all)
    finally show ?thesis using False by simp
  qed (use r in \<open>simp add: mod_pos_pos_trivial\<close>)
  finally have m: "(z - int n) mod 2 ^ 64 = (if int n \<le> r then r - int n else 2 ^ 64 + r - int n)" .
  have "n \<le> nat r \<longleftrightarrow> int n \<le> r" using r by linarith
  then show ?thesis using r assms unfolding size_of_def m r_def [symmetric] sz_sub_def by (auto simp: nat_diff_distrib nat_add_distrib)
qed

text \<open>\<open>stacked str st stk x\<close>: the offsets stacked so far are pieces of \<open>str\<close> that spell \<open>stk\<close>, and \<open>total\<close> is their
  length with an error of \<open>x\<close>.\<close>

definition weight :: "string list \<Rightarrow> nat" where
  "weight stk = sum_list (map (\<lambda>c. Suc (length c)) stk)"

definition stacked :: "buf \<Rightarrow> norm_state \<Rightarrow> string list \<Rightarrow> int \<Rightarrow> bool" where
  "stacked str st stk x \<longleftrightarrow> index st = int (length stk) \<and> length stk \<le> length (stack st) \<and>
     (\<exists>qs. take (length stk) (stack st) = map Some qs \<and> map (str_at str) qs = map Some stk) \<and>
     total st = size_of (int (weight stk) + x)"

lemma stacked_push:
  assumes "stacked str st stk x" "length stk < length (stack st)" "str_at str q = Some c"
  shows "stacked str (st\<lparr>stack := (stack st)[length stk := Some q], index := index st + 1,
    total := sz_add (total st) (Suc (length c))\<rparr>) (stk @ [c]) x"
proof -
  from assms(1) obtain qs where qs: "take (length stk) (stack st) = map Some qs"
    "map (str_at str) qs = map Some stk" by (auto simp: stacked_def)
  have "take (Suc (length stk)) ((stack st)[length stk := Some q]) = map Some (qs @ [q])"
    using assms(2) qs(1) by (simp add: take_Suc_conv_app_nth)
  moreover have "map (str_at str) (qs @ [q]) = map Some (stk @ [c])"
    using qs(2) assms(3) by simp
  ultimately have "\<exists>qs. take (length (stk @ [c])) ((stack st)[length stk := Some q]) = map Some qs \<and>
      map (str_at str) qs = map Some (stk @ [c])"
    by (metis length_append_singleton)
  moreover have "sz_add (total st) (Suc (length c)) = size_of (int (weight (stk @ [c])) + x)"
    using assms(1) by (simp only: stacked_def sz_add_sz) (simp add: weight_def add_ac)
  ultimately show ?thesis using assms(1,2) by (simp add: stacked_def)
qed

lemma stacked_pop:
  assumes "stacked str st (stk @ [c]) x" "n < 2 ^ 64 - 1"
  shows "stacked str (st\<lparr>index := index st - 1, total := sz_sub (total st) (Suc n)\<rparr>) stk (x + (int (length c) - int n))"
proof -
  from assms obtain qs where qs: "take (Suc (length stk)) (stack st) = map Some qs"
    "map (str_at str) qs = map Some (stk @ [c])" by (auto simp: stacked_def)
  then have "length qs = Suc (length stk)" by (metis length_append_singleton length_map)
  then obtain qs' q where q: "qs = qs' @ [q]" "length qs' = length stk"
    by (cases qs rule: rev_cases) auto
  have "sz_sub (total st) (Suc n) = size_of (int (weight stk) + (x + (int (length c) - int n)))"
    using assms by (simp add: stacked_def sz_sub_sz weight_def algebra_simps)
  then show ?thesis
    using qs q assms unfolding stacked_def
    by (auto simp: take_Suc_conv_app_nth intro!: exI [of _ qs'])
qed

lemma stacked_cong:
  "stacked str st stk x \<Longrightarrow> stacked str (st\<lparr>prev := a, cur := b\<rparr>) stk x"
  by (simp add: stacked_def)

lemma norm_step_ok:
  assumes st: "stacked str st stk x" and c: "str_at str (cur st) = Some c" and pv: "str_at str (prev st) = Some pv"
    and room: "length stk < length (stack st)" and w: "length pv < 2 ^ 64 - 1" and dd: "c = ''..'' \<Longrightarrow> stk \<noteq> []"
  shows "\<exists>st'. norm_step str st = Some st' \<and>
    stacked str st' (resolve_from stk [c]) (x + (if c = ''..'' then int (length (last stk)) - int (length pv) else 0)) \<and>
    prev st' = cur st \<and> cur st' = cur st + Suc (length c) \<and> length (stack st') = length (stack st)"
proof (cases "c = ''..''")
  case True
  with dd obtain us u where stk: "stk = us @ [u]" by (cases stk rule: rev_cases) auto
  with True pv c stacked_pop [of str st us u x "length pv"] st w show ?thesis
    by (auto simp: norm_step_def Let_def intro!: stacked_cong)
next
  case False
  show ?thesis
  proof (cases "c = ''.''")
    case True
    with st c show ?thesis by (auto simp: norm_step_def Let_def intro!: stacked_cong)
  next
    case ordinary: False
    have "nat (index st) = length stk" "0 \<le> index st" using st by (auto simp: stacked_def)
    with ordinary False c room stacked_push [OF st room c] show ?thesis
      by (auto simp: norm_step_def Let_def intro!: stacked_cong)
  qed
qed

lemma weight_butlast: "weight (butlast stk) \<le> weight stk"
  by (cases stk rule: rev_cases) (auto simp: weight_def)

lemma length_resolve: "length (resolve_from stk [c]) \<le> Suc (length stk)"
  by auto

lemma norm_loop_ok:
  assumes "stacked str st stk x" "drop (cur st) str = enc s" "no_nul s"
    "length stk + length (pieces s) \<le> length (stack st)" "length s < 2 ^ 64 - 1"
    "within (length stk) (pieces s)" "str_at str (prev st) = Some pv" "length pv < 2 ^ 64 - 1"
  shows "\<exists>st'. norm_loop (length (pieces s)) str st = Some st' \<and>
    stacked str st' (resolve_from stk (pieces s)) (x + length_error pv stk (pieces s))"
  using assms
proof (induction "length (pieces s)" arbitrary: s st stk x pv rule: less_induct)
  case less
  obtain w ws where p: "pieces s = w # ws" by (cases "pieces s") auto
  have w: "str_at str (cur st) = Some w"
    using less.prems(2,3) p by (simp add: str_at_def c_str_enc)
  have hd: "w = takeWhile (\<lambda>c. c \<noteq> CHR ''/'') s" using hd_pieces [of s] p by simp
  then have wl: "length w \<le> length s" by (simp add: length_takeWhile_le)
  define y where "y = x + (if w = ''..'' then int (length (last stk)) - int (length pv) else 0)"
  have "\<exists>st'. norm_step str st = Some st' \<and> stacked str st' (resolve_from stk [w]) y \<and>
    prev st' = cur st \<and> cur st' = cur st + Suc (length w) \<and> length (stack st') = length (stack st)"
    unfolding y_def using less.prems w p by (intro norm_step_ok) (auto split: if_splits)
  then obtain st1 where st1: "norm_step str st = Some st1" "stacked str st1 (resolve_from stk [w]) y"
    "prev st1 = cur st" "cur st1 = cur st + Suc (length w)" "length (stack st1) = length (stack st)"
    by blast
  have e: "x + length_error pv stk (pieces s) = y + length_error w (resolve_from stk [w]) ws" by (simp add: p y_def)
  show ?case
  proof (cases "ws = []")
    case True
    with p st1 e show ?thesis by simp
  next
    case False
    with p obtain t where t: "s = w @ CHR ''/'' # t" "t \<noteq> []" "CHR ''/'' \<notin> set w" "pieces t = ws"
      using tl_pieces [of s] by auto
    have "drop (cur st1) str = drop (Suc (length w)) (enc s)"
      using st1(4) less.prems(2) by (metis add.commute drop_drop)
    then have d: "drop (cur st1) str = enc t" using t drop_enc by simp
    have "\<exists>st'. norm_loop (length (pieces t)) str st1 = Some st' \<and>
        stacked str st' (resolve_from (resolve_from stk [w]) (pieces t)) (y + length_error w (resolve_from stk [w]) (pieces t))"
    proof (rule less.hyps)
      show "length (pieces t) < length (pieces s)" "no_nul t" "length t < 2 ^ 64 - 1" "length w < 2 ^ 64 - 1"
        using less.prems(3,5) p t by auto
      show "length (resolve_from stk [w]) + length (pieces t) \<le> length (stack st1)"
        using less.prems(4) p t(4) st1(5) length_resolve [of stk w] by simp
      show "within (length (resolve_from stk [w])) (pieces t)" using less.prems(6) p t(4) by (auto split: if_splits)
      show "str_at str (prev st1) = Some w" using st1(3) w by simp
    qed (fact st1(2) d)+
    with p t(4) st1(1) e show ?thesis by (auto simp: add.assoc)
  qed
qed

text \<open>Below the root, a piece that would be stacked is written before the array.\<close>

lemma norm_step_index:
  assumes "str_at str (cur st) = Some c" "\<exists>pv. str_at str (prev st) = Some pv"
    "norm_step str st = Some st'"
  shows "index st' = (if c = ''..'' then index st - 1 else if c = ''.'' then index st else index st + 1)"
    and "prev st' = cur st" and "cur st' = cur st + Suc (length c)"
    and "c \<noteq> ''..'' \<Longrightarrow> c \<noteq> ''.'' \<Longrightarrow> 0 \<le> index st"
  using assms by (auto simp: norm_step_def Let_def split: if_splits Option.bind_splits)

lemma norm_loop_overclimbs:
  assumes "drop (cur st) str = enc s" "no_nul s" "\<exists>pv. str_at str (prev st) = Some pv"
    "overclimbs (index st) (pieces s)"
  shows "norm_loop (length (pieces s)) str st = None"
  using assms
proof (induction "length (pieces s)" arbitrary: s st rule: less_induct)
  case less
  obtain w ws where p: "pieces s = w # ws" by (cases "pieces s") auto
  have w: "str_at str (cur st) = Some w"
    using less.prems(1,2) p by (simp add: str_at_def c_str_enc)
  show ?case
  proof (cases "norm_step str st")
    case None
    with p show ?thesis by simp
  next
    case (Some st1)
    note idx = norm_step_index [OF w less.prems(3) Some]
    have over: "overclimbs (index st1) ws"
      using less.prems(4) p idx(1,4) by (auto split: if_splits)
    then have "ws \<noteq> []" by auto
    with p obtain t where t: "s = w @ CHR ''/'' # t" "CHR ''/'' \<notin> set w" "pieces t = ws"
      using tl_pieces [of s] by auto
    have "drop (cur st1) str = drop (Suc (length w)) (enc s)"
      using idx(3) less.prems(1) by (metis add.commute drop_drop)
    then have "drop (cur st1) str = enc t" using t drop_enc by simp
    then have "norm_loop (length (pieces t)) str st1 = None"
      using less.prems(2) t p over idx(2) w by (intro less.hyps) auto
    with p t Some show ?thesis by simp
  qed
qed

section \<open>The loop that writes the result\<close>

lemma length_render: "length (render cs) = weight cs"
  by (induction cs) (auto simp: render_def weight_def)

lemma memcpy_str:
  assumes "str_at str q = Some s" "j + length s \<le> length r"
  shows "memcpy r j str q (length s) = Some (take j r @ map Some s @ drop (j + length s) r)"
  using assms c_str_take [of "drop q str" s] by (auto simp: memcpy_def str_at_def)

lemma norm_emit_ok:
  assumes "map (str_at str) qs = map Some cs" "j + weight cs \<le> length r"
  shows "norm_emit str (map Some qs) j r =
    Some (take j r @ map Some (render cs) @ drop (j + weight cs) r)"
  using assms
proof (induction qs arbitrary: cs j r)
  case Nil
  then show ?case by (simp add: weight_def render_def)
next
  case (Cons q qs)
  then obtain c cs' where cs: "cs = c # cs'" "str_at str q = Some c" "map (str_at str) qs = map Some cs'"
    by (cases cs) auto
  define r1 where "r1 = r[j := Some (CHR ''/'')]"
  define r2 where "r2 = take (j + 1) r1 @ map Some c @ drop (j + 1 + length c) r1"
  have len: "j < length r" "j + 1 + length c + weight cs' \<le> length r"
    using Cons.prems(2) cs(1) by (auto simp: weight_def)
  have m: "memcpy r1 (j + 1) str q (length c) = Some r2"
    using len cs(2) unfolding r2_def by (intro memcpy_str) (auto simp: r1_def)
  have l2: "length r2 = length r" using len by (simp add: r1_def r2_def)
  have t2: "take (j + 1 + length c) r2 = take j r @ Some (CHR ''/'') # map Some c"
    using len by (simp add: r1_def r2_def take_Suc_conv_app_nth)
  have d2: "drop (j + 1 + length c + n) r2 = drop (j + 1 + length c + n) r" for n
    using len by (simp add: r1_def r2_def add_ac)
  have "norm_emit str (map Some qs) (j + 1 + length c) r2 =
      Some (take (j + 1 + length c) r2 @ map Some (render cs') @ drop (j + 1 + length c + weight cs') r2)"
    using Cons.IH cs(3) len l2 by simp
  moreover have "take (j + 1 + length c) r2 @ map Some (render cs') @ drop (j + 1 + length c + weight cs') r2
      = take j r @ map Some (render cs) @ drop (j + weight cs) r"
    unfolding t2 d2 by (simp add: cs(1) render_def weight_def add.assoc)
  ultimately show ?case
    using cs(2) len(1) m by (simp add: r1_def [symmetric])
qed


lemma norm_emit_short:
  assumes "map (str_at str) qs = map Some cs" "length r < j + weight cs" "cs \<noteq> []"
  shows "norm_emit str (map Some qs) j r = None"
  using assms
proof (induction qs arbitrary: cs j r)
  case (Cons q qs)
  then obtain c cs' where cs: "cs = c # cs'" "str_at str q = Some c" "map (str_at str) qs = map Some cs'"
    by (cases cs) auto
  show ?case
  proof (cases "j < length r \<and> j + 1 + length c \<le> length r")
    case False
    with cs(2) show ?thesis unfolding list.map norm_emit.simps by (auto simp: memcpy_def wr_def)
  next
    case True
    then have "cs' \<noteq> []" using Cons.prems(2) by (auto simp: cs(1) weight_def)
    moreover have "length r < j + 1 + length c + weight cs'" using Cons.prems(2) by (simp add: cs(1) weight_def)
    ultimately have "norm_emit str (map Some qs) (j + 1 + length c) r' = None" if "length r' = length r" for r'
      using Cons.IH [OF cs(3), of r' "j + 1 + length c"] that by simp
    then show ?thesis using cs(2) True
      by (cases "memcpy (r[j := Some (CHR ''/'')]) (Suc j) str q (length c)") (auto dest: memcpy_length)
  qed
qed simp


section \<open>normalize_path\<close>

definition joined :: "string \<Rightarrow> string \<Rightarrow> string" where
  "joined path basedir = drop (Suc (norm_start basedir)) basedir @ CHR ''/'' # path"

lemma norm_start_le: "norm_start b \<le> length b"
  by (simp add: norm_start_def scan_to_le scheme_len_le)

lemma norm_join_ok:
  assumes "start < length b" "length p + length b + 1 < obj_limit"
  shows "norm_join p b start = Some (map Some (drop (Suc start) b @ CHR ''/'' # p) @ [Some NUL])"
proof -
  define k where "k = length b - start - 1"
  define n where "n = length p + length b - start + 1"
  have n: "n = k + 1 + length p + 1" "n < obj_limit" using assms by (auto simp: k_def n_def)
  have k: "Suc (start + k) = length b" using assms(1) by (simp add: k_def)
  have size_of: "sz_sub (length b - start) 1 = k" using assms by (simp add: k_def)
  have c: "take k (drop (Suc start) (cstr_mem b)) = map Some (drop (Suc start) b)"
    using assms(1) by (simp add: cstr_mem_def k_def drop_map)
  have m1: "memcpy (replicate n None) 0 (cstr_mem b) (start + 1) k
      = Some (map Some (drop (Suc start) b) @ replicate (length p + 2) None)"
    using k n c by (simp add: memcpy_def del: replicate_Suc)
  have w1: "wr (map Some (drop (Suc start) b) @ replicate (length p + 2) None) k (Some (CHR ''/''))
      = Some (map Some (drop (Suc start) b @ ''/'') @ replicate (length p + 1) None)"
    using assms(1) by (simp add: k_def list_update_append)
  have m2: "memcpy (map Some (drop (Suc start) b @ ''/'') @ replicate (length p + 1) None)
        (length b - start) (cstr_mem p) 0 (length p)
      = Some (map Some (drop (Suc start) b @ CHR ''/'' # p) @ [None])"
    using assms(1) by (simp add: memcpy_def cstr_mem_def Suc_diff_Suc)
  have w2: "wr (map Some (drop (Suc start) b @ CHR ''/'' # p) @ [None]) (length p + length b - start) (Some NUL)
      = Some (map Some (drop (Suc start) b @ CHR ''/'' # p) @ [Some NUL])"
  proof -
    have "length (drop (Suc start) b @ CHR ''/'' # p) = length p + length b - start"
      using assms(1) by simp
    then show ?thesis
      by (metis length_append_singleton length_map lessI list_update_length wr_in)
  qed
  show ?thesis
    unfolding norm_join_def Let_def n_def [symmetric] size_of
    using n(2) m1 w1 m2 w2 by (simp del: map_append)
qed

lemma norm_prefix_ok:
  assumes "start < length b" "t < obj_limit" "start \<le> t"
  shows "memcpy (replicate (Suc t) None) 0 (cstr_mem b) 0 start
    = Some (map Some (take start b) @ replicate (Suc t - start) None)"
  using assms by (simp add: memcpy_def cstr_mem_def take_map del: replicate_Suc)


text \<open>The end of the function, \<open>total\<close> being wrong by \<open>x\<close>.\<close>

definition norm_tail :: "buf \<Rightarrow> norm_state \<Rightarrow> string \<Rightarrow> nat \<Rightarrow> buf option" where
  "norm_tail str st b start = do {
     let total' = sz_add (total st) start;
     result \<leftarrow> malloc (sz_add total' 1);
     result \<leftarrow> memcpy result 0 (cstr_mem b) 0 start;
     result \<leftarrow> norm_emit str (take (nat (index st)) (stack st)) start result;
     wr result total' (Some NUL)
   }"

lemma norm_tail_unfold:
  assumes "stacked str st stk x"
  shows "\<exists>qs. map (str_at str) qs = map Some stk \<and> norm_tail str st b start = do {
     result \<leftarrow> malloc (size_of (int (weight stk + start) + x + 1));
     result \<leftarrow> memcpy result 0 (cstr_mem b) 0 start;
     result \<leftarrow> norm_emit str (map Some qs) start result;
     wr result (size_of (int (weight stk + start) + x)) (Some NUL)
   }"
proof -
  obtain qs where qs: "take (length stk) (stack st) = map Some qs" "map (str_at str) qs = map Some stk"
    using assms by (auto simp: stacked_def)
  have "sz_add (total st) start = size_of (int (weight stk + start) + x)"
    using assms by (simp add: stacked_def sz_add_sz add_ac)
  moreover from this have "sz_add (sz_add (total st) start) 1 = size_of (int (weight stk + start) + x + 1)"
    by (simp add: sz_add_sz add_ac)
  ultimately show ?thesis using qs assms by (intro exI [of _ qs]) (simp add: norm_tail_def stacked_def Let_def)
qed

text \<open>The buffer with the prefix and the components written, if it is long enough for them.\<close>

lemma norm_written:
  assumes "map (str_at str) qs = map Some stk" "start < length b" "weight stk + start \<le> n"
  shows "do {
     result \<leftarrow> memcpy (replicate n None) 0 (cstr_mem b) 0 start;
     norm_emit str (map Some qs) start result
   } = Some (map Some (take start b @ render stk) @ replicate (n - (weight stk + start)) None)"
proof -
  let ?r = "map Some (take start b) @ replicate (n - start) (None :: char option)"
  have "memcpy (replicate n None) 0 (cstr_mem b) 0 start = Some ?r"
    using assms(2,3) by (simp add: memcpy_def cstr_mem_def take_map)
  moreover have "norm_emit str (map Some qs) start ?r =
      Some (take start ?r @ map Some (render stk) @ drop (start + weight stk) ?r)"
    using assms by (intro norm_emit_ok) auto
  ultimately show ?thesis using assms(2,3) by (simp add: add.commute)
qed

lemma c_str_partial_none: "no_nul w \<Longrightarrow> c_str (map Some w @ None # r) = None"
  by (induction w) auto

lemma norm_tail_ok:
  assumes st: "stacked str st stk x" and b: "start < length b" and lim: "Suc (weight stk + start) < obj_limit"
    and nul: "no_nul b" "\<forall>c \<in> set stk. no_nul c" and x: "- (2 ^ 63) < x" "x < 2 ^ 63"
  shows "do { r \<leftarrow> norm_tail str st b start; c_str r } =
    (let r = take start b @ render stk in
     if x = 0 then Some r else if x = -1 \<and> r \<noteq> [] then Some (butlast r) else None)"
proof -
  define w where "w = weight stk + start"
  define r where "r = take start b @ render stk"
  have rl: "length r = w" using b by (simp add: r_def w_def length_render)
  have rn: "no_nul r" using nul by (auto simp: r_def no_nul_def render_def dest: in_set_takeD)
  have w: "Suc w < 2 ^ 63" using lim by (simp add: w_def obj_limit_def)
  obtain qs where qs: "map (str_at str) qs = map Some stk" and tail: "norm_tail str st b start = do {
     result \<leftarrow> malloc (size_of (int w + x + 1));
     result \<leftarrow> memcpy result 0 (cstr_mem b) 0 start;
     result \<leftarrow> norm_emit str (map Some qs) start result;
     wr result (size_of (int w + x)) (Some NUL)
   }" using norm_tail_unfold [OF st, of b start] by (auto simp: w_def)
  have written: "do {
       result \<leftarrow> memcpy (replicate n None) 0 (cstr_mem b) 0 start;
       result \<leftarrow> norm_emit str (map Some qs) start result; f result } = f (map Some r @ replicate (n - w) None)"
    if "w \<le> n" for n and f :: "buf \<Rightarrow> buf option"
    using norm_written [OF qs b, of n] that by (simp add: w_def r_def add.commute bind_assoc [symmetric] del: bind_assoc)
  consider "x = 0" | "0 < x" | "x = -1" "w \<noteq> 0" | "x = -1" "w = 0" | "x < -1" "0 \<le> int w + x + 1" | "x < -1" "int w + x + 1 < 0"
    by linarith
  then show ?thesis
  proof cases
    case 1
    have s: "size_of (int w + x + 1) = Suc w" "size_of (int w + x) = w" using w 1 sz_nat [of "Suc w"] sz_nat [of w] by (auto simp: add_ac)
    have "norm_tail str st b start = Some (map Some r @ [Some NUL])"
      unfolding tail s using w written [of "Suc w"] rl by (simp add: obj_limit_def list_update_append)
    with 1 rn show ?thesis by (simp add: r_def [symmetric])
  next
    case 2
    define k where "k = nat x"
    have k: "x = int k" "0 < k" "w + k + 1 < 2 ^ 64" using 2 x w by (auto simp: k_def)
    define n where "n = w + Suc k"
    have s: "size_of (int w + x + 1) = n" "size_of (int w + x) = w + k"
      using k sz_nat [of "w + k + 1"] sz_nat [of "w + k"] by (auto simp: n_def add_ac)
    have "c_str ((map Some r @ replicate (Suc k) None)[w + k := Some NUL]) = None"
      using k(2) rl c_str_partial_none [OF rn] by (cases k) (simp_all add: list_update_append)
    moreover have "n - w = Suc k" "w \<le> n" by (simp_all add: n_def)
    moreover have "norm_tail str st b start = None \<or>
        norm_tail str st b start = Some ((map Some r @ replicate (n - w) None)[w + k := Some NUL])"
      unfolding tail s using written [of n] rl \<open>n - w = Suc k\<close> \<open>w \<le> n\<close> by (simp add: malloc_def del: replicate_Suc)
    ultimately have "do { r \<leftarrow> norm_tail str st b start; c_str r } = None" by auto
    with 2 show ?thesis by (simp add: Let_def)
  next
    case 3
    then have s: "size_of (int w + x + 1) = w" "size_of (int w + x) = w - 1" using w sz_nat [of w] sz_nat [of "w - 1"] by (auto simp: of_nat_diff)
    have ne: "r \<noteq> []" using 3 rl by auto
    have "norm_tail str st b start = Some ((map Some r)[w - 1 := Some NUL])"
      unfolding tail s using w written [of w] rl 3 by (simp add: obj_limit_def)
    moreover have "(map Some r)[w - 1 := Some NUL] = map Some (butlast r) @ [Some NUL]"
      using ne rl by (cases r rule: rev_cases) (auto simp: list_update_append)
    moreover have "no_nul (butlast r)" using rn by (auto simp: no_nul_def dest: in_set_butlastD)
    ultimately show ?thesis using 3 ne by (simp add: r_def [symmetric])
  next
    case 4
    then have "r = []" using rl by simp
    have s: "size_of (int w + x + 1) = 0" "size_of (int w + x) = 2 ^ 64 - 1" using 4 by (simp_all add: size_of_def)
    have "norm_tail str st b start = None"
      unfolding tail s using written [of 0] 4 rl by (simp add: obj_limit_def wr_def)
    with 4 \<open>r = []\<close> show ?thesis by (simp add: r_def [symmetric])
  next
    case 5
    define n where "n = nat (int w + x + 1)"
    have n: "size_of (int w + x + 1) = n" "n < w" "n < obj_limit" using 5 w by (auto simp: n_def size_of_def obj_limit_def)
    have "norm_emit str (map Some qs) start result = None" if "memcpy (replicate n None) 0 (cstr_mem b) 0 start = Some result" for result
    proof (rule norm_emit_short [OF qs])
      have "length result = n" using memcpy_length [OF that] by simp
      then show "length result < start + weight stk" using n(2) by (simp add: w_def)
      have "start \<le> n" using that by (auto simp: memcpy_def split: if_splits)
      then show "stk \<noteq> []" using n(2) by (auto simp: w_def weight_def)
    qed
    then have "norm_tail str st b start = None"
      unfolding tail n(1) using n(3) by (cases "memcpy (replicate n None) 0 (cstr_mem b) 0 start") auto
    with 5 show ?thesis by (simp add: Let_def)
  next
    case 6
    have "(int w + x + 1) mod 2 ^ 64 = 2 ^ 64 + (int w + x + 1)"
      using 6 x(1) mod_add_self1 [of "2 ^ 64" "int w + x + 1"] by (simp add: mod_pos_pos_trivial)
    then have "\<not> size_of (int w + x + 1) < obj_limit" using 6 x(1) by (simp add: size_of_def obj_limit_def)
    with 6 show ?thesis by (simp add: tail malloc_def Let_def)
  qed
qed

lemma no_nul_pieces: "no_nul s \<Longrightarrow> list_all no_nul (pieces s)"
proof (induction s rule: pieces.induct)
  case (3 c d s)
  then show ?case by (cases "pieces (d # s)") simp_all
qed simp_all

lemma set_resolve_from: "set (resolve_from stk cs) \<subseteq> set stk \<union> set cs"
  by (induction stk cs rule: resolve_from.induct) (auto split: if_splits dest: in_set_butlastD)

lemma weight_resolve_from: "weight (resolve_from stk cs) \<le> weight stk + weight cs"
proof (induction stk cs rule: resolve_from.induct)
  case (2 stk c cs)
  then show ?case using weight_butlast [of stk] by (auto simp: weight_def split: if_splits)
qed simp

lemma weight_pieces: "weight (pieces s) \<le> Suc (length s)"
proof (induction s rule: pieces.induct)
  case (3 c d s)
  then show ?case by (cases "pieces (d # s)") (auto simp: weight_def)
qed (auto simp: weight_def)

text \<open>The error is no larger than the text.\<close>

lemma length_error_le: "within (length dir) cs \<Longrightarrow> length_error before dir cs \<le> int (weight dir) + int (weight cs)"
proof (induction before dir cs rule: length_error.induct)
  case (2 before dir c cs)
  show ?case
  proof (cases "c = ''..''")
    case True
    with 2(2) obtain us u where "dir = us @ [u]" by (cases dir rule: rev_cases) auto
    with 2 True show ?thesis by (auto simp: weight_def)
  qed (use 2 in \<open>auto simp: weight_def split: if_splits\<close>)
qed simp

lemma length_error_ge:
  "- (if cs \<noteq> [] \<and> hd cs = ''..'' then int (length before) else 0) - int (weight cs) \<le> length_error before dir cs"
proof (induction before dir cs rule: length_error.induct)
  case (2 before dir c cs)
  then show ?case by (auto simp: weight_def split: if_splits)
qed simp

lemma norm_loop_init:
  assumes "no_nul s" "Suc (length s) < 2 ^ 64 - 1" "within 0 (pieces s)"
  shows "\<exists>st. norm_loop (length (pieces s)) (enc s)
      \<lparr>stack = replicate (length (pieces s)) None, index = 0, total = 0, prev = 0, cur = 0\<rparr> = Some st \<and>
    stacked (enc s) st (resolve (pieces s)) (length_error (hd (pieces s)) [] (pieces s))"
proof -
  have "length (hd (pieces s)) \<le> length s" by (simp add: hd_pieces length_takeWhile_le)
  moreover have "stacked (enc s) \<lparr>stack = replicate (length (pieces s)) None, index = 0, total = 0, prev = 0, cur = 0\<rparr> [] 0"
    by (simp add: stacked_def weight_def size_of_def)
  ultimately show ?thesis
    using norm_loop_ok [of "enc s" _ "[]" 0 s "hd (pieces s)"] assms by (simp add: resolve_def str_at_def c_str_enc)
qed

lemma normalize_unfold:
  assumes "\<not> is_absolute_path path" "norm_start basedir < length basedir"
    "length path + length basedir + 1 < obj_limit" "no_nul path" "no_nul basedir"
  shows "normalize_path path basedir =
    do {
      st \<leftarrow> norm_loop (length (pieces (joined path basedir))) (enc (joined path basedir))
        \<lparr>stack = replicate (length (pieces (joined path basedir))) None,
         index = 0, total = 0, prev = 0, cur = 0\<rparr>;
      norm_tail (enc (joined path basedir)) st basedir (norm_start basedir)
    }"
proof -
  let ?s = "joined path basedir"
  have j: "norm_join path basedir (norm_start basedir) = Some (map Some ?s @ [Some NUL])"
    using assms unfolding joined_def by (intro norm_join_ok) auto
  have "no_nul ?s" using assms(4,5) by (auto simp: joined_def no_nul_def dest: in_set_dropD)
  then have s: "str_at (map Some ?s @ [Some NUL]) 0 = Some ?s"
    using c_str_append_nul [of ?s "[]"] by (simp add: str_at_def)
  obtain lst where sp: "str_split ?s (CHR ''/'') = (map slash_nul ?s, lst, int (length (pieces ?s)))"
    using str_split_count by blast
  have e: "map Some (map slash_nul ?s) @ drop (length (map slash_nul ?s)) (map Some ?s @ [Some NUL]) = enc ?s"
    by (simp add: enc_def)
  show ?thesis
    using assms(1) by (simp add: normalize_path_def norm_tail_def j s sp e Let_def del: map_map length_map drop_append)
qed

text \<open>Any path that stays within the root: the result, and when its length is right.\<close>

lemma normalize_within:
  assumes "\<not> is_absolute_path path" "norm_start basedir < length basedir"
    "length path + length basedir + 2 < obj_limit" "no_nul path" "no_nul basedir"
    "within 0 (pieces (joined path basedir))"
  shows "normalized path basedir =
    (let cs = pieces (joined path basedir); r = take (norm_start basedir) basedir @ render (resolve cs); x = length_error (hd cs) [] cs in
     if x = 0 then Some r else if x = -1 \<and> r \<noteq> [] then Some (butlast r) else None)"
proof -
  let ?s = "joined path basedir" and ?start = "norm_start basedir"
  let ?x = "length_error (hd (pieces ?s)) [] (pieces ?s)"
  have ns: "no_nul ?s" using assms(4,5) by (auto simp: joined_def no_nul_def dest: in_set_dropD)
  have ls: "Suc (length ?s + ?start) = length path + length basedir + 1"
    using assms(2) by (simp add: joined_def)
  have w: "weight (resolve (pieces ?s)) \<le> Suc (length ?s)"
    using weight_resolve_from [of "[]" "pieces ?s"] weight_pieces [of ?s]
    by (simp add: resolve_def weight_def)
  have n: "\<forall>c \<in> set (resolve (pieces ?s)). no_nul c"
    using set_resolve_from [of "[]" "pieces ?s"] no_nul_pieces [OF ns]
    by (auto simp: resolve_def list_all_iff)
  obtain st where st: "norm_loop (length (pieces ?s)) (enc ?s)
      \<lparr>stack = replicate (length (pieces ?s)) None, index = 0, total = 0, prev = 0, cur = 0\<rparr> = Some st"
    "stacked (enc ?s) st (resolve (pieces ?s)) ?x"
    using norm_loop_init [OF ns _ assms(6)] ls assms(3) by (auto simp: obj_limit_def)
  have "hd (pieces ?s) \<noteq> ''..''" using assms(6) by (cases "pieces ?s") auto
  then have x: "- (2 ^ 63) < ?x" "?x < 2 ^ 63"
    using length_error_le [of "[]" "pieces ?s" "hd (pieces ?s)"] length_error_ge [of "pieces ?s" "hd (pieces ?s)" "[]"]
      weight_pieces [of ?s] ls assms(3,6) by (simp_all add: weight_def obj_limit_def)
  have "Suc (weight (resolve (pieces ?s)) + ?start) < obj_limit" using w ls assms(3) by linarith
  from norm_tail_ok [OF st(2) assms(2) this assms(5) n x]
  show ?thesis
    using normalize_unfold [OF assms(1,2) _ assms(4,5)] assms(3) st(1) by (simp add: normalized_def Let_def)
qed

lemma normalize_resolves:
  assumes "\<not> is_absolute_path path" "norm_start basedir < length basedir"
    "length path + length basedir + 2 < obj_limit" "no_nul path" "no_nul basedir"
    "dotdot_ok False (pieces (joined path basedir))"
  shows "normalized path basedir =
    Some (take (norm_start basedir) basedir @ render (resolve (pieces (joined path basedir))))"
proof -
  have "within 0 (pieces (joined path basedir))" by (rule dotdot_within [OF assms(6)]) simp
  moreover have "length_error b [] (pieces (joined path basedir)) = 0" for b by (rule dotdot_length [OF assms(6)]) simp
  ultimately show ?thesis using normalize_within [OF assms(1-5)] by simp
qed

lemma normalize_absolute:
  assumes "is_absolute_path path" "no_nul path" "length path + 1 < obj_limit"
  shows "normalized path basedir = Some path"
proof -
  have "memcpy ((replicate (length path + 1) None)[length path := Some NUL]) 0 (cstr_mem path) 0 (length path)
      = Some (map Some path @ [Some NUL])"
    by (simp add: memcpy_def cstr_mem_def list_update_append del: replicate_Suc)
       (simp add: replicate_append_same [symmetric] list_update_append)
  then show ?thesis
    using assms by (simp add: normalized_def normalize_path_def del: replicate_Suc)
qed

lemma normalize_overclimbs:
  assumes "\<not> is_absolute_path path" "norm_start basedir < length basedir"
    "length path + length basedir + 1 < obj_limit" "no_nul path" "no_nul basedir"
    "overclimbs 0 (pieces (joined path basedir))"
  shows "normalize_path path basedir = None"
proof -
  let ?s = "joined path basedir"
  have ns: "no_nul ?s" using assms(4,5) by (auto simp: joined_def no_nul_def dest: in_set_dropD)
  have "norm_loop (length (pieces ?s)) (enc ?s)
      \<lparr>stack = replicate (length (pieces ?s)) None, index = 0, total = 0, prev = 0, cur = 0\<rparr> = None"
    using assms(6) ns by (intro norm_loop_overclimbs) (auto simp: str_at_def c_str_enc)
  then show ?thesis using normalize_unfold [OF assms(1-5)] by simp
qed

section \<open>Module specifiers\<close>

text \<open>An ordinary path component, and the origin of an absolute path: empty, or a scheme and a host.\<close>

definition ordinary :: "string \<Rightarrow> bool" where
  "ordinary c \<longleftrightarrow> c \<noteq> [] \<and> CHR ''/'' \<notin> set c \<and> no_nul c \<and> c \<noteq> ''.'' \<and> c \<noteq> ''..''"

definition origin :: "string \<Rightarrow> bool" where
  "origin pre \<longleftrightarrow> pre = [] \<or>
     (\<exists>h. (pre = ''http://'' @ h \<or> pre = ''https://'' @ h) \<and> CHR ''/'' \<notin> set h \<and> no_nul h)"

lemma render_simps [simp]: "render [] = []" "render (c # cs) = CHR ''/'' # c @ render cs"
  "render (cs @ ds) = render cs @ render ds"
  by (simp_all add: render_def)

lemma no_nul_render: "list_all ordinary ds \<Longrightarrow> no_nul (render ds)"
  by (induction ds) (auto simp: ordinary_def)

lemma no_nul_origin: "origin pre \<Longrightarrow> no_nul pre"
  by (auto simp: origin_def)

lemma scheme_len_origin:
  assumes "origin pre"
  shows "scheme_len (pre @ CHR ''/'' # t) \<le> length pre"
    and "pre = [] \<Longrightarrow> scheme_len (pre @ CHR ''/'' # t) = 0"
  using assms by (auto simp: origin_def scheme_len_def strstr_0_iff)

lemma norm_start_origin:
  assumes "origin pre"
  shows "norm_start (pre @ CHR ''/'' # t) = length pre"
proof -
  consider "pre = []" | h where "pre = ''http://'' @ h" "CHR ''/'' \<notin> set h"
    | h where "pre = ''https://'' @ h" "CHR ''/'' \<notin> set h"
    using assms by (auto simp: origin_def)
  then show ?thesis
  proof cases
    case 1
    then show ?thesis
      using scan_to_found [of "[]" "\<lambda>c. c = CHR ''/''" "CHR ''/''" "[]" t 0]
        scheme_len_origin(2) [OF assms] by (simp add: norm_start_def)
  next
    case 2
    then show ?thesis
      using scan_to_found [of h "\<lambda>c. c = CHR ''/''" "CHR ''/''" "''http://''" t 7]
        scheme_len_http [of "h @ CHR ''/'' # t"] by (auto simp: norm_start_def eval_nat_numeral)
  next
    case 3
    then show ?thesis
      using scan_to_found [of h "\<lambda>c. c = CHR ''/''" "CHR ''/''" "''https://''" t 8]
        scheme_len_https [of "h @ CHR ''/'' # t"] by (auto simp: norm_start_def eval_nat_numeral)
  qed
qed

lemma pieces_render:
  "list_all ordinary ds \<Longrightarrow> ds \<noteq> [] \<Longrightarrow> p \<noteq> [] \<Longrightarrow> pieces (tl (render ds) @ CHR ''/'' # p) = ds @ pieces p"
proof (induction ds)
  case (Cons d ds)
  show ?case
  proof (cases ds)
    case Nil
    with Cons.prems show ?thesis by (simp add: pieces_append ordinary_def)
  next
    case (Cons e es)
    with Cons.IH Cons.prems show ?thesis
      by (simp add: ordinary_def pieces_append)
  qed
qed simp

lemma resolve_from_ordinary:
  "list_all ordinary ds \<Longrightarrow> resolve_from stk (ds @ cs) = resolve_from (stk @ ds) cs"
  by (induction ds arbitrary: stk) (auto simp: ordinary_def)

lemma dotdot_ok_ordinary:
  "list_all ordinary ds \<Longrightarrow> dotdot_ok ok (ds @ cs) = dotdot_ok (if ds = [] then ok else True) cs"
  by (induction ds arbitrary: ok) (auto simp: ordinary_def)

lemma dirname_module:
  assumes "origin pre" "list_all ordinary ds" "ds \<noteq> []" "ordinary f"
    "length (pre @ render (ds @ [f])) < obj_limit"
  shows "dirname (pre @ render (ds @ [f])) = Some (pre @ render ds)"
proof -
  let ?d = "pre @ render ds"
  obtain d es where ds: "ds = d # es" using assms(3) by (cases ds) auto
  have "pre @ render (ds @ [f]) = pre @ CHR ''/'' # d @ render es @ CHR ''/'' # f" by (simp add: ds)
  then have "scheme_len (pre @ render (ds @ [f])) \<le> length pre"
    using scheme_len_origin(1) [OF assms(1)] by metis
  moreover have "length pre < length ?d" by (simp add: ds)
  moreover have "f \<noteq> []" "CHR ''/'' \<notin> set (butlast f)"
    using assms(4) by (auto simp: ordinary_def dest: in_set_butlastD)
  ultimately show ?thesis
    using dirname_slash [of f ?d] assms(5) ds by simp
qed

lemma import_lemma:
  assumes "origin pre" "list_all ordinary ds" "ds \<noteq> []" "ordinary g"
    "length pre + length (render ds) + length g + 6 < obj_limit" "dots \<in> {''.'', ''..''}"
  shows "normalized (dots @ CHR ''/'' # g) (pre @ render ds) =
    Some (pre @ render (resolve (ds @ [dots, g])))"
proof -
  let ?b = "pre @ render ds" and ?p = "dots @ CHR ''/'' # g"
  obtain d es where ds: "ds = d # es" using assms(3) by (cases ds) auto
  have st: "norm_start ?b = length pre" using norm_start_origin [OF assms(1)] by (simp add: ds)
  have j: "joined ?p ?b = tl (render ds) @ CHR ''/'' # ?p" unfolding joined_def st by (simp add: ds)
  have "CHR ''/'' \<notin> set dots" using assms(6) by auto
  then have g: "pieces ?p = [dots, g]"
    using assms(4) by (simp only: pieces_append pieces_one ordinary_def simp_thms)
  have pj: "pieces (joined ?p ?b) = ds @ [dots, g]"
    unfolding j using pieces_render [OF assms(2,3), of ?p] g by simp
  have "normalized ?p ?b = Some (take (norm_start ?b) ?b @ render (resolve (pieces (joined ?p ?b))))"
  proof (rule normalize_resolves)
    show "\<not> is_absolute_path ?p"
      using assms(6) by (auto simp: is_absolute_iff is_http_prefix)
    show "norm_start ?b < length ?b" unfolding st by (simp add: ds)
    show "length ?p + length ?b + 2 < obj_limit" using assms(5,6) by auto
    show "no_nul ?p" "no_nul ?b"
      using assms(4,6) no_nul_origin [OF assms(1)] no_nul_render [OF assms(2)] by (auto simp: ordinary_def)
    show "dotdot_ok False (pieces (joined ?p ?b))"
      unfolding pj using assms(2,3,4,6) by (auto simp: dotdot_ok_ordinary ordinary_def)
  qed
  then show ?thesis by (simp add: st pj)
qed

section \<open>Properties\<close>

text \<open>An import is resolved against the module that makes it: for a module at
  \<open>pre/d1/.../dn/f\<close> (on disk, or under an http or https origin), \<open>dirname\<close> gives the module's
  directory, and \<open>normalize_path\<close> of \<open>./g\<close> and \<open>../g\<close> against that directory gives the absolute
  path of \<open>g\<close> in it and in its parent.\<close>

lemma import_relative:
  assumes "origin pre" "list_all ordinary ds" "ds \<noteq> []" "ordinary f" "ordinary g"
    "length pre + length (render ds) + length f + length g + 6 < obj_limit"
  shows "dirname (pre @ render (ds @ [f])) = Some (pre @ render ds) \<and>
    normalized (''./'' @ g) (pre @ render ds) = Some (pre @ render (ds @ [g])) \<and>
    normalized (''../'' @ g) (pre @ render ds) = Some (pre @ render (butlast ds @ [g]))"
proof -
  have r: "resolve (ds @ [dots, g]) = (if dots = ''.'' then ds else butlast ds) @ [g]"
    if "dots \<in> {''.'', ''..''}" for dots
    using that assms(2,5) by (auto simp: resolve_def resolve_from_ordinary ordinary_def)
  have "dirname (pre @ render (ds @ [f])) = Some (pre @ render ds)"
    using assms by (intro dirname_module) auto
  moreover have "normalized (''./'' @ g) (pre @ render ds) = Some (pre @ render (ds @ [g]))"
    using import_lemma [of pre ds g "''.''"] assms r [of "''.''"] by simp
  moreover have "normalized (''../'' @ g) (pre @ render ds) = Some (pre @ render (butlast ds @ [g]))"
    using import_lemma [of pre ds g "''..''"] assms r [of "''..''"] by simp
  ultimately show ?thesis by blast
qed

lemma import_relative_witness:
  "dirname ''http://h/a/b/m.js'' = Some ''http://h/a/b'' \<and>
   normalized ''./u.js'' ''http://h/a/b'' = Some ''http://h/a/b/u.js'' \<and>
   normalized ''../u.js'' ''http://h/a/b'' = Some ''http://h/a/u.js''"
  using import_relative [of "''http://h''" "[''a'', ''b'']" "''m.js''" "''u.js''"]
  by (simp add: origin_def ordinary_def obj_limit_def)

text \<open>The components that a relative \<open>path\<close> and the directory \<open>/d\<close> have together: the parts between slashes, empty ones
  among them, where a slash at the very end starts no other one.\<close>

fun split_slash :: "string \<Rightarrow> string list" where
  "split_slash [] = [[]]"
| "split_slash (c # s) =
     (if c = CHR ''/'' then [] # split_slash s else (c # hd (split_slash s)) # tl (split_slash s))"


lemma split_slash_nonempty [simp]: "split_slash s \<noteq> []"
  by (cases s) simp_all








text \<open>In the root directory the result has an empty first component.\<close>

lemma normalize_path_root: "normalized ''./g'' ''/'' = Some ''//g''"
  by code_simp

text \<open>An absolute path, or an http or https URL, is returned as it is.\<close>

lemma normalize_path_absolute:
  assumes "is_absolute_path path" "no_nul path" "length path + 1 < obj_limit"
  shows "normalized path basedir = Some path"
  using assms by (rule normalize_absolute)

lemma normalize_path_absolute_witness: "normalized ''https://a/../b'' ''/x'' = Some ''https://a/../b''"
  using normalize_path_absolute [of "''https://a/../b''" "''/x''"]
  by (simp add: is_absolute_iff is_http_prefix obj_limit_def)

text \<open>A specifier with more \<open>..\<close> than directories above it makes the code write before its
  array of components: undefined behaviour, not an error result.\<close>

lemma normalize_path_above_root:
  assumes "\<not> is_absolute_path path" "norm_start basedir < length basedir"
    "length path + length basedir + 1 < obj_limit" "no_nul path" "no_nul basedir"
    "overclimbs 0 (pieces (joined path basedir))"
  shows "normalize_path path basedir = None"
  using assms by (rule normalize_overclimbs)

lemma normalize_path_above_root_witness: "normalize_path ''../../c.js'' ''/a'' = None"
proof -
  have s: "norm_start ''/a'' = 0" by code_simp
  have j: "pieces (joined ''../../c.js'' ''/a'') = [''a'', ''..'', ''..'', ''c.js'']"
    by (simp add: joined_def s)
  show ?thesis
    using normalize_path_above_root [of "''../../c.js''" "''/a''"]
    by (simp add: s j is_absolute_iff is_http_prefix obj_limit_def)
qed

text \<open>C25. \<open>dirname\<close> has a result exactly when the path is a URL or has a slash before its last byte;
  on any other path (such as \<open>main.js\<close> or the empty string) the unsigned index wraps and the scan
  reads before the string.\<close>

theorem dirname_defined_iff:
  assumes "length p < obj_limit"
  shows "dirname p \<noteq> None \<longleftrightarrow> is_http_path p \<or> CHR ''/'' \<in> set (butlast p)"
proof (cases "CHR ''/'' \<in> set (butlast (drop (scheme_len p) p))")
  case False
  then show ?thesis
    using dirname_no_slash [OF False assms] by (auto simp: is_http_iff split: if_splits)
next
  case True
  then have sl: "CHR ''/'' \<in> set (butlast p)"
    by (metis butlast_drop in_set_dropD)
  from True obtain d f where df: "drop (scheme_len p) p = d @ CHR ''/'' # f" "f \<noteq> []"
    "CHR ''/'' \<notin> set (butlast f)" by (rule last_slash)
  define D where "D = take (scheme_len p) p @ d"
  have p: "p = D @ CHR ''/'' # f" using df(1) by (metis D_def append_take_drop_id append.assoc)
  have le: "scheme_len p \<le> length D" using scheme_len_le [of p] by (simp add: D_def)
  have lp: "length p = length D + Suc (length f)" using p by (metis length_append length_Cons)
  have "dirname_scan p (scheme_len p) (sz_sub (length p) 1) = Some (length D)"
    using assms le lp sep_at_append [OF df(2,3), of D]
    by (intro dirname_scan_found) (simp_all add: p [symmetric])
  moreover have "cs_at p (length D) = Some (p ! length D)" using assms lp by simp
  ultimately obtain i c where "dirname_scan p (scheme_len p) (sz_sub (length p) 1) = Some i"
    "cs_at p i = Some c" by blast
  then show ?thesis using sl by (auto simp: dirname_def Let_def)
qed

lemma dirname_defined_iff_witness: "dirname ''main.js'' = None \<and> dirname ''/main.js'' \<noteq> None"
  using dirname_defined_iff [of "''main.js''"] dirname_defined_iff [of "''/main.js''"]
  by (simp add: is_http_prefix obj_limit_def)

text \<open>A module at the root of an http origin: \<open>dirname\<close> of \<open>http://h/f\<close> is \<open>http://h\<close>, but
  \<open>normalize_path\<close> finds no slash after the host there, keeps the scheme's length as its start and
  loses the first byte of the host: \<open>./g\<close> becomes \<open>http:///\<close>, the rest of the host, \<open>/g\<close>.\<close>

lemma import_at_origin_root:
  assumes "ordinary (c # h)" "ordinary h" "ordinary f" "ordinary g"
    "length h + length f + length g + 20 < obj_limit"
  shows "dirname (''http://'' @ (c # h) @ CHR ''/'' # f) = Some (''http://'' @ (c # h)) \<and>
    normalized (''./'' @ g) (''http://'' @ (c # h)) = Some (''http:///'' @ h @ CHR ''/'' # g)"
proof
  have sch: "scheme_len ((''http://'' @ (c # h)) @ CHR ''/'' # f) = 7"
    using scheme_len_http [of "(c # h) @ CHR ''/'' # f"] by simp
  have "dirname ((''http://'' @ (c # h)) @ CHR ''/'' # f) =
      Some (if ''http://'' @ (c # h) = [] then ''/'' else ''http://'' @ (c # h))"
  proof (rule dirname_slash)
    show "f \<noteq> []" "CHR ''/'' \<notin> set (butlast f)"
      using assms(3) by (auto simp: ordinary_def dest: in_set_butlastD)
    show "length ((''http://'' @ c # h) @ CHR ''/'' # f) < obj_limit" using assms(5) by simp
  qed (use sch in simp)
  then show "dirname (''http://'' @ (c # h) @ CHR ''/'' # f) = Some (''http://'' @ (c # h))" by simp
  let ?b = "''http://'' @ (c # h)" and ?p = "''./'' @ g"
  have sb: "scheme_len ?b = 7" using scheme_len_http [of "c # h"] by simp
  have "scan_to (\<lambda>c. c = CHR ''/'') ?b 7 7 = 7"
    using assms(1) by (intro scan_to_default) (auto simp: ordinary_def)
  then have st: "norm_start ?b = 7" by (simp only: norm_start_def sb)
  have j: "joined ?p ?b = h @ CHR ''/'' # ?p" unfolding joined_def st by simp
  have pj: "pieces (joined ?p ?b) = [h, ''.'', g]"
    unfolding j using assms(2,4)
      pieces_append [of h ?p] pieces_append [of "''.''" g] pieces_one [of g]
    by (simp add: ordinary_def)
  have "normalized ?p ?b = Some (take (norm_start ?b) ?b @ render (resolve (pieces (joined ?p ?b))))"
  proof (rule normalize_resolves)
    show "\<not> is_absolute_path ?p" by (simp add: is_absolute_iff is_http_prefix)
    show "norm_start ?b < length ?b" unfolding st by simp
    show "length ?p + length ?b + 2 < obj_limit" using assms(5) by simp
    show "no_nul ?p" "no_nul ?b" using assms(1,4) by (auto simp: ordinary_def)
    show "dotdot_ok False (pieces (joined ?p ?b))"
      unfolding pj using assms(2,4) by (auto simp: ordinary_def)
  qed
  then show "normalized ?p ?b = Some (''http:///'' @ h @ CHR ''/'' # g)"
    unfolding st pj using assms(2,4) by (simp add: resolve_def ordinary_def)
qed

lemma import_at_origin_root_witness:
  "dirname ''http://cdn/m.js'' = Some ''http://cdn'' \<and>
   normalized ''./u.js'' ''http://cdn'' = Some ''http:///dn/u.js''"
  using import_at_origin_root [of "CHR ''c''" "''dn''" "''m.js''" "''u.js''"]
  by (simp add: ordinary_def obj_limit_def)

text \<open>Two \<open>..\<close> in a row: the length subtracted for the second one is that of the first \<open>..\<close>, not
  of the directory it removes, so the result is cut (here by one byte).\<close>

lemma normalize_path_dotdot_twice:
  "normalized ''../../c.js'' ''/a/b'' = Some ''/c.j'' \<and>
   render (resolve (pieces (joined ''../../c.js'' ''/a/b''))) = ''/c.js''"
proof
  show "normalized ''../../c.js'' ''/a/b'' = Some ''/c.j''" by code_simp
  have "norm_start ''/a/b'' = 0" by code_simp
  then show "render (resolve (pieces (joined ''../../c.js'' ''/a/b''))) = ''/c.js''"
    by (simp add: joined_def resolve_def)
qed

text \<open>\<open>dirname\<close> of a URL with nothing but a host is not the host: the scan ends one byte before
  the host, which the test for \<open>start\<close> does not recognise.\<close>

lemma dirname_bare_host:
  assumes "CHR ''/'' \<notin> set h" "length h + 8 < obj_limit"
  shows "dirname (''http://'' @ h) = Some ''http:/'' \<and> dirname (''https://'' @ h) = Some ''https:/''"
  using assms dirname_no_slash [of "''http://'' @ h"] dirname_no_slash [of "''https://'' @ h"]
    scheme_len_http [of h] scheme_len_https [of h]
  by (auto dest: in_set_butlastD)

lemma dirname_bare_host_witness: "dirname ''http://cdn'' = Some ''http:/''"
  using dirname_bare_host [of "''cdn''"] by (simp add: obj_limit_def)

end
