(* ===== verification/UtilNet.thy ===== *)
theory UtilNet
  imports UtilPath
begin

text \<open>
  The two functions of \<open>src/util/util.c\<close> that talk to the outside: \<open>read_file\<close> and \<open>http_get\<close>.

  A file is its bytes, the read position, the length that \<open>ftell\<close> reports at its end, and possibly the
  offset of a device error. A connection is the list of segments that arrive; when the list is
  used up the peer has closed. Name resolution is a parameter. As before \<^term>\<open>None\<close> is undefined
  behaviour, here including a read of an indeterminate byte.
\<close>

section \<open>read_file\<close>

record cfile =
  cf_data :: string
  cf_pos :: nat
  cf_tell :: int
  cf_err :: "nat option"

text \<open>\<open>fread(p, 1, n, fp)\<close>: as many bytes as are there, fewer only at the end of the file or at an error;
  the flag is what \<open>ferror\<close> says afterwards.\<close>

definition fread :: "nat \<Rightarrow> cfile \<Rightarrow> string \<times> bool \<times> cfile" where
  "fread n f =
     (let avail = (case cf_err f of None \<Rightarrow> length (cf_data f) | Some e \<Rightarrow> min e (length (cf_data f)));
          got = take (min n (avail - cf_pos f)) (drop (cf_pos f) (cf_data f))
      in (got, (case cf_err f of None \<Rightarrow> False | Some e \<Rightarrow> e \<le> length (cf_data f) \<and> e < cf_pos f + n),
          f\<lparr>cf_pos := cf_pos f + length got\<rparr>))"

datatype 'a call = Running | Null | Value 'a

text \<open>The loop, for at most \<open>fuel\<close> iterations; \<^term>\<open>Running\<close> when it has not ended by then.\<close>

fun read_loop :: "nat \<Rightarrow> cfile \<Rightarrow> nat \<Rightarrow> nat \<Rightarrow> buf \<Rightarrow> buf call option" where
  "read_loop 0 f sz i str = Some (if i < sz then Running else Value str)"
| "read_loop (Suc fuel) f sz i str =
     (if i < sz then
        (let (got, err, f') = fread (sz - i) f in do {
           str' \<leftarrow> memcpy str i (map Some got) 0 (length got);
           if err then Some Null else read_loop fuel f' sz (i + length got) str'
         })
      else Some (Value str))"

text \<open>\<^term>\<open>None\<close> as the file: \<open>fopen\<close> failed.\<close>

definition read_file :: "nat \<Rightarrow> cfile option \<Rightarrow> buf call option" where
  "read_file fuel fp =
     (case fp of
        None \<Rightarrow> Some Null
      | Some f \<Rightarrow> do {
          let sz = nat (cf_tell f mod 2 ^ 64);
          str0 \<leftarrow> malloc (sz_add sz 1);
          str \<leftarrow> wr str0 sz (Some NUL);
          read_loop fuel (f\<lparr>cf_pos := 0\<rparr>) sz 0 str
        })"

section \<open>http_get: the request\<close>

text \<open>The format string, with its two arguments filled in.\<close>

definition http_get_header :: "string \<Rightarrow> string \<Rightarrow> string" where
  "http_get_header suffix host =
     ''GET '' @ suffix @ '' HTTP/1.1'' @ [CR, LF] @ ''Host: '' @ host @ [CR, LF] @
     ''Accept: */*'' @ [CR, LF] @ ''Cache-Control: no-cache'' @ [CR, LF] @ ''Pragma: no-cache'' @ [CR, LF] @
     ''Connection: close'' @ [CR, LF] @
     ''User-Agent: Mozilla/5.0 (Windows NT 10.0; Win64; x64) AppleWebKit/537.36 (KHTML, like Gecko) Chrome/99.0.4844.82 Safari/537.36'' @
     [CR, LF] @ [CR, LF]"

text \<open>Decimal digits at the front of a string, as \<open>atoi\<close> and \<open>atol\<close> read them, up to the limit of the
  type (beyond it they are undefined).\<close>

fun digits_value :: "int \<Rightarrow> int \<Rightarrow> string \<Rightarrow> int option" where
  "digits_value mx acc [] = Some acc"
| "digits_value mx acc (c # cs) =
     (if 48 \<le> schar c \<and> schar c \<le> 57 then
        (let n = 10 * acc + (schar c - 48) in if n \<le> mx then digits_value mx n cs else None)
      else Some acc)"

fun c_number :: "int \<Rightarrow> string \<Rightarrow> int option" where
  "c_number mx [] = Some 0"
| "c_number mx (c # cs) =
     (if c = SP \<or> 9 \<le> schar c \<and> schar c \<le> 13 then c_number mx cs
      else if c = CHR ''-'' then map_option uminus (digits_value (mx + 1) 0 cs)
      else if c = CHR ''+'' then digits_value mx 0 cs
      else digits_value mx 0 (c # cs))"

definition atoi :: "string \<Rightarrow> int option" where "atoi s = c_number int_max s"

definition long_max :: int where "long_max = 2 ^ 63 - 1"

definition atol :: "string \<Rightarrow> int option" where "atol s = c_number long_max s"

text \<open>Host (with its port), port number, and the text to send.\<close>

record http_target =
  ht_host :: string
  ht_port :: int
  ht_header :: string

definition http_get_target :: "string \<Rightarrow> http_target option option" where
  "http_get_target url =
     (if scheme_len url = 0 then Some None
      else do {
        let start = scheme_len url;
        let end = scan_to (\<lambda>c. c = CHR ''/'') url start (length url);
        let suffix = drop end url;
        let host = take (end - start) (drop start url);
        let header = http_get_header suffix host;
        let i = scan_to (\<lambda>c. c = CHR '':'') host 0 (length host);
        port \<leftarrow> (if i < length host then atoi (drop (i + 1) host) else Some (if start = 8 then 443 else 80));
        Some (Some \<lparr>ht_host = host, ht_port = port, ht_header = header\<rparr>)
      })"

section \<open>http_get: the response\<close>

text \<open>\<open>recv\<close> with room for \<open>n\<close> bytes: nothing when the peer has closed.\<close>

fun recv :: "nat \<Rightarrow> string list \<Rightarrow> string \<times> string list" where
  "recv n [] = ([], [])"
| "recv n (s # net) = (take n s, if length s \<le> n then net else drop n s # net)"

text \<open>\<open>strstr\<close> over memory: it reads on until the first match or a NUL.\<close>

fun mem_prefix :: "buf \<Rightarrow> string \<Rightarrow> bool option" where
  "mem_prefix b [] = Some True"
| "mem_prefix [] (x # xs) = None"
| "mem_prefix (None # b) (x # xs) = None"
| "mem_prefix (Some c # b) (x # xs) = (if c = x then mem_prefix b xs else Some False)"

fun mem_strstr :: "buf \<Rightarrow> string \<Rightarrow> nat option option" where
  "mem_strstr [] n = None"
| "mem_strstr (x # b) n = do {
     m \<leftarrow> mem_prefix (x # b) n;
     if m then Some (Some 0)
     else do {
       c \<leftarrow> x;
       if c = NUL then Some None else map_option (map_option Suc) (mem_strstr b n)
     }
   }"

text \<open>Storing received bytes; past the end of the buffer it is undefined.\<close>

definition recv_into :: "buf \<Rightarrow> nat \<Rightarrow> nat \<Rightarrow> string list \<Rightarrow> (buf \<times> nat \<times> string list) option" where
  "recv_into b off n net =
     (let (got, net') = recv n net in do {
        b' \<leftarrow> memcpy b off (map Some got) 0 (length got);
        Some (b', length got, net')
      })"

definition realloc :: "buf \<Rightarrow> nat \<Rightarrow> buf" where
  "realloc b n = take n b @ replicate (n - length b) None"

text \<open>The loop that puts a NUL over the CR behind the \<open>Content-Length\<close> value.\<close>

function cut_line :: "buf \<Rightarrow> nat \<Rightarrow> nat \<Rightarrow> buf option" where
  "cut_line b i n =
     (if i < n then do {
        c \<leftarrow> rdb b i;
        if c = CR then do {
          d \<leftarrow> rdb b (i + 1);
          if d = LF then wr b i (Some NUL) else cut_line b (i + 1) n
        }
        else cut_line b (i + 1) n
      }
      else Some b)"
  by pat_completeness auto
termination by (relation "measure (\<lambda>(b, i, n). n - i)") auto

declare cut_line.simps [simp del]

text \<open>The loop that receives the rest of the body; a request for 0 bytes or a closed connection ends it.\<close>

function recv_body :: "buf \<Rightarrow> nat \<Rightarrow> nat \<Rightarrow> string list \<Rightarrow> buf option" where
  "recv_body result idx content_len net =
     (case recv_into result idx (sz_sub content_len idx) net of
        None \<Rightarrow> None
      | Some (result', ret, net') \<Rightarrow>
          if ret = 0 then Some result' else recv_body result' (idx + ret) content_len net')"
  by pat_completeness auto
termination
proof (relation "measure (\<lambda>(result, idx, content_len, net). length (concat net))")
  fix result :: buf and idx content_len :: nat and net :: "string list" and x y result' z ret net'
  assume "recv_into result idx (sz_sub content_len idx) net = Some x" "(result', z) = x" "(ret, net') = z" "ret \<noteq> 0"
  then show "((result', idx + ret, content_len, net'), result, idx, content_len, net)
      \<in> measure (\<lambda>(result, idx, content_len, net). length (concat net))"
    by (cases net) (auto simp: recv_into_def Let_def split: Option.bind_splits if_splits)
qed simp

declare recv_body.simps [simp del]

text \<open>Once the empty line is found, ending at \<open>end\<close>: the body, if the length is announced. (Without
  \<open>Content-Length\<close> the result is NULL.)\<close>

definition get_body :: "buf \<Rightarrow> nat \<Rightarrow> nat \<Rightarrow> nat \<Rightarrow> string list \<Rightarrow> buf option option" where
  "get_body b buf_size len end net = do {
     p \<leftarrow> mem_strstr b ''Content-Length: '';
     (case p of
        None \<Rightarrow> Some None
      | Some q \<Rightarrow> do {
          let start = q + 16;
          b' \<leftarrow> cut_line b start (buf_size - 1);
          str \<leftarrow> str_at b' start;
          content_len \<leftarrow> atol str;
          let n = nat (content_len mod 2 ^ 64);
          result \<leftarrow> malloc (sz_add n 1);
          result1 \<leftarrow> (if len > end then memcpy result 0 b' end (len - end) else Some result);
          result2 \<leftarrow> recv_body result1 (if len > end then len - end else 0) n net;
          result3 \<leftarrow> wr result2 n (Some NUL);
          Some (Some result3)
        })
   }"

text \<open>The outer loop.\<close>

function recv_head :: "buf \<Rightarrow> nat \<Rightarrow> nat \<Rightarrow> string list \<Rightarrow> buf option option" where
  "recv_head b buf_size len net =
     (case recv_into b len 1024 net of
        None \<Rightarrow> None
      | Some (b1, ret, net') \<Rightarrow>
          (case wr b1 buf_size (Some NUL) of
             None \<Rightarrow> None
           | Some b2 \<Rightarrow>
               (case mem_strstr b2 [CR, LF, CR, LF] of
                  None \<Rightarrow> None
                | Some None \<Rightarrow>
                    if ret = 0 then Some None
                    else recv_head (realloc b2 (buf_size + 1024)) (buf_size + 1024) (len + ret) net'
                | Some (Some p) \<Rightarrow> get_body b2 buf_size (len + ret) (p + 4) net')))"
  by pat_completeness auto
termination
proof (relation "measure (\<lambda>(b, buf_size, len, net). length (concat net))")
  fix b :: buf and buf_size len :: nat and net :: "string list" and x b1 z ret net' b2 y
  assume "recv_into b len 1024 net = Some x" "(b1, z) = x" "(ret, net') = z" "ret \<noteq> 0"
  then show "((realloc b2 (buf_size + 1024), buf_size + 1024, len + ret, net'), b, buf_size, len, net)
      \<in> measure (\<lambda>(b, buf_size, len, net). length (concat net))"
    by (cases net) (auto simp: recv_into_def Let_def split: Option.bind_splits if_splits)
qed simp

declare recv_head.simps [simp del]

definition http_get_response :: "string list \<Rightarrow> buf option option" where
  "http_get_response net = do { b \<leftarrow> malloc (1024 + 1); recv_head b 1024 0 net }"

text \<open>The whole function: text sent, and the result (\<^term>\<open>None\<close> inside for NULL). The result of
  \<open>gethostbyname\<close> is storage of the C library; freeing it is undefined. Failures of \<open>connect\<close> and
  \<open>send\<close> are not looked at; they show as a connection that delivers nothing.\<close>

definition http_get :: "(string \<Rightarrow> bool) \<Rightarrow> (string \<Rightarrow> int \<Rightarrow> string \<Rightarrow> string list) \<Rightarrow> string \<Rightarrow> buf option option" where
  "http_get resolves peer url = do {
     t \<leftarrow> http_get_target url;
     (case t of
        None \<Rightarrow> Some None
      | Some target \<Rightarrow>
          if resolves (ht_host target) then None
          else
            let (host, _, _) = str_split (ht_host target) (CHR '':'') in
            http_get_response (peer (takeWhile (\<lambda>c. c \<noteq> NUL) host) (ht_port target) (ht_header target)))
   }"

section \<open>read_file\<close>

lemma read_loop_done [simp]: "\<not> i < n \<Longrightarrow> read_loop fuel f n i str = Some (Value str)"
  by (cases fuel) auto

lemma fread_all:
  "cf_err f = None \<Longrightarrow> cf_pos f = 0 \<Longrightarrow> length (cf_data f) \<le> n \<Longrightarrow>
   fread n f = (cf_data f, False, f\<lparr>cf_pos := length (cf_data f)\<rparr>)"
  by (simp add: fread_def)

lemma fread_at_end:
  "cf_err f = None \<Longrightarrow> cf_pos f = length (cf_data f) \<Longrightarrow> fread n f = ([], False, f)"
  by (simp add: fread_def)

lemma replicate_set_end: "(replicate (Suc n) (None :: char option))[n := x] = replicate n None @ [x]"
  by (simp add: replicate_append_same[symmetric] list_update_append del: replicate_append_same)

lemma read_file_start:
  assumes "cf_tell f = int n" "Suc n < obj_limit"
  shows "read_file fuel (Some f) = read_loop fuel (f\<lparr>cf_pos := 0\<rparr>) n 0 (replicate n None @ [Some NUL])"
proof -
  have "nat (int n mod 2 ^ 64) = n" "sz_add n 1 = Suc n" using assms(2) by (simp_all add: obj_limit_def)
  then show ?thesis using assms
    by (simp only: read_file_def option.case Let_def malloc_small bind.bind_lunit wr_in length_replicate lessI
        replicate_set_end)
qed

text \<open>\<open>read_file\<close> on a file that \<open>ftell\<close> measures right and that reads without error returns
  exactly its contents, with a terminator, after one pass of the loop.\<close>

lemma read_file_contents:
  assumes "cf_err f = None" "cf_tell f = int (length (cf_data f))" "Suc (length (cf_data f)) < obj_limit"
  shows "read_file (Suc fuel) (Some f) = Some (Value (map Some (cf_data f) @ [Some NUL]))"
proof (cases "cf_data f = []")
  case True
  then show ?thesis using assms(2,3) read_file_start [of f 0] by simp
next
  case False
  show ?thesis using assms False
    by (simp add: read_file_start fread_all memcpy_def)
qed

lemma read_file_contents_witness:
  "read_file 1 (Some \<lparr>cf_data = ''hello'', cf_pos = 0, cf_tell = 5, cf_err = None\<rparr>) =
   Some (Value (map Some ''hello'' @ [Some NUL]))"
  using read_file_contents [of "\<lparr>cf_data = ''hello'', cf_pos = 0, cf_tell = 5, cf_err = None\<rparr>" 0]
  by (simp add: obj_limit_def)

lemma read_loop_starved:
  "cf_err f = None \<Longrightarrow> cf_pos f = length (cf_data f) \<Longrightarrow> i < n \<Longrightarrow> n \<le> length str \<Longrightarrow>
   read_loop fuel f n i str = Some Running"
proof (induction fuel)
  case (Suc fuel)
  then show ?case by (simp add: fread_at_end memcpy_def)
qed simp

text \<open>If the file has become shorter than \<open>ftell\<close> said when its contents are read, \<open>read_file\<close>
  never returns: \<open>fread\<close> delivers nothing any more, and the loop only looks at \<open>ferror\<close>, not at the end
  of the file.\<close>

lemma read_file_short_runs_forever:
  assumes "cf_err f = None" "int (length (cf_data f)) < cf_tell f" "cf_tell f + 1 < int obj_limit"
  shows "read_file fuel (Some f) = Some Running"
proof -
  obtain n where n: "cf_tell f = int n" using assms(2) by (metis nonneg_int_cases of_nat_less_0_iff order.strict_trans not_le_imp_less)
  have l: "length (cf_data f) < n" "Suc n < obj_limit" "n < obj_limit" using assms n by simp_all
  show ?thesis
  proof (cases fuel)
    case 0
    then show ?thesis using n l by (simp add: read_file_start)
  next
    case (Suc k)
    have "read_loop k (f\<lparr>cf_pos := length (cf_data f)\<rparr>) n (length (cf_data f)) str = Some Running" if "n \<le> length str" for str
      by (rule read_loop_starved) (use assms(1) l that in simp_all)
    then show ?thesis using n l assms(1) Suc
      by (simp add: read_file_start fread_all memcpy_def)
  qed
qed

lemma read_file_short_runs_forever_witness:
  "read_file 1000 (Some \<lparr>cf_data = ''hello'', cf_pos = 0, cf_tell = 6, cf_err = None\<rparr>) = Some Running"
  by (rule read_file_short_runs_forever) (simp_all add: obj_limit_def)

lemma read_file_unseekable:
  "cf_tell f = - 1 \<Longrightarrow> read_file fuel (Some f) = None"
proof -
  assume "cf_tell f = - 1"
  then have "nat (cf_tell f mod 2 ^ 64) = 2 ^ 64 - 1" by simp
  then show ?thesis by (simp add: read_file_def Let_def sz_add_def obj_limit_def)
qed

section \<open>http_get\<close>

lemma mem_prefix_decided:
  "length n \<le> length h \<Longrightarrow> mem_prefix (map Some h @ X) n = Some (is_prefix n h)"
proof (induction n h rule: is_prefix.induct)
  case (2 x xs)
  then show ?case by simp
qed simp_all

lemma mem_prefix_unwritten:
  "mem_prefix (map Some h @ None # X) n \<in> {None, Some (is_prefix n h)}"
  by (induction n h rule: is_prefix.induct) auto

lemma mem_strstr_unwritten:
  "strstr h n = None \<Longrightarrow> no_nul h \<Longrightarrow> n \<noteq> [] \<Longrightarrow> mem_strstr (map Some h @ None # X) n = None"
proof (induction h)
  case Nil
  then show ?case by (cases n) auto
next
  case (Cons c h)
  then show ?case using mem_prefix_unwritten [of "c # h" X n] by (auto split: if_splits)
qed

lemma strstr_length: "strstr h n = Some k \<Longrightarrow> k + length n \<le> length h"
proof (induction h arbitrary: k)
  case (Cons c h)
  show ?case
  proof (cases "is_prefix n (c # h)")
    case True
    then obtain t where "c # h = n @ t" by (auto simp: is_prefix_iff)
    then have "length (c # h) = length (n @ t)" by (rule arg_cong)
    then show ?thesis using True Cons.prems by simp
  next
    case False
    then show ?thesis using Cons by auto
  qed
qed (simp split: if_splits)

lemma mem_strstr_found:
  "strstr h n = Some k \<Longrightarrow> n \<noteq> [] \<Longrightarrow> no_nul h \<Longrightarrow> mem_strstr (map Some h @ X) n = Some (Some k)"
proof (induction h arbitrary: k)
  case (Cons c h)
  from strstr_length [OF Cons.prems(1)] have len: "length n \<le> length (c # h)" by simp
  show ?case
    using Cons mem_prefix_decided [OF len, of X] by auto
qed simp

lemma cut_line_at:
  "CR \<notin> set ds \<Longrightarrow> i + length ds < n \<Longrightarrow> drop i b = map Some ds @ Some CR # Some LF # X \<Longrightarrow>
   cut_line b i n = Some (take i b @ map Some ds @ Some NUL # Some LF # X)"
proof (induction ds arbitrary: i)
  case Nil
  have l: "Suc i < length b"
    using arg_cong [OF Nil(3), of length] by simp
  have n: "b ! i = Some CR" "b ! Suc i = Some LF"
    using nth_drop [of i b 0] nth_drop [of i b 1] l Nil(3) by simp_all
  have "b[i := Some NUL] = take i b @ Some NUL # drop (Suc i) b"
    using l by (simp add: upd_conv_take_nth_drop)
  moreover have "drop (Suc i) b = Some LF # X"
    using arg_cong [OF Nil(3), of "drop 1"] by simp
  ultimately show ?case using l n Nil(2)
    by (simp add: cut_line.simps [of b i n] rdb_def)
next
  case (Cons d ds)
  have l: "i < length b"
    using arg_cong [OF Cons(4), of length] by simp
  have n: "b ! i = Some d" using nth_drop [of i b 0] l Cons(4) by simp
  have d: "drop (Suc i) b = map Some ds @ Some CR # Some LF # X"
    using arg_cong [OF Cons(4), of "drop 1"] by simp
  have t: "take (Suc i) b = take i b @ [Some d]" using l n by (simp add: take_Suc_conv_app_nth)
  have "d \<noteq> CR" using Cons.prems(1) by auto
  with Cons.prems Cons.IH [OF _ _ d] l n t show ?case
    by (simp add: cut_line.simps [of b i n] rdb_def)
qed

lemma str_at_front: "no_nul s \<Longrightarrow> str_at (P @ map Some s @ Some NUL # X) (length P) = Some s"
  by (simp add: str_at_def)

lemma recv_segment [simp]: "length s \<le> n \<Longrightarrow> recv n (s # net) = (s, net)"
  by simp

lemma recv_body_exact:
  assumes "[] \<notin> set segs" "n = length got + length (concat segs)" "n < obj_limit"
  shows "recv_body (map Some got @ replicate (Suc (length (concat segs))) None) (length got) n segs
    = Some (map Some (got @ concat segs) @ [None])"
  using assms
proof (induction segs arbitrary: got)
  case Nil
  then show ?case
    by (simp add: recv_body.simps [of _ _ _ "[]"] recv_into_def memcpy_def)
next
  case (Cons s segs)
  let ?m = "length (concat segs)"
  have m: "memcpy (map Some got @ replicate (Suc (length s + ?m)) None) (length got) (map Some s) 0 (length s)
    = Some (map Some (got @ s) @ replicate (Suc ?m) None)"
    by (simp add: memcpy_def del: replicate.simps)
  have r: "recv_into (map Some got @ replicate (Suc (length s + ?m)) None) (length got)
        (sz_sub n (length got)) (s # segs)
      = Some (map Some (got @ s) @ replicate (Suc ?m) None, length s, segs)"
    using Cons.prems m by (simp add: recv_into_def del: replicate.simps)
  have "s \<noteq> []" using Cons.prems(1) by auto
  then show ?case
    using Cons.prems Cons.IH [of "got @ s"] r
    by (simp add: recv_body.simps [of _ _ _ "s # segs"] add.assoc del: replicate.simps)
qed

text \<open>The buffer after the first segment: the header and what came with it are in front of a tail that ends with NUL.\<close>

lemma get_body_whole:
  assumes head: "head = pre @ ''Content-Length: '' @ ds @ [CR, LF] @ post" "no_nul head"
      "strstr head ''Content-Length: '' = Some (length pre)"
      "strstr head [CR, LF, CR, LF] = Some (length head - 4)"
    and ds: "CR \<notin> set ds" "atol ds = Some (int (length (got @ concat segs)))"
    and segs: "length (head @ got) \<le> 1024" "[] \<notin> set segs" "Suc (length (got @ concat segs)) < obj_limit"
    and b_def: "b = map Some (head @ got) @ pad" and pad: "length pad = 1025 - length (head @ got)"
  shows "mem_strstr b [CR, LF, CR, LF] = Some (Some (length head - 4))" "length head - 4 + 4 = length head"
    "get_body b 1024 (length (head @ got)) (length head) segs = Some (Some (map Some (got @ concat segs) @ [Some NUL]))"
proof -
  let ?seg = "head @ got" and ?n = "length (got @ concat segs)"
  have post: "CR \<notin> set ds" "no_nul ds" "4 \<le> length head" "length pre + 16 + length ds < 1023"
    and hl: "length head - 4 + 4 = length head"
    using head(1,2) ds(1) segs(1) strstr_length [OF head(4)] by simp_all
  have 3: "mem_strstr b [CR, LF, CR, LF] = Some (Some (length head - 4))"
    "mem_strstr b ''Content-Length: '' = Some (Some (length pre))"
    unfolding b_def map_append append_assoc using head(2-4) by (intro mem_strstr_found; simp)+
  define P where "P = map Some (pre @ ''Content-Length: '')"
  define Q where "Q = map Some (post @ got) @ pad"
  have b: "b = P @ map Some ds @ Some CR # Some LF # Q" and lP: "length P = length pre + 16"
    by (simp_all add: b_def head(1) P_def Q_def)
  define b' where "b' = P @ map Some ds @ Some NUL # Some LF # Q"
  have 4: "cut_line b (length pre + 16) (1024 - 1) = Some b'"
    using cut_line_at [of ds "length pre + 16" 1023 b Q] post lP by (simp add: b b'_def)
  have 5: "str_at b' (length pre + 16) = Some ds"
    using str_at_front [OF post(2), of P] lP by (simp add: b'_def)
  define H where "H = P @ map Some ds @ Some NUL # Some LF # map Some post"
  have "b' = H @ map Some got @ pad" "length head = length H"
    by (simp_all add: b'_def Q_def H_def P_def head(1))
  then have b'_got: "take (length got) (drop (length head) b') = map Some got" by simp
  have lb': "length b' = 1025" using segs(1) by (simp add: b'_def P_def Q_def pad head(1))
  have n: "nat (int ?n mod 2 ^ 64) = ?n" "sz_add ?n 1 = Suc ?n" using segs(3) by (simp_all add: obj_limit_def)
  have 6: "(if length ?seg > length head then memcpy (replicate (Suc ?n) None) 0 b' (length head) (length ?seg - length head)
      else Some (replicate (Suc ?n) None))
    = Some (map Some got @ replicate (Suc (length (concat segs))) None)"
    using segs(1) lb' b'_got
    by (auto simp: memcpy_def drop_Cons' replicate_append_same [symmetric] simp del: replicate_append_same replicate.simps)
  have 7: "(if length ?seg > length head then length ?seg - length head else 0) = length got" by simp
  have 8: "wr (map Some (got @ concat segs) @ [None]) ?n (Some NUL) = Some (map Some (got @ concat segs) @ [Some NUL])"
    by (simp add: wr_def list_update_append del: map_append)
  have 9: "recv_body (map Some got @ replicate (Suc (length (concat segs))) None) (length got) ?n segs
      = Some (map Some (got @ concat segs) @ [None])"
    by (rule recv_body_exact) (use segs in simp_all)
  show "mem_strstr b [CR, LF, CR, LF] = Some (Some (length head - 4))" by (rule 3)
  show "length head - 4 + 4 = length head" by (rule hl)
  show "get_body b 1024 (length ?seg) (length head) segs = Some (Some (map Some (got @ concat segs) @ [Some NUL]))"
    unfolding get_body_def 3 Let_def bind.bind_lunit option.case 4 5 ds(2) n malloc_small [OF segs(3)] 6 7 8 9 ..
qed

text \<open>C22. Reading the response, which is what \<open>http_get\<close> does once it has sent its request: a response whose header (up
  to its empty line) comes whole in the first segment, of at most 1024 bytes, with a \<open>Content-Length\<close> line that
  states the length of the body, is turned into the body with a terminator, however the rest of the body is cut
  into segments.\<close>

theorem http_get_body:
  assumes head: "head = pre @ ''Content-Length: '' @ ds @ [CR, LF] @ post" "no_nul head"
      "strstr head ''Content-Length: '' = Some (length pre)"
      "strstr head [CR, LF, CR, LF] = Some (length head - 4)"
    and ds: "CR \<notin> set ds" "atol ds = Some (int (length (got @ concat segs)))"
    and segs: "length (head @ got) \<le> 1024" "[] \<notin> set segs" "Suc (length (got @ concat segs)) < obj_limit"
  shows "http_get_response ((head @ got) # segs) = Some (Some (map Some (got @ concat segs) @ [Some NUL]))"
proof -
  let ?seg = "head @ got" and ?n = "length (got @ concat segs)"
  define pad :: buf where "pad = replicate (1024 - length ?seg) None @ [Some NUL]"
  define b where "b = map Some ?seg @ pad"
  have "(replicate 1025 None :: buf) = replicate (length ?seg) None @ replicate (Suc (1024 - length ?seg)) None"
    using segs(1) by (simp add: replicate_add [symmetric] del: replicate.simps)
  then have 1: "recv_into (replicate 1025 None) 0 1024 (?seg # segs)
      = Some (map Some ?seg @ replicate (Suc (1024 - length ?seg)) None, length ?seg, segs)"
    using segs(1) by (simp add: recv_into_def memcpy_def del: replicate.simps)
  have 2: "wr (map Some ?seg @ replicate (Suc (1024 - length ?seg)) None) 1024 (Some NUL) = Some b"
    using segs(1) by (simp add: wr_def b_def pad_def list_update_append replicate_append_same [symmetric]
        del: replicate_append_same map_append)
  have "length pad = 1025 - length ?seg" using segs(1) by (simp add: pad_def)
  note g = get_body_whole [OF head ds segs b_def this]
  have "recv_head (replicate 1025 None) 1024 0 (?seg # segs) = Some (Some (map Some (got @ concat segs) @ [Some NUL]))"
    by (simp only: recv_head.simps [of _ _ 0] 1 2 g option.case prod.case add_0)
  then show ?thesis by (simp add: http_get_response_def obj_limit_def del: replicate.simps)
qed

text \<open>A response, its second half in a segment of its own.\<close>

lemma http_get_body_witness:
  "http_get_response [''HTTP/1.1 200 OK'' @ [CR, LF] @ ''Content-Length: 5'' @ [CR, LF, CR, LF] @ ''he'', ''llo'']
   = Some (Some (map Some ''hello'' @ [Some NUL]))"
proof -
  have h: "strstr (''HTTP/1.1 200 OK'' @ [CR, LF] @ ''Content-Length: '' @ ''5'' @ [CR, LF] @ [CR, LF]) ''Content-Length: '' = Some 17"
    "strstr (''HTTP/1.1 200 OK'' @ [CR, LF] @ ''Content-Length: '' @ ''5'' @ [CR, LF] @ [CR, LF]) [CR, LF, CR, LF] = Some 34"
    "atol ''5'' = Some 5"
    by code_simp+
  show ?thesis
    using http_get_body [of "''HTTP/1.1 200 OK'' @ [CR, LF] @ ''Content-Length: '' @ ''5'' @ [CR, LF] @ [CR, LF]"
        "''HTTP/1.1 200 OK'' @ [CR, LF]" "''5''" "[CR, LF]" "''he''" "[''llo'']"] h
    by (simp add: obj_limit_def)
qed

text \<open>The whole function comes to read a response only for a host that \<open>gethostbyname\<close> does not resolve.\<close>

lemma http_get_unresolved:
  assumes "http_get_target url = Some (Some t)" "\<not> resolves (ht_host t)"
  shows "http_get resolves peer url =
    http_get_response (peer (takeWhile (\<lambda>c. c \<noteq> NUL) (fst (str_split (ht_host t) (CHR '':'')))) (ht_port t) (ht_header t))"
  by (simp add: http_get_def assms Let_def split_beta)

text \<open>A header that does not come whole with the first segment is not waited for: \<open>strstr\<close> runs on
  into the bytes of the buffer that were never written.\<close>

lemma http_get_partial_head:
  assumes "http_get_target url = Some (Some t)" "\<not> resolves (ht_host t)"
    and "peer (takeWhile (\<lambda>c. c \<noteq> NUL) (fst (str_split (ht_host t) (CHR '':'')))) (ht_port t) (ht_header t) = s # segs"
    and "length s < 1024" "no_nul s" "strstr s [CR, LF, CR, LF] = None"
  shows "http_get resolves peer url = None"
proof -
  have "(replicate 1025 None :: buf) = replicate (length s) None @ replicate (1025 - length s) None"
    using assms(4) by (simp add: replicate_add [symmetric] del: replicate.simps)
  then have 1: "recv_into (replicate 1025 None) 0 1024 (s # segs)
      = Some (map Some s @ replicate (1025 - length s) None, length s, segs)"
    using assms(4) by (simp add: recv_into_def memcpy_def del: replicate.simps)
  define m where "m = 1023 - length s"
  have m: "1025 - length s = Suc (Suc m)" "1024 = length s + Suc m" using assms(4) by (simp_all add: m_def)
  have 2: "wr (map Some s @ replicate (1025 - length s) None) 1024 (Some NUL)
      = Some (map Some s @ None # replicate m None @ [Some NUL])"
    unfolding m wr_def by (simp add: list_update_append replicate_append_same [symmetric] del: replicate_append_same)
  have "recv_head (replicate 1025 None) 1024 0 (s # segs) = None"
    using mem_strstr_unwritten [OF assms(6,5) list.distinct(2)] by (simp only: recv_head.simps [of _ _ 0] 1 2 option.case prod.case)
  then have "http_get_response (s # segs) = None"
    by (simp add: http_get_response_def obj_limit_def del: replicate.simps)
  then show ?thesis
    using assms(3) by (simp add: http_get_def assms(1,2) Let_def split_beta)
qed

lemma http_get_partial_head_witness:
  "http_get (\<lambda>h. False) (\<lambda>host port request. [''HTTP/1.1 200 OK'' @ [CR, LF], [CR, LF]]) ''http://10.0.0.1/a.js'' = None"
proof -
  have u: "http_get_target ''http://10.0.0.1/a.js'' = Some (Some \<lparr>ht_host = ''10.0.0.1'', ht_port = 80,
     ht_header = http_get_header ''/a.js'' ''10.0.0.1''\<rparr>)"
    by code_simp
  show ?thesis
    by (rule http_get_partial_head [OF u, where s = "''HTTP/1.1 200 OK'' @ [CR, LF]" and segs = "[[CR, LF]]"]) simp_all
qed

text \<open>A host that resolves, as names that exist and addresses in dotted form do, makes \<open>http_get\<close> free storage that is not
  its own: the function can only return for hosts that do not exist.\<close>

lemma http_get_resolved_host:
  "http_get_target url = Some (Some t) \<Longrightarrow> resolves (ht_host t) \<Longrightarrow> http_get resolves peer url = None"
  by (simp add: http_get_def)

end
