(* ===== verification/HttpParser.thy ===== *)
theory HttpParser
  imports Prelude
begin

text \<open>
  The request parser of \<open>src/http/http_parser.c\<close>: \<open>http_parse_request_line\<close>, \<open>http_parse_header\<close>,
  \<open>str_parse_hex\<close> and \<open>http_decode_chunked\<close>.

  \<open>mem\<close> is the object that the argument \<open>data\<close> points into, from \<open>data\<close> on; its first \<open>data_len\<close>
  bytes are the input (\<open>end\<close> is \<open>data_len\<close>), and it may have more. Pointers are offsets from
  \<open>data\<close>; reading past \<open>mem\<close> is undefined behaviour, \<^term>\<open>None\<close>.
\<close>

section \<open>Characters of a token\<close>

definition token_char_map :: "nat list" where
  "token_char_map =
     [0,0,0,0,0,0,0,0,0,0,0,0,0,0,0,0,0,0,0,0,0,0,0,0,0,0,0,0,0,0,0,0] @
     [0,1,0,1,1,1,1,1,0,0,1,1,0,1,1,0,1,1,1,1,1,1,1,1,1,1,0,0,0,0,0,0] @
     [0,1,1,1,1,1,1,1,1,1,1,1,1,1,1,1,1,1,1,1,1,1,1,1,1,1,1,0,0,0,1,1] @
     [1,1,1,1,1,1,1,1,1,1,1,1,1,1,1,1,1,1,1,1,1,1,1,1,1,1,1,0,1,0,1,0] @
     replicate 128 0"

definition token_char :: "char \<Rightarrow> bool" where
  "token_char c \<longleftrightarrow> token_char_map ! uchar c \<noteq> 0"

section \<open>Request line\<close>

text \<open>Offsets of method and path in the input, and the minor version.\<close>

record req_line =
  rl_method :: nat
  rl_method_len :: nat
  rl_path :: nat
  rl_path_len :: nat
  rl_minor :: int

text \<open>The first loop collects at most two spaces in \<open>pos\<close> and stops on the second.\<close>

function rl_spaces :: "string \<Rightarrow> nat \<Rightarrow> nat \<Rightarrow> nat list \<Rightarrow> (nat \<times> nat list) option" where
  "rl_spaces mem end p pos =
     (if p = end then Some (p, pos)
      else case rd mem p of
        None \<Rightarrow> None
      | Some c \<Rightarrow>
          if c = SP then
            (if length (pos @ [p]) = 2 then Some (p, pos @ [p])
             else rl_spaces mem end (Suc p) (pos @ [p]))
          else rl_spaces mem end (Suc p) pos)"
  by pat_completeness auto
termination
  by (relation "measure (\<lambda>(mem, end, p, pos). length mem - p)") (auto simp: rd_Some)

text \<open>The second loop looks for CRLF. After a CR that is the last byte of the input, \<open>++p\<close> makes \<open>p\<close>
  equal to \<open>end\<close> and the loop's own \<open>p++\<close> steps over it.\<close>

function rl_crlf :: "string \<Rightarrow> nat \<Rightarrow> nat \<Rightarrow> nat option option" where
  "rl_crlf mem end p =
     (if p = end then Some None
      else case rd mem p of
        None \<Rightarrow> None
      | Some c \<Rightarrow>
          if c = CR then
            (if Suc p \<noteq> end then
               (case rd mem (Suc p) of
                  None \<Rightarrow> None
                | Some d \<Rightarrow> if d = LF then Some (Some (Suc p)) else rl_crlf mem end (Suc (Suc p)))
             else rl_crlf mem end (Suc (Suc p)))
          else rl_crlf mem end (Suc p))"
  by pat_completeness auto
termination
  by (relation "measure (\<lambda>(mem, end, p). length mem - p)") (auto simp: rd_Some)

text \<open>A chain of tests \<open>*++p != c\<close>, from offset \<open>p\<close>.\<close>

fun expect :: "string \<Rightarrow> nat \<Rightarrow> string \<Rightarrow> bool option" where
  "expect mem p [] = Some True"
| "expect mem p (c # cs) = do { x \<leftarrow> rd mem p; if x \<noteq> c then Some False else expect mem (Suc p) cs }"

text \<open>The return value, and the outputs where the code sets them.\<close>

definition http_parse_request_line :: "string \<Rightarrow> nat \<Rightarrow> (int \<times> req_line option) option" where
  "http_parse_request_line mem data_len = do {
     (p, pos) \<leftarrow> rl_spaces mem data_len 0 [];
     crlf \<leftarrow> rl_crlf mem data_len p;
     (case (pos, crlf) of
        ([pos0, pos1], Some pos2) \<Rightarrow>
          if int pos2 - int pos1 \<noteq> 10 then Some (-1, None)
          else do {
            ok \<leftarrow> expect mem (pos1 + 1) ''HTTP/1.'';
            if \<not> ok then Some (-1, None)
            else do {
              v \<leftarrow> rd mem (pos1 + 8);
              Some (c_int (int pos2 + 1),
                Some \<lparr>rl_method = 0, rl_method_len = pos0, rl_path = pos0 + 1,
                      rl_path_len = pos1 - (pos0 + 1), rl_minor = schar v - 48\<rparr>)
            }
          }
      | _ \<Rightarrow> Some (-2, None))
   }"

section \<open>Header fields\<close>

record http_header =
  h_name :: nat
  h_name_len :: nat
  h_value :: nat
  h_value_len :: nat

text \<open>The search for the colon. It tests every byte for being a token character, and has no bound:
  it goes on past the end of the line and of the input until it meets a colon.\<close>

function hp_colon :: "string \<Rightarrow> nat \<Rightarrow> bool \<Rightarrow> (nat \<times> bool) option" where
  "hp_colon mem t is_token =
     (case rd mem t of
        None \<Rightarrow> None
      | Some c \<Rightarrow>
          if token_char c then hp_colon mem (Suc t) is_token
          else if c = CHR '':'' then Some (t, is_token)
          else hp_colon mem (Suc t) False)"
  by pat_completeness auto
termination
  by (relation "measure (\<lambda>(mem, t, is_token). length mem - t)") (auto simp: rd_Some)

text \<open>The search for CRLF, from the colon, again without a bound.\<close>

function hp_eol :: "string \<Rightarrow> nat \<Rightarrow> nat \<Rightarrow> nat option" where
  "hp_eol mem end t =
     (case rd mem t of
        None \<Rightarrow> None
      | Some c \<Rightarrow>
          if c = CR then
            (if Suc t \<noteq> end then
               (case rd mem (Suc t) of
                  None \<Rightarrow> None
                | Some d \<Rightarrow> if d = LF then Some (Suc t) else hp_eol mem end (Suc (Suc t)))
             else hp_eol mem end (Suc (Suc t)))
          else hp_eol mem end (Suc t))"
  by pat_completeness auto
termination
  by (relation "measure (\<lambda>(mem, end, t). length mem - t)") (auto simp: rd_Some)

definition is_ws :: "char \<Rightarrow> bool" where
  "is_ws c \<longleftrightarrow> c = SP \<or> c = TAB"

function ws_fwd :: "string \<Rightarrow> nat \<Rightarrow> nat option" where
  "ws_fwd mem t =
     (case rd mem t of None \<Rightarrow> None | Some c \<Rightarrow> if is_ws c then ws_fwd mem (Suc t) else Some t)"
  by pat_completeness auto
termination by (relation "measure (\<lambda>(mem, t). length mem - t)") (auto simp: rd_Some)

text \<open>Backwards; below \<open>data\<close> the read is outside the input.\<close>

fun ws_back :: "string \<Rightarrow> nat \<Rightarrow> nat option" where
  "ws_back mem 0 =
     (case rd mem 0 of None \<Rightarrow> None | Some c \<Rightarrow> if is_ws c then None else Some 0)"
| "ws_back mem (Suc t) =
     (case rd mem (Suc t) of None \<Rightarrow> None | Some c \<Rightarrow> if is_ws c then ws_back mem t else Some (Suc t))"

declare rl_spaces.simps [simp del] rl_crlf.simps [simp del] hp_colon.simps [simp del]
  hp_eol.simps [simp del] ws_fwd.simps [simp del] ws_back.simps [simp del]

text \<open>Name from \<open>p1\<close> to the colon \<open>p2\<close>; value without the whitespace around it, up to the CR before
  the LF at \<open>p3\<close>. The length is a \<open>size_t\<close> difference.\<close>

definition mk_header :: "string \<Rightarrow> nat \<Rightarrow> nat \<Rightarrow> nat \<Rightarrow> http_header option" where
  "mk_header mem p1 p2 p3 = do {
     v \<leftarrow> ws_fwd mem (p2 + 1);
     t \<leftarrow> ws_back mem (p3 - 2);
     Some \<lparr>h_name = p1, h_name_len = p2 - p1, h_value = v, h_value_len = sz_sub (t + 1) v\<rparr>
   }"

record hdr_loop =
  hl_p :: nat
  hl_p1 :: nat
  hl_hdrs :: "http_header list"
  hl_read :: int

definition add_value_len :: "nat \<Rightarrow> http_header list \<Rightarrow> http_header list" where
  "add_value_len n hs = butlast hs @ [(last hs)\<lparr>h_value_len := sz_add (h_value_len (last hs)) n\<rparr>]"

text \<open>One pass of the outer loop: \<^term>\<open>True\<close> for its \<open>break\<close> after the empty line. The test \<open>if(p3)\<close>
  always succeeds, since the loop before it ends only by setting \<open>p3\<close>; so \<open>return -1\<close> is dead.\<close>

definition hdr_step :: "string \<Rightarrow> nat \<Rightarrow> int \<Rightarrow> hdr_loop \<Rightarrow> (bool \<times> hdr_loop) option" where
  "hdr_step mem end max_header st = do {
     let p1 = hl_p1 st;
     (p2, is_token) \<leftarrow> hp_colon mem p1 True;
     p3 \<leftarrow> hp_eol mem end p2;
     c1 \<leftarrow> rd mem p1;
     hdrs \<leftarrow>
       (if c1 \<noteq> SP \<and> c1 \<noteq> TAB then
          (if is_token \<and> int (length (hl_hdrs st)) < max_header then do {
             h \<leftarrow> mk_header mem p1 p2 p3;
             Some (hl_hdrs st @ [h])
           }
           else Some (hl_hdrs st))
        else if hl_hdrs st \<noteq> [] then
          (let len = c_int (int p3 - int p1 - 1) in
           Some (if len > 0 then add_value_len (nat len) (hl_hdrs st) else hl_hdrs st))
        else Some (hl_hdrs st));
     let t = p3 + 1;
     let st' = st\<lparr>hl_p := t, hl_hdrs := hdrs, hl_read := c_int (int t)\<rparr>;
     if t \<noteq> end then do {
       c \<leftarrow> rd mem t;
       if c = CR then
         (if t + 1 \<noteq> end then do {
            d \<leftarrow> rd mem (t + 1);
            Some (d = LF, st'\<lparr>hl_p := t + 1, hl_p1 := (if d = LF then p1 else t)\<rparr>)
          }
          else Some (False, st'\<lparr>hl_p := t + 1, hl_p1 := t\<rparr>))
       else Some (False, st'\<lparr>hl_p1 := t\<rparr>)
     }
     else Some (False, st')
   }"

lemma hp_colon_ge: "hp_colon mem t b = Some (p2, tk) \<Longrightarrow> t \<le> p2 \<and> t < length mem"
proof (induction "length mem - t" arbitrary: t b rule: less_induct)
  case less
  have "t < length mem"
    using less.prems [unfolded hp_colon.simps [of mem t b]] by (auto simp: rd_Some split: option.splits)
  then have "length mem - Suc t < length mem - t" by simp
  note IH = less.hyps [OF this]
  from \<open>t < length mem\<close> IH [of b] IH [of False] less.prems [unfolded hp_colon.simps [of mem t b]]
  show ?case by (auto split: if_splits)
qed

lemma hp_eol_ge: "hp_eol mem end t = Some p3 \<Longrightarrow> t < p3 \<and> p3 < length mem"
proof (induction "length mem - t" arbitrary: t rule: less_induct)
  case less
  have "t < length mem"
    using less.prems [unfolded hp_eol.simps [of mem "end" t]] by (auto simp: rd_Some split: option.splits)
  then have d: "length mem - Suc t < length mem - t" "length mem - Suc (Suc t) < length mem - t"
    by simp_all
  from \<open>t < length mem\<close> less.hyps [OF d(1)] less.hyps [OF d(2)]
    less.prems [unfolded hp_eol.simps [of mem "end" t]]
  show ?case by (auto simp: rd_Some split: if_splits option.splits)
qed

lemma hdr_step_progress:
  assumes "hdr_step mem end max_header st = Some (False, st')"
  shows "hl_p st' = end \<or> hl_p1 st < length mem \<and> hl_p1 st < hl_p1 st'"
proof -
  from assms obtain p2 tk p3 where "hp_colon mem (hl_p1 st) True = Some (p2, tk)" "hp_eol mem end p2 = Some p3"
    by (auto simp: hdr_step_def Let_def split: Option.bind_splits)
  then have "hl_p1 st < p3 + 1" "hl_p1 st < length mem" "hl_p1 st \<le> p2"
    using hp_colon_ge hp_eol_ge by (fastforce)+
  with \<open>hp_colon mem (hl_p1 st) True = Some (p2, tk)\<close> \<open>hp_eol mem end p2 = Some p3\<close> assms show ?thesis
    by (auto simp: hdr_step_def Let_def split: Option.bind_splits if_splits)
qed

function hdr_run :: "string \<Rightarrow> nat \<Rightarrow> int \<Rightarrow> hdr_loop \<Rightarrow> hdr_loop option" where
  "hdr_run mem end max_header st =
     (if hl_p st = end then Some st
      else case hdr_step mem end max_header st of
        None \<Rightarrow> None
      | Some (brk, st') \<Rightarrow> if brk then Some st' else hdr_run mem end max_header st')"
  by pat_completeness auto
termination
proof (relation "measure (\<lambda>(mem, end, m, st). if hl_p st = end then 0 else Suc (length mem - hl_p1 st))")
  fix mem "end" max_header st x brk st'
  assume "hl_p st \<noteq> end" "hdr_step mem end max_header st = Some x" "(brk, st') = x" "\<not> brk"
  then show "((mem, end, max_header, st'), (mem, end, max_header, st))
      \<in> measure (\<lambda>(mem, end, m, st). if hl_p st = end then 0 else Suc (length mem - hl_p1 st))"
    using hdr_step_progress [of mem "end" max_header st st'] by auto
qed simp

declare hdr_run.simps [simp del]

definition http_parse_header :: "string \<Rightarrow> nat \<Rightarrow> int \<Rightarrow> (int \<times> http_header list) option" where
  "http_parse_header mem data_len max_header = do {
     st \<leftarrow> hdr_run mem data_len max_header \<lparr>hl_p = 0, hl_p1 = 0, hl_hdrs = [], hl_read = -2\<rparr>;
     Some (hl_read st, hl_hdrs st)
   }"

section \<open>Chunk sizes\<close>

text \<open>One hexadecimal digit, by comparison of (signed) characters.\<close>

definition hex_digit :: "char \<Rightarrow> int option" where
  "hex_digit c =
     (if 48 \<le> schar c \<and> schar c \<le> 57 then Some (schar c - 48)
      else if 97 \<le> schar c \<and> schar c \<le> 102 then Some (schar c - 97 + 10)
      else if 65 \<le> schar c \<and> schar c \<le> 70 then Some (schar c - 65 + 10)
      else None)"

text \<open>\<open>n << base\<close> on \<open>int\<close>, undefined when it shifts by the width or leaves the range.\<close>

definition shl_int :: "int \<Rightarrow> nat \<Rightarrow> int option" where
  "shl_int n base = (if base < 32 \<and> n * 2 ^ base \<le> int_max then Some (n * 2 ^ base) else None)"

text \<open>The loop, from left to right: the first digit gets weight 1, the next 16, and so on.
  \<^term>\<open>Some (-1)\<close> is the code's error result.\<close>

fun hex_loop :: "string \<Rightarrow> nat \<Rightarrow> int \<Rightarrow> int option" where
  "hex_loop [] base result = Some result"
| "hex_loop (c # cs) base result =
     (case hex_digit c of
        None \<Rightarrow> Some (-1)
      | Some n \<Rightarrow> do {
          v \<leftarrow> shl_int n base;
          if result + v \<le> int_max then hex_loop cs (base + 4) (result + v) else None
        })"

definition str_parse_hex :: "string \<Rightarrow> int option" where
  "str_parse_hex data = hex_loop data 0 0"

text \<open>\<open>http_decode_chunked\<close>: the size of the chunk whose size line starts at \<open>data\<close>, and the offset of
  its data; -1 otherwise. A semicolon is remembered in \<open>p2\<close>, which is never used.\<close>

function chunk_scan :: "string \<Rightarrow> nat \<Rightarrow> nat \<Rightarrow> (int \<times> int option) option" where
  "chunk_scan mem end p =
     (if p = end then Some (-1, None)
      else case rd mem p of
        None \<Rightarrow> None
      | Some c \<Rightarrow>
          if c = CR then
            (let n = c_int (int p) in
             if n > 0 then do {
               n' \<leftarrow> str_parse_hex (take (nat n) mem);
               Some (if n' > 0 then (n', Some (c_int (int p + 2))) else (-1, None))
             }
             else Some (-1, None))
          else chunk_scan mem end (Suc p))"
  by pat_completeness auto
termination
  by (relation "measure (\<lambda>(mem, end, p). length mem - p)") (auto simp: rd_Some)

declare chunk_scan.simps [simp del]

definition http_decode_chunked :: "string \<Rightarrow> nat \<Rightarrow> (int \<times> int option) option" where
  "http_decode_chunked mem data_len = chunk_scan mem data_len 0"

section \<open>Scanning lemmas\<close>

text \<open>Each scan steps over a stretch without the byte it looks for, and stops where it is.\<close>

lemma rd_mid [simp]: "rd (pre @ c # post) (length pre) = Some c"
  by (simp add: rd_def)

lemma rl_spaces_skip:
  "SP \<notin> set w \<Longrightarrow> length pre + length w \<le> end \<Longrightarrow>
     rl_spaces (pre @ w @ post) end (length pre) pos =
     rl_spaces (pre @ w @ post) end (length pre + length w) pos"
proof (induction w arbitrary: pre)
  case (Cons c w)
  from Cons.IH [of "pre @ [c]"] Cons.prems show ?case
    by (subst rl_spaces.simps) auto
qed simp

lemma rl_crlf_skip:
  "CR \<notin> set w \<Longrightarrow> length pre + length w \<le> end \<Longrightarrow>
     rl_crlf (pre @ w @ post) end (length pre) = rl_crlf (pre @ w @ post) end (length pre + length w)"
proof (induction w arbitrary: pre)
  case (Cons c w)
  from Cons.IH [of "pre @ [c]"] Cons.prems show ?case
    by (subst rl_crlf.simps) auto
qed simp

lemma hp_eol_skip:
  "CR \<notin> set w \<Longrightarrow> hp_eol (pre @ w @ post) end (length pre) = hp_eol (pre @ w @ post) end (length pre + length w)"
proof (induction w arbitrary: pre)
  case (Cons c w)
  from Cons.IH [of "pre @ [c]"] Cons.prems show ?case
    by (subst hp_eol.simps) auto
qed simp

lemma token_colon: "\<not> token_char (CHR '':'')"
  by code_simp

lemma hp_colon_token:
  "list_all token_char w \<Longrightarrow>
     hp_colon (pre @ w @ CHR '':'' # post) (length pre) b = Some (length pre + length w, b)"
proof (induction w arbitrary: pre)
  case Nil
  then show ?case by (subst hp_colon.simps) (simp add: token_colon)
next
  case (Cons c w)
  from Cons.IH [of "pre @ [c]"] Cons.prems show ?case
    by (subst hp_colon.simps) auto
qed

lemma hp_colon_none:
  "CHR '':'' \<notin> set w \<Longrightarrow> hp_colon (pre @ w) (length pre) b = None"
proof (induction w arbitrary: pre b)
  case Nil
  then show ?case by (subst hp_colon.simps) simp
next
  case (Cons c w)
  from Cons.IH [of "pre @ [c]"] Cons.prems show ?case
    by (subst hp_colon.simps) auto
qed

lemma ws_fwd_skip:
  "list_all is_ws w \<Longrightarrow> \<not> is_ws c \<Longrightarrow> ws_fwd (pre @ w @ c # post) (length pre) = Some (length pre + length w)"
proof (induction w arbitrary: pre)
  case Nil
  then show ?case by (subst ws_fwd.simps) simp
next
  case (Cons d w)
  from Cons.IH [of "pre @ [d]"] Cons.prems show ?case
    by (subst ws_fwd.simps) auto
qed

lemma ws_back_stop: "\<not> is_ws c \<Longrightarrow> ws_back (pre @ c # post) (length pre) = Some (length pre)"
  by (cases "length pre") (auto simp: ws_back.simps rd_def nth_append)

lemma ws_back_skip:
  "list_all is_ws w \<Longrightarrow> \<not> is_ws c \<Longrightarrow> ws_back (pre @ c # w @ post) (length pre + length w) = Some (length pre)"
proof (induction w arbitrary: post rule: rev_induct)
  case Nil
  then show ?case by (simp add: ws_back_stop)
next
  case (snoc d w)
  have "rd (pre @ c # (w @ [d]) @ post) (Suc (length pre + length w)) = Some d"
    by (simp add: rd_def nth_append)
  moreover from snoc have "ws_back (pre @ c # w @ (d # post)) (length pre + length w) = Some (length pre)"
    by simp
  ultimately show ?case using snoc.prems by (simp add: ws_back.simps)
qed

section \<open>The request line\<close>

definition request_line :: "string \<Rightarrow> string \<Rightarrow> char \<Rightarrow> string" where
  "request_line m path v = m @ SP # path @ '' HTTP/1.'' @ [v, CR, LF]"

definition line_result :: "string \<Rightarrow> string \<Rightarrow> char \<Rightarrow> req_line" where
  "line_result m path v =
     \<lparr>rl_method = 0, rl_method_len = length m, rl_path = length m + 1, rl_path_len = length path,
      rl_minor = schar v - 48\<rparr>"

lemma rl_spaces_two:
  assumes "SP \<notin> set m" "SP \<notin> set path" "length m + length path + 1 < end"
  shows "rl_spaces (m @ SP # path @ SP # rest) end 0 [] =
    Some (length m + length path + 1, [length m, length m + length path + 1])"
proof -
  let ?mem = "m @ SP # path @ SP # rest"
  have "rl_spaces ?mem end 0 [] = rl_spaces ?mem end (length m) []"
    using rl_spaces_skip [of m "[]" "end" "SP # path @ SP # rest" "[]"] assms by simp
  also have "\<dots> = rl_spaces ?mem end (Suc (length m)) [length m]"
    using assms(3) by (subst rl_spaces.simps) simp
  also have "\<dots> = rl_spaces ?mem end (length m + length path + 1) [length m]"
    using rl_spaces_skip [of path "m @ [SP]" "end" "SP # rest" "[length m]"] assms by simp
  also have "\<dots> = Some (length m + length path + 1, [length m, length m + length path + 1])"
    using assms(3) rd_mid [of "m @ SP # path" SP rest] by (subst rl_spaces.simps) simp
  finally show ?thesis .
qed

lemma rl_spaces_few:
  assumes "count_list (take end mem) SP < 2" "end \<le> length mem"
  shows "\<exists>pos. rl_spaces mem end 0 [] = Some (end, pos) \<and> length pos < 2"
proof (cases "SP \<in> set (take end mem)")
  case False
  have "rl_spaces mem end end [] = Some (end, [])" by (subst rl_spaces.simps) simp
  with False show ?thesis
    using rl_spaces_skip [of "take end mem" "[]" "end" "drop end mem" "[]"] assms(2) by simp
next
  case True
  then obtain m r where d: "take end mem = m @ SP # r" "SP \<notin> set m" by (rule split_first)
  then have r: "SP \<notin> set r" using assms(1) by (auto simp: count_list_0_iff)
  have len: "length m + 1 + length r = end" using arg_cong [OF d(1), of length] assms(2) by simp
  have mem: "mem = m @ SP # r @ drop end mem" using d(1) by (metis append_Cons append_assoc append_take_drop_id)
  have "rl_spaces mem end 0 [] = rl_spaces mem end (length m) []"
    using rl_spaces_skip [of m "[]" "end" "SP # r @ drop end mem" "[]"] d(2) len mem by simp
  also have "\<dots> = rl_spaces mem end (Suc (length m)) [length m]"
    using len rd_mid [of m SP "r @ drop end mem"] mem by (subst rl_spaces.simps) simp
  also have "\<dots> = rl_spaces mem end end [length m]"
    using rl_spaces_skip [of r "m @ [SP]" "end" "drop end mem" "[length m]"] r len mem by simp
  also have "\<dots> = Some (end, [length m])" by (subst rl_spaces.simps) simp
  finally show ?thesis by simp
qed

lemma two_spaces:
  assumes "\<not> count_list s SP < 2"
  obtains m path rest where "s = m @ SP # path @ SP # rest" "SP \<notin> set m" "SP \<notin> set path"
proof -
  from assms have "count_list s SP \<noteq> 0" by linarith
  then have "SP \<in> set s" by (simp add: count_list_0_iff)
  then obtain m r where r: "s = m @ SP # r" "SP \<notin> set m" by (rule split_first)
  then have "count_list s SP = Suc (count_list r SP)" by (simp add: count_list_0_iff)
  with assms have "count_list r SP \<noteq> 0" by linarith
  then have "SP \<in> set r" by (simp add: count_list_0_iff)
  then obtain path rest where "r = path @ SP # rest" "SP \<notin> set path" by (rule split_first)
  with r show thesis by (intro that [of m path rest]) auto
qed

lemma rl_crlf_gt:
  "rl_crlf mem end p = Some (Some q) \<Longrightarrow> p < q \<and> q < length mem \<and> mem ! q = LF \<and> mem ! (q - 1) = CR"
proof (induction "length mem - p" arbitrary: p rule: less_induct)
  case less
  note pr = less.prems [unfolded rl_crlf.simps [of mem "end" p]]
  have "p < length mem" using pr by (auto simp: rd_Some split: option.splits if_splits)
  then have d: "length mem - Suc p < length mem - p" "length mem - Suc (Suc p) < length mem - p"
    by simp_all
  from \<open>p < length mem\<close> less.hyps [OF d(1)] less.hyps [OF d(2)] pr show ?case
    by (auto simp: rd_Some split: if_splits option.splits)
qed

lemma rl_crlf_safe:
  assumes "end \<le> length mem" "end > 0 \<Longrightarrow> mem ! (end - 1) \<noteq> CR"
  shows "p \<le> end \<Longrightarrow> rl_crlf mem end p = Some None \<or> (\<exists>q < end. rl_crlf mem end p = Some (Some q))"
proof (induction "end - p" arbitrary: p rule: less_induct)
  case less
  show ?case
  proof (cases "p = end")
    case True
    then show ?thesis by (subst rl_crlf.simps) (subst rl_crlf.simps, simp)
  next
    case False
    with less.prems have "p < end" by simp
    then have d: "end - Suc p < end - p" "Suc p \<le> end" "end - Suc (Suc p) < end - p" by simp_all
    note u = rl_crlf.simps [of mem "end" p]
    show ?thesis
    proof (cases "mem ! p = CR")
      case True
      then have "Suc p \<noteq> end" using assms(2) by auto
      then have "Suc (Suc p) \<le> end" using \<open>p < end\<close> by simp
      with less.hyps [OF d(3)] True \<open>Suc p \<noteq> end\<close> \<open>p < end\<close> assms(1) show ?thesis
        unfolding u by auto
    next
      case False
      with less.hyps [OF d(1,2)] \<open>p < end\<close> assms(1) show ?thesis unfolding u by auto
    qed
  qed
qed

lemma expect_iff:
  "expect mem p cs = Some True \<longleftrightarrow> take (length cs) (drop p mem) = cs \<and> (cs = [] \<or> p < length mem)"
proof (induction mem p cs rule: expect.induct)
  case (2 mem p c cs)
  show ?case
  proof (cases "p < length mem")
    case True
    then have "drop p mem = mem ! p # drop (Suc p) mem" by (rule Cons_nth_drop_Suc [symmetric])
    with 2 True show ?thesis by auto
  qed simp
qed simp

lemma expect_defined: "p + length cs \<le> length mem \<Longrightarrow> expect mem p cs \<noteq> None"
  by (induction mem p cs rule: expect.induct) auto


lemma crlf_after:
  assumes "CR \<notin> set w" "length (pre @ w) + 1 < end"
  shows "rl_crlf (pre @ w @ CR # LF # rest) end (length pre) = Some (Some (length (pre @ w) + 1))"
proof -
  let ?mem = "pre @ w @ CR # LF # rest"
  have "rl_crlf ?mem end (length pre) = rl_crlf ?mem end (length (pre @ w))"
    using rl_crlf_skip [of w pre "end" "CR # LF # rest"] assms by simp
  also have "\<dots> = Some (Some (length (pre @ w) + 1))"
    using assms(2) rd_mid [of "pre @ w" CR "LF # rest"] rd_mid [of "pre @ w @ [CR]" LF rest]
    by (subst rl_crlf.simps) simp
  finally show ?thesis .
qed

lemma request_line_complete:
  assumes "SP \<notin> set m" "SP \<notin> set path" "v \<noteq> CR"
    "length (request_line m path v) \<le> data_len" "data_len \<le> length (request_line m path v @ rest)"
    "int (length (request_line m path v)) \<le> int_max"
  shows "http_parse_request_line (request_line m path v @ rest) data_len =
    Some (int (length (request_line m path v)), Some (line_result m path v))"
proof -
  define b where "b = length m + length path + 1"
  define pre w where "pre = m @ SP # path" and "w = SP # ''HTTP/1.'' @ [v]"
  define mem where "mem = request_line m path v @ rest"
  have lw: "length w = 9" "CR \<notin> set w" and lp: "length pre = b"
    using assms(3) by (simp_all add: w_def pre_def b_def)
  have dl: "b + 11 \<le> data_len" using assms(4) by (simp add: request_line_def b_def)
  have m1: "mem = m @ SP # path @ SP # (''HTTP/1.'' @ [v, CR, LF] @ rest)"
    and m2: "mem = pre @ w @ CR # LF # rest"
    by (simp_all add: request_line_def mem_def pre_def w_def)
  have s: "rl_spaces mem data_len 0 [] = Some (b, [length m, b])"
    using rl_spaces_two [OF assms(1,2), of data_len] dl by (simp add: m1 b_def)
  have c: "rl_crlf mem data_len b = Some (Some (b + 10))"
    using crlf_after [OF lw(2), of pre data_len rest] dl by (simp add: m2 [symmetric] lw lp)
  have "drop (b + 1) mem = ''HTTP/1.'' @ v # CR # LF # rest" by (simp add: m1 b_def)
  moreover have "b + 1 < length mem" by (simp add: m1 b_def)
  ultimately have e: "expect mem (b + 1) ''HTTP/1.'' = Some True" unfolding expect_iff by simp
  have "mem = (pre @ SP # ''HTTP/1.'') @ v # CR # LF # rest" by (simp add: m2 w_def)
  moreover have "length (pre @ SP # ''HTTP/1.'') = b + 8" by (simp add: lp)
  ultimately have v: "rd mem (b + 8) = Some v" by (metis rd_mid)
  have l: "int (b + 10) + 1 = int (length (request_line m path v))"
    by (simp add: request_line_def b_def)
  have i: "c_int (int (b + 10) + 1) = int (length (request_line m path v))"
    unfolding l using assms(6) by simp
  have "http_parse_request_line mem data_len = Some (c_int (int (b + 10) + 1), Some (line_result m path v))"
    using s c e v by (simp add: http_parse_request_line_def line_result_def) (simp add: b_def)
  then show ?thesis unfolding i mem_def .
qed

lemma request_line_sound:
  assumes "http_parse_request_line mem data_len = Some (n, Some rl)" "n \<le> int data_len"
    "data_len \<le> length mem" "int (length mem) \<le> int_max"
  shows "\<exists>m path v rest. mem = request_line m path v @ rest \<and> SP \<notin> set m \<and> SP \<notin> set path \<and> v \<noteq> CR \<and>
    rl = line_result m path v \<and> n = int (length (request_line m path v))"
proof -
  have "\<not> count_list (take data_len mem) SP < 2"
  proof
    assume "count_list (take data_len mem) SP < 2"
    from rl_spaces_few [OF this assms(3)] assms(1) show False
      by (auto simp: http_parse_request_line_def split: Option.bind_splits list.splits)
  qed
  then obtain m path r where t: "take data_len mem = m @ SP # path @ SP # r"
    and sp: "SP \<notin> set m" "SP \<notin> set path" by (rule two_spaces)
  define b s where "b = length m + length path + 1" and "s = r @ drop data_len mem"
  have mem: "mem = (m @ SP # path) @ SP # s"
    using t append_take_drop_id [of data_len mem] by (simp add: s_def)
  have dl: "length m + length path + 1 < data_len"
    using arg_cong [OF t, of length] assms(3) by simp
  have "rl_spaces mem data_len 0 [] = Some (b, [length m, b])"
    using rl_spaces_two [OF sp dl, of s] mem by (simp add: b_def)
  with assms(1) obtain q where q0: "rl_crlf mem data_len b = Some (Some q)" "int q - int b = 10"
    "expect mem (b + 1) ''HTTP/1.'' = Some True" "n = c_int (int q + 1)"
    "rl = \<lparr>rl_method = 0, rl_method_len = length m, rl_path = length m + 1,
       rl_path_len = b - (length m + 1), rl_minor = schar (mem ! (b + 8)) - 48\<rparr>"
    by (auto simp: http_parse_request_line_def rd_Some simp del: c_int_id
      split: Option.bind_splits option.splits if_splits)
  have "q < length mem" using rl_crlf_gt [OF q0(1)] by simp
  then have "c_int (int q + 1) = int q + 1" using assms(4) by (intro c_int_id) (simp_all add: int_max_def)
  then have q: "rl_crlf mem data_len b = Some (Some q)" "q = b + 10"
    "expect mem (b + 1) ''HTTP/1.'' = Some True" "n = int q + 1"
    "rl = \<lparr>rl_method = 0, rl_method_len = length m, rl_path = length m + 1,
       rl_path_len = b - (length m + 1), rl_minor = schar (mem ! (b + 8)) - 48\<rparr>"
    using q0 by simp_all
  have nth: "mem ! (b + 1 + k) = s ! k" for k by (simp add: mem b_def nth_append)
  have ds: "drop (b + 1) mem = s" by (simp add: mem b_def)
  note gt = rl_crlf_gt [OF q(1)]
  have ls: "9 < length s" using gt q(2) mem by (simp add: b_def)
  have "b + 1 + 8 = q - 1" "b + 1 + 9 = q" using q(2) by simp_all
  then have s89: "s ! 8 = CR" "s ! 9 = LF" using gt nth [of 8] nth [of 9] by metis+
  define v rest where "v = s ! 7" and "rest = drop 10 s"
  have "drop 7 s = v # CR # LF # rest"
    using ls s89 Cons_nth_drop_Suc [of 7 s] Cons_nth_drop_Suc [of 8 s] Cons_nth_drop_Suc [of 9 s]
    by (simp add: v_def rest_def)
  moreover have "take 7 s = ''HTTP/1.''" using q(3) ds unfolding expect_iff by (simp add: eval_nat_numeral)
  ultimately have s: "s = ''HTTP/1.'' @ v # CR # LF # rest" by (metis append_take_drop_id)
  have "v \<noteq> CR"
  proof
    assume v: "v = CR"
    have m8: "mem = (m @ SP # path) @ (SP # ''HTTP/1.'') @ CR # CR # LF # rest" using mem s v by simp
    have "length ((m @ SP # path) @ (SP # ''HTTP/1.'')) = b + 8" by (simp add: b_def)
    moreover have "b + 11 \<le> data_len" using assms(2) q(2,4) by simp
    ultimately have "rl_crlf mem data_len b = rl_crlf mem data_len (b + 8)"
      using rl_crlf_skip [of "SP # ''HTTP/1.''" "m @ SP # path" data_len "CR # CR # LF # rest"] m8
      by (simp add: b_def eval_nat_numeral)
    also have "\<dots> = rl_crlf mem data_len (b + 10)"
      using nth [of 7] nth [of 8] s v \<open>b + 11 \<le> data_len\<close> gt q(2)
      by (subst rl_crlf.simps) (simp add: eval_nat_numeral)
    finally show False using rl_crlf_gt [of mem data_len "b + 10" q] q(1,2) by simp
  qed
  moreover have "mem = request_line m path v @ rest" by (simp add: mem s request_line_def)
  moreover have "mem ! (b + 8) = v" using nth [of 7] by (simp add: v_def add.commute)
  ultimately show ?thesis
    using sp q(2,4,5) by (intro exI [of _ m] exI [of _ path] exI [of _ v] exI [of _ rest])
      (auto simp: line_result_def request_line_def b_def)
qed


section \<open>Header fields\<close>

text \<open>A field is its name, the whitespace after the colon, and its value.\<close>

type_synonym field = "string \<times> string \<times> string"

fun field_line :: "field \<Rightarrow> string" where
  "field_line (n, w, v) = n @ CHR '':'' # w @ v @ [CR, LF]"

text \<open>A well-formed field: a token, and a value that neither holds a CR nor begins or ends with
  whitespace; an empty value has no whitespace before it.\<close>

fun good_field :: "field \<Rightarrow> bool" where
  "good_field (n, w, v) \<longleftrightarrow> list_all token_char n \<and> list_all is_ws w \<and> CR \<notin> set v \<and>
     (if v = [] then w = [] else \<not> is_ws (hd v) \<and> \<not> is_ws (last v))"

fun field_header :: "nat \<Rightarrow> field \<Rightarrow> http_header" where
  "field_header off (n, w, v) =
     \<lparr>h_name = off, h_name_len = length n, h_value = off + length n + 1 + length w, h_value_len = length v\<rparr>"

fun field_headers :: "nat \<Rightarrow> field list \<Rightarrow> http_header list" where
  "field_headers off [] = []"
| "field_headers off (f # fs) = field_header off f # field_headers (off + length (field_line f)) fs"

definition header_block :: "field list \<Rightarrow> string" where
  "header_block fs = concat (map field_line fs)"

lemma header_block_simps [simp]: "header_block [] = []" "header_block (f # fs) = field_line f @ header_block fs"
  by (simp_all add: header_block_def)

lemma is_ws_CR [simp]: "\<not> is_ws CR" "\<not> is_ws (CHR '':'')" "is_ws SP" "is_ws TAB"
  by (simp_all add: is_ws_def)

lemma token_char_facts: "\<not> token_char CR" "\<not> token_char SP" "\<not> token_char TAB"
  by code_simp+

lemma ws_no_CR: "list_all is_ws w \<Longrightarrow> CR \<notin> set w"
  by (auto simp: list_all_iff)

text \<open>The header made of a line, for a value that is empty or ends in a non-blank.\<close>

lemma mk_header_line:
  assumes "list_all is_ws w" "v \<noteq> [] \<Longrightarrow> \<not> is_ws (hd v) \<and> \<not> is_ws (last v)"
  shows "mk_header (pre @ n @ CHR '':'' # w @ v @ CR # post) (length pre) (length pre + length n)
      (length pre + length n + length w + length v + 2) =
    Some \<lparr>h_name = length pre, h_name_len = length n, h_value = length pre + length n + 1 + length w,
      h_value_len = (if v = [] then sz_sub 0 (length w) else length v)\<rparr>"
proof -
  let ?mem = "pre @ n @ CHR '':'' # w @ v @ CR # post"
  define c where "c = length pre + length n"
  have "\<exists>x xs. v @ CR # post = x # xs \<and> \<not> is_ws x"
    using assms(2) by (cases v) auto
  then obtain x xs where x: "v @ CR # post = x # xs" "\<not> is_ws x" by blast
  have f: "ws_fwd ?mem (c + 1) = Some (c + 1 + length w)"
    using ws_fwd_skip [OF assms(1) x(2), of "pre @ n @ '':''" xs] x(1) by (simp add: c_def)
  have b: "ws_back ?mem (c + length w + length v) = Some (if v = [] then c else c + length w + length v)"
  proof (cases "v = []")
    case True
    then show ?thesis
      using ws_back_skip [OF assms(1) is_ws_CR(2), of "pre @ n" "CR # post"] by (simp add: c_def)
  next
    case False
    then obtain us u where u: "v = us @ [u]" by (cases v rule: rev_cases) auto
    then show ?thesis
      using ws_back_stop [of u "pre @ n @ CHR '':'' # w @ us" "CR # post"] assms(2) by (simp add: c_def add.assoc)
  qed
  have "sz_sub (c + 1) (c + 1 + length w) = sz_sub 0 (length w)" by (simp add: sz_sub_def)
  moreover have "c - length pre = length n" by (simp add: c_def)
  ultimately show ?thesis using f b by (simp add: mk_header_def c_def [symmetric])
qed

lemma hp_eol_line:
  assumes "CR \<notin> set w" "length (pre @ w) + 1 < end"
  shows "hp_eol (pre @ w @ CR # LF # rest) end (length pre) = Some (length (pre @ w) + 1)"
proof -
  let ?mem = "pre @ w @ CR # LF # rest"
  have "hp_eol ?mem end (length pre) = hp_eol ?mem end (length (pre @ w))"
    using hp_eol_skip [of w pre "CR # LF # rest" "end"] assms by simp
  also have "\<dots> = Some (length (pre @ w) + 1)"
    using assms(2) rd_mid [of "pre @ w" CR "LF # rest"] rd_mid [of "pre @ w @ [CR]" LF rest]
    by (subst hp_eol.simps) simp
  finally show ?thesis .
qed

text \<open>The part of a pass up to the end of the line, for a well-formed line.\<close>

lemma line_scans:
  assumes "good_field (n, w, v)" "length (pre @ field_line (n, w, v)) \<le> end"
    and mem: "mem = pre @ field_line (n, w, v) @ post"
  shows "hp_colon mem (length pre) True = Some (length pre + length n, True)"
    and "hp_eol mem end (length pre + length n) = Some (length pre + length n + length w + length v + 2)"
    and "mk_header mem (length pre) (length pre + length n) (length pre + length n + length w + length v + 2)
      = Some (field_header (length pre) (n, w, v))"
    and "\<exists>c. rd mem (length pre) = Some c \<and> c \<noteq> SP \<and> c \<noteq> TAB \<and> c \<noteq> CR"
proof -
  show "hp_colon mem (length pre) True = Some (length pre + length n, True)"
    using hp_colon_token [of n pre "w @ v @ [CR, LF] @ post" True] assms(1) by (simp add: mem)
  have "CR \<notin> set (CHR '':'' # w @ v)" using assms(1) by (auto dest: ws_no_CR)
  then show "hp_eol mem end (length pre + length n) = Some (length pre + length n + length w + length v + 2)"
    using hp_eol_line [of "CHR '':'' # w @ v" "pre @ n" "end" post] assms(2) by (simp add: mem)
  show "mk_header mem (length pre) (length pre + length n) (length pre + length n + length w + length v + 2)
      = Some (field_header (length pre) (n, w, v))"
    using mk_header_line [of w v pre n "LF # post"] assms(1) by (simp add: mem split: if_splits)
  show "\<exists>c. rd mem (length pre) = Some c \<and> c \<noteq> SP \<and> c \<noteq> TAB \<and> c \<noteq> CR"
    using assms(1) token_char_facts by (cases n) (auto simp: mem)
qed

lemma good_line_scans:
  assumes "good_field f" "length (pre @ field_line f) \<le> end"
    and mem: "mem = pre @ field_line f @ post"
  shows "\<exists>p2 p3 c. hp_colon mem (length pre) True = Some (p2, True) \<and> hp_eol mem end p2 = Some p3 \<and>
    p3 + 1 = length (pre @ field_line f) \<and> mk_header mem (length pre) p2 p3 = Some (field_header (length pre) f) \<and>
    rd mem (length pre) = Some c \<and> c \<noteq> SP \<and> c \<noteq> TAB"
proof -
  obtain n w v where f: "f = (n, w, v)" by (cases f)
  have t: "length pre + length n + length w + length v + 2 + 1 = length (pre @ field_line f)" by (simp add: f)
  from line_scans [of n w v pre "end" mem post] assms t show ?thesis unfolding f by blast
qed

text \<open>What a pass does after the line, as a function of the position after it.\<close>

lemma hdr_step_line:
  assumes "hp_colon mem (hl_p1 st) True = Some (p2, True)" "hp_eol mem end p2 = Some p3" "p3 + 1 = t"
    "mk_header mem (hl_p1 st) p2 p3 = Some h" "rd mem (hl_p1 st) = Some c1" "c1 \<noteq> SP" "c1 \<noteq> TAB"
    "int (length (hl_hdrs st)) < max_header"
  shows "t = end \<Longrightarrow> hdr_step mem end max_header st =
      Some (False, st\<lparr>hl_p := t, hl_hdrs := hl_hdrs st @ [h], hl_read := c_int (int t)\<rparr>)"
    and "t \<noteq> end \<Longrightarrow> rd mem t = Some c \<Longrightarrow> c \<noteq> CR \<Longrightarrow> hdr_step mem end max_header st =
      Some (False, st\<lparr>hl_p := t, hl_p1 := t, hl_hdrs := hl_hdrs st @ [h], hl_read := c_int (int t)\<rparr>)"
    and "t \<noteq> end \<Longrightarrow> rd mem t = Some CR \<Longrightarrow> t + 1 \<noteq> end \<Longrightarrow> rd mem (t + 1) = Some LF \<Longrightarrow>
      hdr_step mem end max_header st =
      Some (True, st\<lparr>hl_p := t + 1, hl_hdrs := hl_hdrs st @ [h], hl_read := c_int (int t)\<rparr>)"
  using assms by (auto simp: hdr_step_def Let_def)

lemma hdr_run_fields:
  assumes "mem = pre @ header_block fs @ CR # LF # post" "fs \<noteq> []" "list_all good_field fs"
    "length (pre @ header_block fs) + 2 \<le> end" "hl_p1 st = length pre" "hl_p st \<noteq> end"
    "int (length (hl_hdrs st) + length fs) \<le> max_header"
  shows "\<exists>st'. hdr_run mem end max_header st = Some st' \<and>
    hl_hdrs st' = hl_hdrs st @ field_headers (length pre) fs \<and> hl_read st' = c_int (int (length (pre @ header_block fs)))"
  using assms
proof (induction fs arbitrary: pre st)
  case (Cons f fs)
  define t where "t = length (pre @ field_line f)"
  have "length (pre @ field_line f) \<le> end" using Cons.prems(4) by simp
  moreover have "mem = pre @ field_line f @ (header_block fs @ CR # LF # post)" using Cons.prems(1) by simp
  ultimately obtain p2 p3 c where sc: "hp_colon mem (hl_p1 st) True = Some (p2, True)"
    "hp_eol mem end p2 = Some p3" "p3 + 1 = t" "mk_header mem (hl_p1 st) p2 p3 = Some (field_header (length pre) f)"
    "rd mem (hl_p1 st) = Some c" "c \<noteq> SP" "c \<noteq> TAB"
    using good_line_scans [of f pre "end" mem] Cons.prems(3,5) t_def by fastforce
  have mx: "int (length (hl_hdrs st)) < max_header" using Cons.prems(7) by simp
  note step = hdr_step_line [OF sc mx]
  have tend: "t + 2 \<le> end" using Cons.prems(4) by (simp add: t_def)
  show ?case
  proof (cases "fs = []")
    case True
    then have "rd mem t = Some CR" "rd mem (t + 1) = Some LF"
      using Cons.prems(1) rd_mid [of "pre @ field_line f" CR "LF # post"]
        rd_mid [of "pre @ field_line f @ [CR]" LF post] by (simp_all add: t_def)
    from step(3) [OF _ this(1) _ this(2)] tend
    have "hdr_step mem end max_header st = Some (True, st\<lparr>hl_p := t + 1,
        hl_hdrs := hl_hdrs st @ [field_header (length pre) f], hl_read := c_int (int t)\<rparr>)" by simp
    with True Cons.prems(6) show ?thesis by (subst hdr_run.simps) (simp add: t_def)
  next
    case False
    then obtain g gs where fs: "fs = g # gs" by (cases fs) auto
    obtain n w v where g: "g = (n, w, v)" by (cases g)
    have "\<exists>d xs. field_line g = d # xs \<and> d \<noteq> CR"
      using Cons.prems(3) token_char_facts(1) unfolding fs g by (cases n) auto
    then obtain d xs where d: "field_line g = d # xs" "d \<noteq> CR" by blast
    have "rd mem t = Some d"
      using Cons.prems(1) rd_mid [of "pre @ field_line f" d] d(1) by (simp add: t_def fs)
    from step(2) [OF _ this d(2)] tend
    have st: "hdr_step mem end max_header st = Some (False, st\<lparr>hl_p := t, hl_p1 := t,
        hl_hdrs := hl_hdrs st @ [field_header (length pre) f], hl_read := c_int (int t)\<rparr>)" by simp
    let ?st = "st\<lparr>hl_p := t, hl_p1 := t, hl_hdrs := hl_hdrs st @ [field_header (length pre) f], hl_read := c_int (int t)\<rparr>"
    have "\<exists>st'. hdr_run mem end max_header ?st = Some st' \<and>
        hl_hdrs st' = hl_hdrs ?st @ field_headers (length (pre @ field_line f)) fs \<and>
        hl_read st' = c_int (int (length ((pre @ field_line f) @ header_block fs)))"
      using Cons.prems tend False by (intro Cons.IH) (auto simp: t_def)
    with st Cons.prems(6) show ?thesis by (subst hdr_run.simps) auto
  qed
qed simp

lemma parse_header_fields:
  assumes "fs \<noteq> []" "list_all good_field fs" "length (header_block fs) + 2 \<le> data_len"
    "int (length fs) \<le> max_header"
  shows "http_parse_header (header_block fs @ CR # LF # post) data_len max_header =
    Some (c_int (int (length (header_block fs))), field_headers 0 fs)"
proof -
  let ?st = "\<lparr>hl_p = 0, hl_p1 = 0, hl_hdrs = [], hl_read = -2\<rparr>"
  have "\<exists>st'. hdr_run (header_block fs @ CR # LF # post) data_len max_header ?st = Some st' \<and>
      hl_hdrs st' = hl_hdrs ?st @ field_headers (length []) fs \<and> hl_read st' = c_int (int (length ([] @ header_block fs)))"
    using hdr_run_fields [of "header_block fs @ CR # LF # post" "[]" fs post data_len ?st max_header] assms by simp
  then show ?thesis by (auto simp: http_parse_header_def)
qed

text \<open>The bytes a header record points at.\<close>

definition slice :: "string \<Rightarrow> nat \<Rightarrow> nat \<Rightarrow> string" where
  "slice mem off len = take len (drop off mem)"

definition header_strings :: "string \<Rightarrow> http_header \<Rightarrow> string \<times> string" where
  "header_strings mem h = (slice mem (h_name h) (h_name_len h), slice mem (h_value h) (h_value_len h))"

lemma field_headers_strings:
  "map (header_strings (pre @ header_block fs @ post)) (field_headers (length pre) fs) = map (\<lambda>(n, w, v). (n, v)) fs"
proof (induction fs arbitrary: pre)
  case (Cons f fs)
  obtain n w v where f: "f = (n, w, v)" by (cases f)
  have "header_strings (pre @ header_block (f # fs) @ post) (field_header (length pre) f) = (n, v)"
    by (simp add: header_strings_def slice_def f)
  with Cons.IH [of "pre @ field_line f"] show ?case by (simp add: f)
qed simp

lemma length_field_headers [simp]: "length (field_headers off fs) = length fs"
  by (induction fs arbitrary: off) auto

text \<open>The outer loop passes well-formed lines until a line that starts with another byte than CR.\<close>

lemma hdr_run_prefix:
  assumes "mem = pre @ header_block fs @ d # post" "d \<noteq> CR" "list_all good_field fs"
    "length (pre @ header_block fs) < end" "hl_p1 st = length pre" "hl_p st \<noteq> end"
    "int (length (hl_hdrs st) + length fs) \<le> max_header"
  shows "\<exists>st'. hdr_run mem end max_header st = hdr_run mem end max_header st' \<and>
    hl_p1 st' = length (pre @ header_block fs) \<and> hl_p st' \<noteq> end"
  using assms
proof (induction fs arbitrary: pre st)
  case Nil
  then show ?case by (intro exI [of _ st]) simp
next
  case (Cons f fs)
  define t where "t = length (pre @ field_line f)"
  have "length (pre @ field_line f) \<le> end" using Cons.prems(4) by simp
  moreover have "mem = pre @ field_line f @ (header_block fs @ d # post)" using Cons.prems(1) by simp
  ultimately obtain p2 p3 c where sc: "hp_colon mem (hl_p1 st) True = Some (p2, True)"
    "hp_eol mem end p2 = Some p3" "p3 + 1 = t" "mk_header mem (hl_p1 st) p2 p3 = Some (field_header (length pre) f)"
    "rd mem (hl_p1 st) = Some c" "c \<noteq> SP" "c \<noteq> TAB"
    using good_line_scans [of f pre "end" mem] Cons.prems(3,5) t_def by fastforce
  have mx: "int (length (hl_hdrs st)) < max_header" using Cons.prems(7) by simp
  have tend: "t < end" using Cons.prems(4) by (simp add: t_def)
  have "\<exists>e xs. header_block fs @ d # post = e # xs \<and> e \<noteq> CR"
  proof (cases fs)
    case (Cons g gs)
    obtain n w v where g: "g = (n, w, v)" by (cases g)
    show ?thesis using Cons.prems(3) token_char_facts(1) unfolding Cons g by (cases n) auto
  qed (use Cons.prems(2) in auto)
  then obtain e xs where e: "header_block fs @ d # post = e # xs" "e \<noteq> CR" by blast
  have "rd mem t = Some e"
    using Cons.prems(1) rd_mid [of "pre @ field_line f" e xs] e(1) by (simp add: t_def)
  from hdr_step_line(2) [OF sc mx _ this e(2)] tend
  have st: "hdr_step mem end max_header st = Some (False, st\<lparr>hl_p := t, hl_p1 := t,
      hl_hdrs := hl_hdrs st @ [field_header (length pre) f], hl_read := c_int (int t)\<rparr>)" by simp
  let ?st = "st\<lparr>hl_p := t, hl_p1 := t, hl_hdrs := hl_hdrs st @ [field_header (length pre) f], hl_read := c_int (int t)\<rparr>"
  have "\<exists>st'. hdr_run mem end max_header ?st = hdr_run mem end max_header st' \<and>
      hl_p1 st' = length ((pre @ field_line f) @ header_block fs) \<and> hl_p st' \<noteq> end"
    using Cons.prems tend by (intro Cons.IH) (auto simp: t_def)
  moreover have "hdr_run mem end max_header st = hdr_run mem end max_header ?st"
    using st Cons.prems(6) by (subst hdr_run.simps) simp
  ultimately show ?case by simp
qed

lemma hdr_step_no_colon: "hp_colon mem (hl_p1 st) True = None \<Longrightarrow> hdr_step mem end max_header st = None"
  by (simp add: hdr_step_def)

section \<open>Chunk sizes\<close>

text \<open>The value of a list of digit values, most significant first and least significant first.\<close>

definition big_endian :: "int list \<Rightarrow> int" where
  "big_endian ds = foldl (\<lambda>a d. 16 * a + d) 0 ds"

fun little_endian :: "int list \<Rightarrow> int" where
  "little_endian [] = 0"
| "little_endian (d # ds) = d + 16 * little_endian ds"

lemma big_endian_rev: "big_endian (rev ds) = little_endian ds"
  by (induction ds) (simp_all add: big_endian_def)

lemma hex_digit_range: "hex_digit c = Some d \<Longrightarrow> 0 \<le> d \<and> d \<le> 15"
  by (auto simp: hex_digit_def split: if_splits)

lemma little_endian_nonneg: "\<forall>d \<in> set ds. 0 \<le> d \<and> d \<le> 15 \<Longrightarrow> 0 \<le> little_endian ds"
  by (induction ds) auto

lemma little_endian_bound:
  "\<forall>d \<in> set ds. 0 \<le> d \<and> d \<le> 15 \<Longrightarrow> little_endian ds \<le> 16 ^ length ds - 1"
  by (induction ds) auto

lemma hex_loop_digits:
  assumes "map hex_digit cs = map Some ds" "base + 4 * length cs \<le> 28" "0 \<le> r" "r < 2 ^ base"
  shows "hex_loop cs base r = Some (r + 2 ^ base * little_endian ds)"
  using assms
proof (induction cs arbitrary: base r ds)
  case (Cons c cs)
  then obtain d ds' where ds: "ds = d # ds'" "hex_digit c = Some d" "map hex_digit cs = map Some ds'"
    by (cases ds) auto
  have d: "0 \<le> d" "d \<le> 15" using hex_digit_range [OF ds(2)] by auto
  have p: "(2::int) ^ (base + 4) = 16 * 2 ^ base" by (simp add: power_add)
  have "base + 4 \<le> 28" using Cons.prems(2) by simp
  then have "(2::int) ^ (base + 4) \<le> 2 ^ 28" by (rule power_increasing) simp
  then have b: "16 * (2::int) ^ base \<le> 2 ^ 28" using p by simp
  have v: "d * 2 ^ base \<le> 15 * 2 ^ base" using d by (simp add: mult_right_mono)
  have r: "r + d * 2 ^ base < 2 ^ (base + 4)" using v Cons.prems(4) unfolding p by linarith
  have le: "r + d * 2 ^ base \<le> int_max" "d * 2 ^ base \<le> int_max"
    using r p b v Cons.prems(3) by (simp_all add: int_max_def)
  have "hex_loop cs (base + 4) (r + d * 2 ^ base) =
      Some (r + d * 2 ^ base + 2 ^ (base + 4) * little_endian ds')"
    using Cons.prems d ds(3) r by (intro Cons.IH) auto
  with le \<open>base + 4 \<le> 28\<close> show ?case
    by (simp add: ds shl_int_def p algebra_simps)
qed simp

lemma chunk_scan_skip:
  "CR \<notin> set w \<Longrightarrow> length (pre @ w) < end \<Longrightarrow>
     chunk_scan (pre @ w @ CR # post) end (length pre) = chunk_scan (pre @ w @ CR # post) end (length (pre @ w))"
proof (induction w arbitrary: pre)
  case (Cons c w)
  from Cons.IH [of "pre @ [c]"] Cons.prems show ?case
    by (subst chunk_scan.simps) auto
qed simp

section \<open>Properties\<close>

text \<open>C16. The request line accepted is exactly method, SP, path, SP, \<open>HTTP/1.\<close>, one byte, CRLF, with no
  space in method or path: parsing succeeds within the input if and only if the input starts with
  such a line, and then the outputs are its parts and the return value its length. (The version byte
  is not checked to be a digit.)\<close>

theorem request_line_grammar:
  assumes "data_len \<le> length mem" "int (length mem) \<le> int_max"
  shows "http_parse_request_line mem data_len = Some (n, Some rl) \<and> n \<le> int data_len \<longleftrightarrow>
    (\<exists>m path v rest. mem = request_line m path v @ rest \<and> SP \<notin> set m \<and> SP \<notin> set path \<and> v \<noteq> CR \<and>
      rl = line_result m path v \<and> n = int (length (request_line m path v)) \<and> n \<le> int data_len)"
proof
  assume "http_parse_request_line mem data_len = Some (n, Some rl) \<and> n \<le> int data_len"
  then show "\<exists>m path v rest. mem = request_line m path v @ rest \<and> SP \<notin> set m \<and> SP \<notin> set path \<and> v \<noteq> CR \<and>
      rl = line_result m path v \<and> n = int (length (request_line m path v)) \<and> n \<le> int data_len"
    using request_line_sound [OF _ _ assms] by blast
qed (use request_line_complete assms in auto)

lemma request_line_grammar_witness:
  "http_parse_request_line (''GET /a HTTP/1.1'' @ [CR, LF] @ ''Host: x'') 24 =
     Some (17, Some \<lparr>rl_method = 0, rl_method_len = 3, rl_path = 4, rl_path_len = 2, rl_minor = 1\<rparr>)"
proof -
  have m: "''GET /a HTTP/1.1'' @ [CR, LF] @ ''Host: x'' = request_line ''GET'' ''/a'' (CHR ''1'') @ ''Host: x''"
    by (simp add: request_line_def)
  have "schar (CHR ''1'') = 49" by code_simp
  then show ?thesis
    using request_line_grammar [of 24 "''GET /a HTTP/1.1'' @ [CR, LF] @ ''Host: x''" 17
      "line_result ''GET'' ''/a'' (CHR ''1'')"] m
    by (fastforce simp: line_result_def request_line_def int_max_def)
qed

text \<open>Memory safety of the request line: unless the last byte of the input is a CR, the parser
  returns without reading outside the input, and never reports more bytes than it was given.\<close>

lemma request_line_safe:
  assumes "data_len \<le> length mem" "data_len > 0 \<Longrightarrow> mem ! (data_len - 1) \<noteq> CR"
    "int data_len \<le> int_max"
  shows "\<exists>n out. http_parse_request_line mem data_len = Some (n, out) \<and> n \<le> int data_len \<and>
    (out = None \<longleftrightarrow> n < 0)"
proof (cases "count_list (take data_len mem) SP < 2")
  case True
  from rl_spaces_few [OF True assms(1)] obtain pos
    where pos: "rl_spaces mem data_len 0 [] = Some (data_len, pos)" "length pos < 2" by blast
  have "rl_crlf mem data_len data_len = Some None" by (subst rl_crlf.simps) simp
  with pos show ?thesis
    by (auto simp: http_parse_request_line_def split: list.splits)
next
  case False
  then obtain m path r where t: "take data_len mem = m @ SP # path @ SP # r"
    and sp: "SP \<notin> set m" "SP \<notin> set path" by (rule two_spaces)
  define b where "b = length m + length path + 1"
  have mem: "mem = m @ SP # path @ SP # (r @ drop data_len mem)"
    using t append_take_drop_id [of data_len mem] by simp
  have dl: "b < data_len" using arg_cong [OF t, of length] assms(1) by (simp add: b_def)
  have s: "rl_spaces mem data_len 0 [] = Some (b, [length m, b])"
    using rl_spaces_two [OF sp, of data_len "r @ drop data_len mem"] dl mem by (simp add: b_def)
  from rl_crlf_safe [OF assms(1,2), of b] dl
  consider "rl_crlf mem data_len b = Some None"
    | q where "rl_crlf mem data_len b = Some (Some q)" "q < data_len" by auto
  then show ?thesis
  proof cases
    case 1
    with s show ?thesis by (simp add: http_parse_request_line_def)
  next
    case 2
    show ?thesis
    proof (cases "int q - int b = 10")
      case True
      then have "b + 1 + length ''HTTP/1.'' \<le> length mem" "b + 8 < length mem" using 2(2) assms(1) by auto
      moreover have "c_int (int q + 1) = int q + 1"
        using 2(2) assms(3) by (intro c_int_id) (simp_all add: int_max_def)
      ultimately show ?thesis using expect_defined [of "b + 1" "''HTTP/1.''" mem] 2 s True
        by (auto simp: http_parse_request_line_def b_def)
    qed (use 2 s in \<open>auto simp: http_parse_request_line_def\<close>)
  qed
qed

lemma request_line_safe_witness: "\<exists>n out. http_parse_request_line ''GET /a HT'' 9 = Some (n, out) \<and> n \<le> 9"
  using request_line_safe [of 9 "''GET /a HT''"] by (auto simp: int_max_def)

text \<open>A request line cut right after its CR, in a buffer that ends there, makes the parser step
  over the end of the input and read behind the buffer.\<close>

lemma request_line_cut_at_cr:
  assumes "SP \<notin> set m" "SP \<notin> set path" "CR \<notin> set r"
  shows "http_parse_request_line (m @ SP # path @ SP # r @ [CR]) (length (m @ SP # path @ SP # r @ [CR])) = None"
proof -
  let ?mem = "m @ SP # path @ SP # r @ [CR]"
  define b where "b = length m + length path + 1"
  have s: "rl_spaces ?mem (length ?mem) 0 [] = Some (b, [length m, b])"
    using rl_spaces_two [OF assms(1,2), of "length ?mem" "r @ [CR]"] by (simp add: b_def)
  have mem: "?mem = (m @ SP # path) @ (SP # r) @ [CR]" by simp
  define N where "N = b + Suc (length r)"
  have l: "length (m @ SP # path) = b" "length ?mem = Suc N" by (simp_all add: b_def N_def)
  have "rl_crlf ?mem (Suc N) b = rl_crlf ?mem (Suc N) N"
    using rl_crlf_skip [of "SP # r" "m @ SP # path" "Suc N" "[CR]"] assms(3)
    unfolding mem [symmetric] l(1) by (simp add: N_def)
  also have "\<dots> = None"
  proof -
    have r: "rd ?mem N = Some CR"
      using rd_mid [of "(m @ SP # path) @ (SP # r)" CR "[]"] by (simp add: b_def N_def add.assoc)
    have "rd ?mem (Suc (Suc N)) = None" using l(2) by (intro rd_out) simp
    then have "rl_crlf ?mem (Suc N) (Suc (Suc N)) = None" by (subst rl_crlf.simps) simp
    with r show ?thesis by (subst rl_crlf.simps) simp
  qed
  finally show ?thesis using s unfolding l(2) by (simp add: http_parse_request_line_def)
qed

lemma request_line_cut_at_cr_witness: "http_parse_request_line (''GET /a HTTP/1.1'' @ [CR]) 16 = None"
  using request_line_cut_at_cr [of "''GET''" "''/a''" "''HTTP/1.1''"] by (simp add: eval_nat_numeral)

text \<open>The token table is the set of token characters of HTTP (RFC 7230): digits, letters and the
  fifteen marks \<open>! # $ % & ' * + - . ^ _ ` | ~\<close>.\<close>

lemma token_char_map_tchar:
  "token_char c \<longleftrightarrow> 48 \<le> uchar c \<and> uchar c \<le> 57 \<or> 65 \<le> uchar c \<and> uchar c \<le> 90 \<or>
     97 \<le> uchar c \<and> uchar c \<le> 122 \<or> uchar c \<in> set [33, 35, 36, 37, 38, 39, 42, 43, 45, 46, 94, 95, 96, 124, 126]"
  (is "_ \<longleftrightarrow> ?P (uchar c)")
proof -
  define f where "f = (\<lambda>n. if ?P n then 1 else (0::nat))"
  have "token_char_map = map (\<lambda>n. if ?P n then 1 else 0) [0..<256]"
    by code_simp
  then have "token_char_map = map f [0..<256]" by (simp only: f_def)
  moreover have "map f [0..<256] ! uchar c = f (uchar c)"
    using uchar_less [of c] by (subst nth_map) (simp_all only: length_upt nth_upt diff_zero add_0)
  ultimately have "token_char_map ! uchar c = (if ?P (uchar c) then 1 else 0)"
    by (simp only: f_def)
  then show ?thesis by (simp add: token_char_def)
qed

text \<open>C17. Round trip for header fields: a block of well-formed fields, closed by an empty line, is parsed
  into exactly their names and values, whatever follows it; the return value is the length of the
  fields, without the empty line.\<close>

theorem parse_header_roundtrip:
  assumes "fs \<noteq> []" "list_all good_field fs" "int (length fs) \<le> max_header"
    "length (header_block fs) + 2 \<le> data_len" "int (length (header_block fs)) \<le> int_max"
  shows "\<exists>hs. http_parse_header (header_block fs @ CR # LF # body) data_len max_header =
      Some (int (length (header_block fs)), hs) \<and>
    map (header_strings (header_block fs @ CR # LF # body)) hs = map (\<lambda>(n, w, v). (n, v)) fs"
  using assms(5) parse_header_fields [OF assms(1,2,4,3)] field_headers_strings [of "[]" fs "CR # LF # body"]
  by auto

lemma parse_header_roundtrip_witness:
  "\<exists>hs. http_parse_header (''Host: a'' @ [CR, LF] @ ''X:'' @ [CR, LF, CR, LF]) 15 8 = Some (13, hs) \<and>
    map (header_strings (''Host: a'' @ [CR, LF] @ ''X:'' @ [CR, LF, CR, LF])) hs =
      [(''Host'', ''a''), (''X'', [])]"
proof -
  have "good_field (''Host'', '' '', ''a'')" "good_field (''X'', [], [])" by code_simp+
  then show ?thesis
    using parse_header_roundtrip [of "[(''Host'', '' '', ''a''), (''X'', [], [])]" 8 15 "[]"]
    by (simp add: int_max_def)
qed

text \<open>A field whose value is only whitespace gets a value length of \<open>2^64\<close> minus the number of
  blanks: the end of the value is searched backwards over the blanks that its start skipped.\<close>

lemma blank_value_length:
  assumes "list_all token_char n" "list_all is_ws w" "w \<noteq> []" "length w < 2 ^ 64"
    "length n + length w + 5 \<le> data_len" "0 < max_header"
    "int (length n + length w + 3) \<le> int_max"
  shows "http_parse_header (n @ CHR '':'' # w @ [CR, LF, CR, LF] @ body) data_len max_header =
    Some (int (length n + length w + 3),
      [\<lparr>h_name = 0, h_name_len = length n, h_value = length n + 1 + length w, h_value_len = 2 ^ 64 - length w\<rparr>])"
proof -
  let ?mem = "n @ CHR '':'' # w @ [CR, LF, CR, LF] @ body"
  let ?st = "\<lparr>hl_p = 0, hl_p1 = 0, hl_hdrs = [], hl_read = -2\<rparr>"
  let ?t = "length n + length w + 3"
  have c: "hp_colon ?mem 0 True = Some (length n, True)"
    using hp_colon_token [OF assms(1), of "[]" "w @ [CR, LF, CR, LF] @ body" True] by simp
  have e: "hp_eol ?mem data_len (length n) = Some (length n + length w + 2)"
    using hp_eol_line [of "CHR '':'' # w" n data_len "CR # LF # body"] assms(2,5) by (auto dest: ws_no_CR)
  have h: "mk_header ?mem 0 (length n) (length n + length w + 2) =
      Some \<lparr>h_name = 0, h_name_len = length n, h_value = length n + 1 + length w, h_value_len = 2 ^ 64 - length w\<rparr>"
    using mk_header_line [of w "[]" "[]" n "LF # CR # LF # body"] assms(2,3) by (simp add: sz_sub_def)
  have r: "rd ?mem ?t = Some CR" "rd ?mem (?t + 1) = Some LF"
    using rd_mid [of "n @ CHR '':'' # w @ [CR, LF]" CR "LF # body"]
      rd_mid [of "n @ CHR '':'' # w @ [CR, LF, CR]" LF body] by (simp_all add: eval_nat_numeral)
  have "\<exists>c. rd ?mem 0 = Some c \<and> c \<noteq> SP \<and> c \<noteq> TAB"
    using assms(1) token_char_facts by (cases n) auto
  then obtain c1 where c1: "rd ?mem 0 = Some c1" "c1 \<noteq> SP" "c1 \<noteq> TAB" by blast
  have "hdr_step ?mem data_len max_header ?st = Some (True, ?st\<lparr>hl_p := ?t + 1,
      hl_hdrs := [] @ [\<lparr>h_name = 0, h_name_len = length n, h_value = length n + 1 + length w,
        h_value_len = 2 ^ 64 - length w\<rparr>], hl_read := int ?t\<rparr>)"
    using hdr_step_line(3) [of ?mem ?st "length n" data_len "length n + length w + 2" ?t _ c1 max_header]
      c e h c1 r assms(5-7) by simp
  then show ?thesis using assms(5)
    by (subst http_parse_header_def, subst hdr_run.simps) simp
qed

lemma blank_value_length_witness:
  "http_parse_header (''A: '' @ [CR, LF, CR, LF]) 7 8 =
    Some (5, [\<lparr>h_name = 0, h_name_len = 1, h_value = 3, h_value_len = 18446744073709551615\<rparr>])"
proof -
  have "list_all token_char ''A''" by code_simp
  then show ?thesis using blank_value_length [of "''A''" "'' ''" 7 8 "[]"]
    by (simp add: int_max_def numeral_3_eq_3)
qed

text \<open>A header block whose last line has no colon (such as a folded line, a bare word, or the empty
  line of a request without headers) makes the search for the colon run out of the buffer.\<close>

lemma parse_header_no_colon:
  assumes "list_all good_field fs" "w \<noteq> []" "CHR '':'' \<notin> set w" "fs \<noteq> [] \<Longrightarrow> hd w \<noteq> CR"
    "int (length fs) \<le> max_header"
  shows "http_parse_header (header_block fs @ w) (length (header_block fs @ w)) max_header = None"
proof -
  let ?mem = "header_block fs @ w" and ?st = "\<lparr>hl_p = 0, hl_p1 = 0, hl_hdrs = [], hl_read = -2\<rparr>"
  obtain d post where w: "w = d # post" using assms(2) by (cases w) auto
  have "\<exists>st'. hdr_run ?mem (length ?mem) max_header ?st = hdr_run ?mem (length ?mem) max_header st' \<and>
      hl_p1 st' = length (header_block fs) \<and> hl_p st' \<noteq> length ?mem"
  proof (cases "fs = []")
    case True
    then show ?thesis using w by (intro exI [of _ ?st]) simp
  next
    case False
    then show ?thesis
      using hdr_run_prefix [of ?mem "[]" fs d post "length ?mem" ?st max_header] assms w by simp
  qed
  then obtain st' where st': "hdr_run ?mem (length ?mem) max_header ?st = hdr_run ?mem (length ?mem) max_header st'"
    "hl_p1 st' = length (header_block fs)" "hl_p st' \<noteq> length ?mem" by blast
  have "hdr_step ?mem (length ?mem) max_header st' = None"
    using hp_colon_none [OF assms(3), of "header_block fs" True] st'(2) by (simp add: hdr_step_no_colon)
  with st'(3) have "hdr_run ?mem (length ?mem) max_header st' = None"
    by (subst hdr_run.simps) simp
  with st'(1) show ?thesis by (simp add: http_parse_header_def)
qed

lemma parse_header_no_colon_witness: "http_parse_header [CR, LF] 2 64 = None"
  using parse_header_no_colon [of "[]" "[CR, LF]" 64] by (simp add: eval_nat_numeral)

text \<open>\<open>str_parse_hex\<close> reads its digits in the wrong order: the value of up to seven hexadecimal digits
  is the number written by their reversal.\<close>

lemma str_parse_hex_reversed:
  assumes "map hex_digit cs = map Some ds" "length cs \<le> 7"
  shows "str_parse_hex cs = Some (big_endian (rev ds))"
  using hex_loop_digits [OF assms(1), of 0 0] assms(2) by (simp add: str_parse_hex_def big_endian_rev)

lemma str_parse_hex_reversed_witness: "str_parse_hex ''1a'' = Some 161 \<and> big_endian [1, 10] = 26"
proof -
  have "map hex_digit ''1a'' = map Some [1, 10]" by code_simp
  from str_parse_hex_reversed [OF this] show ?thesis by (simp add: big_endian_def)
qed

text \<open>\<open>http_decode_chunked\<close> on a size line of hexadecimal digits: the (reversed) size and the offset
  of the chunk's data; the last chunk, of size 0, gives the same -1 as a malformed line.\<close>

lemma decode_chunked_size:
  assumes "map hex_digit cs = map Some ds" "length cs \<le> 7" "cs \<noteq> []" "length cs < data_len"
  shows "http_decode_chunked (cs @ CR # rest) data_len =
    Some (if big_endian (rev ds) > 0 then (big_endian (rev ds), Some (int (length cs) + 2)) else (-1, None))"
proof -
  have "hex_digit CR = None" by code_simp
  then have "CR \<notin> set cs" using assms(1) by (metis (no_types) image_eqI imageE list.set_map option.simps(3))
  then have "chunk_scan (cs @ CR # rest) data_len 0 = chunk_scan (cs @ CR # rest) data_len (length cs)"
    using chunk_scan_skip [of cs "[]" data_len rest] assms(4) by simp
  also have "\<dots> = Some (if big_endian (rev ds) > 0 then (big_endian (rev ds), Some (int (length cs) + 2)) else (-1, None))"
  proof -
    have "c_int (int (length cs)) = int (length cs)" "c_int (int (length cs) + 2) = int (length cs) + 2"
      using assms(2) by (auto simp: int_max_def intro!: c_int_id)
    then show ?thesis
      using assms hex_loop_digits [OF assms(1), of 0 0]
      by (subst chunk_scan.simps) (simp add: str_parse_hex_def big_endian_rev)
  qed
  finally show ?thesis by (simp add: http_decode_chunked_def)
qed

lemma decode_chunked_size_witness: "http_decode_chunked (''10'' @ CR # LF # ''xyz'') 7 = Some (1, Some 4)"
proof -
  have "map hex_digit ''10'' = map Some [1, 0]" by code_simp
  from decode_chunked_size [OF this, of 7 "LF # ''xyz''"] show ?thesis by (simp add: big_endian_def)
qed

end
