(* ===== verification/HttpParserServer.thy ===== *)
theory HttpParserServer
  imports HttpParser
begin

text \<open>
  The later version of the parser, \<open>server/http_parser.c\<close>: \<open>http_parse_request_line\<close>,
  \<open>http_parse_header\<close>, \<open>str_parse_hex\<close> and \<open>http_parse_chunked\<close>, and \<open>http_parse_request\<close> of
  \<open>server/test.c\<close> and \<open>server/bench.c\<close>, which composes them.

  The return code tells a complete input (0), an incomplete one (1) and a malformed one (-1), and the
  number of bytes read is an output. A folded header line and the data of a chunk are moved inside
  the input buffer, so the buffer is part of the result. The loops of the request line, of which the two
  files have the same text, are those of the theory \<open>HttpParser\<close>.
\<close>

section \<open>Request line\<close>

text \<open>Return code, \<open>*read_len\<close>, and the other outputs where the code sets them.\<close>

definition sv_parse_request_line :: "string \<Rightarrow> nat \<Rightarrow> (int \<times> nat \<times> req_line option) option" where
  "sv_parse_request_line mem data_len = do {
     (p, pos) \<leftarrow> rl_spaces mem data_len 0 [];
     crlf \<leftarrow> rl_crlf mem data_len p;
     (case (pos, crlf) of
        ([pos0, pos1], Some pos2) \<Rightarrow>
          if int pos2 - int pos1 \<noteq> 10 then Some (-1, 0, None)
          else do {
            ok \<leftarrow> expect mem (pos1 + 1) ''HTTP/1.'';
            if \<not> ok then Some (-1, 0, None)
            else do {
              v \<leftarrow> rd mem (pos1 + 8);
              Some (0, pos2 + 1,
                Some \<lparr>rl_method = 0, rl_method_len = pos0, rl_path = pos0 + 1,
                      rl_path_len = pos1 - (pos0 + 1), rl_minor = schar v - 48\<rparr>)
            }
          }
      | _ \<Rightarrow> Some (1, 0, None))
   }"

section \<open>Header fields\<close>

text \<open>The state of the outer loop: the buffer, \<open>p\<close>, \<open>p1\<close>, the headers stored (\<open>i\<close> is their number)
  and \<open>*read_len\<close>.\<close>

record sv_loop =
  sl_mem :: string
  sl_p :: nat
  sl_p1 :: nat
  sl_hdrs :: "http_header list"
  sl_read :: nat

text \<open>A folded line: its bytes, up to the CR, are moved behind the value of the last header.\<close>

definition sv_fold :: "string \<Rightarrow> http_header list \<Rightarrow> nat \<Rightarrow> nat \<Rightarrow> (string \<times> http_header list) option" where
  "sv_fold mem hs p1 p =
     (let t = p1 + 1; len = c_int (int p - int t - 1); h = last hs in
      if len > 0 then do {
        mem' \<leftarrow> memmove mem (h_value h + h_value_len h) t (nat len);
        Some (mem', add_value_len (nat len) hs)
      }
      else Some (mem, hs))"

lemma sv_fold_length: "sv_fold mem hs p1 p = Some (m, hs') \<Longrightarrow> length m = length mem"
  by (auto simp: sv_fold_def Let_def split: if_splits Option.bind_splits dest: memmove_length)

text \<open>What a pass does after the line, apart from the line itself.\<close>

definition sv_line :: "int \<Rightarrow> sv_loop \<Rightarrow> nat \<Rightarrow> nat \<Rightarrow> bool \<Rightarrow> (string \<times> http_header list) option" where
  "sv_line max_header st p2 p3 is_token = do {
     c1 \<leftarrow> rd (sl_mem st) (sl_p1 st);
     (if c1 \<noteq> SP \<and> c1 \<noteq> TAB then
        (if is_token \<and> int (length (sl_hdrs st)) < max_header then do {
           h \<leftarrow> mk_header (sl_mem st) (sl_p1 st) p2 p3;
           Some (sl_mem st, sl_hdrs st @ [h])
         }
         else Some (sl_mem st, sl_hdrs st))
      else if sl_hdrs st \<noteq> [] then sv_fold (sl_mem st) (sl_hdrs st) (sl_p1 st) p3
      else Some (sl_mem st, sl_hdrs st))
   }"

definition sv_next :: "nat \<Rightarrow> sv_loop \<Rightarrow> nat \<Rightarrow> (bool \<times> sv_loop) option" where
  "sv_next end st t =
     (if t \<noteq> end then do {
        c \<leftarrow> rd (sl_mem st) t;
        if c = CR then
          (if t + 1 \<noteq> end then do {
             d \<leftarrow> rd (sl_mem st) (t + 1);
             Some (if d = LF then (True, st\<lparr>sl_p := t + 1, sl_read := t + 2\<rparr>)
                   else (False, st\<lparr>sl_p := t + 1, sl_p1 := t\<rparr>))
           }
           else Some (False, st\<lparr>sl_p := t + 1, sl_p1 := t\<rparr>))
        else Some (False, st\<lparr>sl_p1 := t\<rparr>)
      }
      else Some (False, st))"

text \<open>One pass of the outer loop: \<^term>\<open>True\<close> for \<open>return 0\<close> after the empty line. As in the other
  version, the scan for CRLF ends only with \<open>p3\<close> set, so the branch \<open>return -1\<close> is dead.\<close>

definition sv_step :: "nat \<Rightarrow> int \<Rightarrow> sv_loop \<Rightarrow> (bool \<times> sv_loop) option" where
  "sv_step end max_header st = do {
     (p2, is_token) \<leftarrow> hp_colon (sl_mem st) (sl_p1 st) True;
     p3 \<leftarrow> hp_eol (sl_mem st) end p2;
     (mem', hdrs) \<leftarrow> sv_line max_header st p2 p3 is_token;
     let t = p3 + 1;
     sv_next end (st\<lparr>sl_mem := mem', sl_p := t, sl_hdrs := hdrs, sl_read := t\<rparr>) t
   }"

lemma sv_line_length: "sv_line mx st p2 p3 tk = Some (m, hs) \<Longrightarrow> length m = length (sl_mem st)"
  by (auto simp: sv_line_def split: if_splits Option.bind_splits dest: sv_fold_length)

lemma sv_next_mono:
  "sv_next end st t = Some (False, st') \<Longrightarrow> (sl_p st' = sl_p st \<and> t = end \<or> sl_p1 st' = t) \<and> sl_mem st' = sl_mem st"
  by (auto simp: sv_next_def split: if_splits Option.bind_splits)

lemma sv_step_progress:
  assumes "sv_step end max_header st = Some (False, st')"
  shows "sl_p st' = end \<or> sl_p1 st < length (sl_mem st) \<and> sl_p1 st < sl_p1 st'"
    and "length (sl_mem st') = length (sl_mem st)"
proof -
  from assms obtain p2 tk p3 m hs where
    s: "hp_colon (sl_mem st) (sl_p1 st) True = Some (p2, tk)" "hp_eol (sl_mem st) end p2 = Some p3"
    "sv_line max_header st p2 p3 tk = Some (m, hs)"
    "sv_next end (st\<lparr>sl_mem := m, sl_p := p3 + 1, sl_hdrs := hs, sl_read := p3 + 1\<rparr>) (p3 + 1) = Some (False, st')"
    by (auto simp: sv_step_def Let_def split: Option.bind_splits)
  then have "sl_p1 st < p3 + 1" "sl_p1 st < length (sl_mem st)"
    using hp_colon_ge [OF s(1)] hp_eol_ge [OF s(2)] by auto
  with sv_next_mono [OF s(4)] sv_line_length [OF s(3)]
  show "sl_p st' = end \<or> sl_p1 st < length (sl_mem st) \<and> sl_p1 st < sl_p1 st'"
    "length (sl_mem st') = length (sl_mem st)" by auto
qed

function sv_run :: "nat \<Rightarrow> int \<Rightarrow> sv_loop \<Rightarrow> (int \<times> sv_loop) option" where
  "sv_run end max_header st =
     (if sl_p st = end then Some (1, st)
      else case sv_step end max_header st of
        None \<Rightarrow> None
      | Some (done, st') \<Rightarrow> if done then Some (0, st') else sv_run end max_header st')"
  by pat_completeness auto
termination
proof (relation "measure (\<lambda>(end, m, st). if sl_p st = end then 0 else Suc (length (sl_mem st) - sl_p1 st))")
  fix "end" max_header st x ret st'
  assume "sl_p st \<noteq> end" "sv_step end max_header st = Some x" "(ret, st') = x" "\<not> ret"
  then show "((end, max_header, st'), (end, max_header, st))
      \<in> measure (\<lambda>(end, m, st). if sl_p st = end then 0 else Suc (length (sl_mem st) - sl_p1 st))"
    using sv_step_progress [of "end" max_header st st'] by auto
qed simp

declare sv_run.simps [simp del]

text \<open>Return code, \<open>*read_len\<close>, headers (their number is \<open>*nheader\<close>), and the buffer afterwards.\<close>

definition sv_parse_header :: "string \<Rightarrow> nat \<Rightarrow> int \<Rightarrow> (int \<times> nat \<times> http_header list \<times> string) option" where
  "sv_parse_header mem data_len max_header = do {
     (ret, st) \<leftarrow> sv_run data_len max_header
       \<lparr>sl_mem = mem, sl_p = 0, sl_p1 = 0, sl_hdrs = [], sl_read = 0\<rparr>;
     Some (ret, sl_read st, sl_hdrs st, sl_mem st)
   }"

section \<open>Chunked bodies\<close>

text \<open>Adding an \<open>int\<close>, \<open>n << base\<close>, to a \<open>size_t\<close>; the shift is undefined when it leaves the range of
  \<open>int\<close>. The error result is \<^term>\<open>Some None\<close>.\<close>

fun sv_hex_loop :: "string \<Rightarrow> nat \<Rightarrow> nat \<Rightarrow> nat option option" where
  "sv_hex_loop [] base result = Some (Some result)"
| "sv_hex_loop (c # cs) base result =
     (case hex_digit c of
        None \<Rightarrow> Some None
      | Some n \<Rightarrow> do { v \<leftarrow> shl_int n base; sv_hex_loop cs (base + 4) (sz_add result (nat v)) })"

definition sv_str_parse_hex :: "string \<Rightarrow> nat option option" where
  "sv_str_parse_hex data = sv_hex_loop data 0 0"

record chunk_state =
  ck_mem :: string
  ck_len :: nat
  ck_read :: nat
  ck_p1 :: nat
  ck_p2 :: "nat option"

text \<open>The loop, at index \<open>i\<close>. Sizes are added in \<open>size_t\<close>. After a chunk, \<open>i = s\<close> and the loop's \<open>i++\<close>
  go on one byte after the chunk's end. (A sum \<open>s\<close> that wraps to \<open>i\<close> or less comes with an \<open>n\<close> that
  no object can hold, so the \<open>memmove\<close> before is already undefined.)\<close>

function sv_chunks :: "nat \<Rightarrow> nat \<Rightarrow> chunk_state \<Rightarrow> (int \<times> chunk_state) option" where
  "sv_chunks data_len i st =
     (if i < data_len then
        (case rd (ck_mem st) i of
           None \<Rightarrow> None
         | Some c \<Rightarrow>
             if c = CHR '';'' then sv_chunks data_len (Suc i) (st\<lparr>ck_p2 := Some i\<rparr>)
             else if c = CR then
               (let d = c_int (int (case ck_p2 st of None \<Rightarrow> i | Some p2 \<Rightarrow> p2) - int (ck_p1 st)) in
                if d > 0 then
                  (case sv_str_parse_hex (take (nat d) (drop (ck_p1 st) (ck_mem st))) of
                     None \<Rightarrow> None
                   | Some None \<Rightarrow> Some (-1, st)
                   | Some (Some n) \<Rightarrow>
                       (let s = sz_add (i + 2) (sz_add n 2) in
                        if s \<le> data_len then
                          (if n > 0 then
                             (case memmove (ck_mem st) (ck_len st) (i + 2) n of
                                None \<Rightarrow> None
                              | Some m \<Rightarrow>
                                  if s \<le> i then None
                                  else sv_chunks data_len (Suc s)
                                    (st\<lparr>ck_mem := m, ck_len := ck_len st + n, ck_read := s, ck_p1 := s, ck_p2 := None\<rparr>))
                           else Some (0, st\<lparr>ck_read := i + 2\<rparr>))
                        else Some (1, st)))
                else Some (-1, st))
             else sv_chunks data_len (Suc i) st)
      else Some (0, st))"
  by pat_completeness auto
termination
  by (relation "measure (\<lambda>(data_len, i, st). data_len - i)") auto

declare sv_chunks.simps [simp del]

text \<open>Return code, \<open>*body_len\<close> (the body starts at \<open>data\<close>), \<open>*read_len\<close>, buffer.\<close>

definition sv_parse_chunked :: "string \<Rightarrow> nat \<Rightarrow> (int \<times> nat \<times> nat \<times> string) option" where
  "sv_parse_chunked mem data_len = do {
     (ret, st) \<leftarrow> sv_chunks data_len 0 \<lparr>ck_mem = mem, ck_len = 0, ck_read = 0, ck_p1 = 0, ck_p2 = None\<rparr>;
     Some (ret, ck_len st, ck_read st, ck_mem st)
   }"

section \<open>A whole request\<close>

text \<open>A failed \<open>assert\<close> aborts the program.\<close>

datatype 'a run = Abort | Returns 'a

record request =
  rq_line :: req_line
  rq_headers :: "http_header list"
  rq_body :: "(nat \<times> nat) option"
  rq_read :: nat
  rq_mem :: string

definition shift_header :: "nat \<Rightarrow> http_header \<Rightarrow> http_header" where
  "shift_header n h = h\<lparr>h_name := h_name h + n, h_value := h_value h + n\<rparr>"

definition http_parse_request :: "string \<Rightarrow> nat \<Rightarrow> int \<Rightarrow> request run option" where
  "http_parse_request mem data_len max_header = do {
     (ret, len, rl) \<leftarrow> sv_parse_request_line mem data_len;
     (case rl of
        Some line \<Rightarrow>
          if ret \<noteq> 0 then Some Abort
          else do {
            (ret, len2, hs, m) \<leftarrow> sv_parse_header (drop len mem) (data_len - len) max_header;
            if ret \<noteq> 0 then Some Abort
            else
              let r = len + len2 in
              Some (Returns \<lparr>rq_line = line, rq_headers = map (shift_header len) hs,
                rq_body = (if r < data_len then Some (r, data_len - r) else None), rq_read = r,
                rq_mem = take len mem @ m\<rparr>)
          }
      | None \<Rightarrow> Some Abort)
   }"

section \<open>Lemmas about the header loop\<close>

lemma sv_next_line:
  "t = end \<Longrightarrow> sv_next end st t = Some (False, st)"
  "t \<noteq> end \<Longrightarrow> rd (sl_mem st) t = Some c \<Longrightarrow> c \<noteq> CR \<Longrightarrow> sv_next end st t = Some (False, st\<lparr>sl_p1 := t\<rparr>)"
  "t \<noteq> end \<Longrightarrow> rd (sl_mem st) t = Some CR \<Longrightarrow> t + 1 \<noteq> end \<Longrightarrow> rd (sl_mem st) (t + 1) = Some LF \<Longrightarrow>
     sv_next end st t = Some (True, st\<lparr>sl_p := t + 1, sl_read := t + 2\<rparr>)"
  by (simp_all add: sv_next_def)

lemma sv_line_good:
  assumes "mk_header (sl_mem st) (sl_p1 st) p2 p3 = Some h" "rd (sl_mem st) (sl_p1 st) = Some c1"
    "c1 \<noteq> SP" "c1 \<noteq> TAB" "int (length (sl_hdrs st)) < max_header"
  shows "sv_line max_header st p2 p3 True = Some (sl_mem st, sl_hdrs st @ [h])"
  using assms by (simp add: sv_line_def)

text \<open>One pass over a well-formed line.\<close>

lemma sv_step_good:
  assumes "sl_mem st = pre @ field_line f @ post" "good_field f" "length (pre @ field_line f) \<le> end"
    "sl_p1 st = length pre" "int (length (sl_hdrs st)) < max_header" "t = length (pre @ field_line f)"
  shows "sv_step end max_header st =
    sv_next end (st\<lparr>sl_p := t, sl_hdrs := sl_hdrs st @ [field_header (length pre) f], sl_read := t\<rparr>) t"
proof -
  obtain p2 p3 c where sc: "hp_colon (sl_mem st) (sl_p1 st) True = Some (p2, True)"
    "hp_eol (sl_mem st) end p2 = Some p3" "p3 + 1 = t"
    "mk_header (sl_mem st) (sl_p1 st) p2 p3 = Some (field_header (length pre) f)"
    "rd (sl_mem st) (sl_p1 st) = Some c" "c \<noteq> SP" "c \<noteq> TAB"
    using good_line_scans [OF assms(2,3,1)] assms(4,6) by auto
  have "p3 + 1 = t" "Suc p3 = t" using sc(3) by simp_all
  with sc(1,2) sv_line_good [OF sc(4,5,6,7) assms(5)] show ?thesis
    by (simp add: sv_step_def)
qed

lemma first_not_CR:
  assumes "list_all good_field fs" "d \<noteq> CR"
  shows "\<exists>e xs. header_block fs @ d # post = e # xs \<and> e \<noteq> CR"
proof (cases fs)
  case (Cons g gs)
  obtain n w v where g: "g = (n, w, v)" by (cases g)
  show ?thesis using assms(1) token_char_facts(1) unfolding Cons g by (cases n) auto
qed (use assms(2) in auto)

text \<open>The loop passes well-formed lines, whatever non-empty line follows.\<close>

lemma sv_run_prefix:
  assumes "sl_mem st = pre @ header_block fs @ d # post" "d \<noteq> CR" "list_all good_field fs"
    "length (pre @ header_block fs) < end" "sl_p1 st = length pre" "sl_p st \<noteq> end"
    "int (length (sl_hdrs st) + length fs) \<le> max_header"
  shows "\<exists>p r. p \<noteq> end \<and> sv_run end max_header st = sv_run end max_header
    (st\<lparr>sl_p := p, sl_p1 := length (pre @ header_block fs), sl_hdrs := sl_hdrs st @ field_headers (length pre) fs,
       sl_read := r\<rparr>)"
  using assms
proof (induction fs arbitrary: pre st)
  case Nil
  then show ?case
    by (intro exI [of _ "sl_p st"] exI [of _ "sl_read st"]) (cases st, simp)
next
  case (Cons f fs)
  define t where "t = length (pre @ field_line f)"
  let ?st = "st\<lparr>sl_p := t, sl_hdrs := sl_hdrs st @ [field_header (length pre) f], sl_read := t\<rparr>"
  have tend: "t < end" using Cons.prems(4) by (simp add: t_def)
  have s: "sv_step end max_header st = sv_next end ?st t"
    using Cons.prems tend by (intro sv_step_good [of st pre f "header_block fs @ d # post"]) (auto simp: t_def)
  have gf: "list_all good_field fs" using Cons.prems(3) by simp
  obtain e xs where e: "header_block fs @ d # post = e # xs" "e \<noteq> CR"
    using first_not_CR [OF gf Cons.prems(2)] by blast
  have "sl_mem st = (pre @ field_line f) @ e # xs" using Cons.prems(1) e(1) by simp
  then have "rd (sl_mem ?st) t = Some e"
    using rd_mid [of "pre @ field_line f" e xs] by (simp add: t_def del: append_assoc)
  with s tend e(2) have "sv_step end max_header st = Some (False, ?st\<lparr>sl_p1 := t\<rparr>)"
    using sv_next_line(2) [of t "end" ?st e] by simp
  then have r: "sv_run end max_header st = sv_run end max_header (?st\<lparr>sl_p1 := t\<rparr>)"
    using Cons.prems(6) by (subst sv_run.simps) simp
  have "\<exists>p r. p \<noteq> end \<and> sv_run end max_header (?st\<lparr>sl_p1 := t\<rparr>) = sv_run end max_header
    ((?st\<lparr>sl_p1 := t\<rparr>)\<lparr>sl_p := p, sl_p1 := length ((pre @ field_line f) @ header_block fs),
      sl_hdrs := sl_hdrs (?st\<lparr>sl_p1 := t\<rparr>) @ field_headers (length (pre @ field_line f)) fs, sl_read := r\<rparr>)"
    using Cons.prems tend by (intro Cons.IH) (auto simp: t_def)
  then show ?case unfolding r by simp
qed

lemma sv_run_last:
  assumes "sl_mem st = pre @ field_line f @ CR # LF # post" "good_field f"
    "length (pre @ field_line f) + 2 \<le> end" "sl_p1 st = length pre" "sl_p st \<noteq> end"
    "int (length (sl_hdrs st)) < max_header"
  shows "sv_run end max_header st = Some (0, st\<lparr>sl_p := length (pre @ field_line f) + 1,
    sl_hdrs := sl_hdrs st @ [field_header (length pre) f], sl_read := length (pre @ field_line f) + 2\<rparr>)"
proof -
  define t where "t = length (pre @ field_line f)"
  let ?st = "st\<lparr>sl_p := t, sl_hdrs := sl_hdrs st @ [field_header (length pre) f], sl_read := t\<rparr>"
  have tend: "t + 2 \<le> end" using assms(3) by (simp add: t_def)
  have s: "sv_step end max_header st = sv_next end ?st t"
    using assms tend by (intro sv_step_good [of st pre f "CR # LF # post"]) (auto simp: t_def)
  have "rd (sl_mem ?st) t = Some CR" "rd (sl_mem ?st) (t + 1) = Some LF"
    using rd_mid [of "pre @ field_line f" CR "LF # post"] rd_mid [of "pre @ field_line f @ [CR]" LF post]
    by (simp_all add: t_def assms(1))
  from sv_next_line(3) [of t "end" ?st, OF _ this(1) _ this(2)] s tend
  have "sv_step end max_header st = Some (True, ?st\<lparr>sl_p := t + 1, sl_read := t + 2\<rparr>)" by simp
  then show ?thesis using assms(5) by (subst sv_run.simps) (simp add: t_def)
qed

lemma field_headers_append:
  "field_headers off (fs @ gs) = field_headers off fs @ field_headers (off + length (header_block fs)) gs"
  by (induction fs arbitrary: off) (auto simp: add.assoc)

lemma header_block_append [simp]: "header_block (fs @ gs) = header_block fs @ header_block gs"
  by (simp add: header_block_def)

lemma sv_parse_header_fields:
  assumes "fs \<noteq> []" "list_all good_field fs" "length (header_block fs) + 2 \<le> data_len"
    "int (length fs) \<le> max_header"
  shows "sv_parse_header (header_block fs @ CR # LF # post) data_len max_header =
    Some (0, length (header_block fs) + 2, field_headers 0 fs, header_block fs @ CR # LF # post)"
proof -
  let ?st = "\<lparr>sl_mem = header_block fs @ CR # LF # post, sl_p = 0, sl_p1 = 0, sl_hdrs = [], sl_read = 0\<rparr>"
  from assms(1) obtain gs f where fs: "fs = gs @ [f]" by (cases fs rule: rev_cases) auto
  have good: "list_all good_field gs" "good_field f" using assms(2) by (simp_all add: fs)
  obtain n w v where f: "f = (n, w, v)" by (cases f)
  have "\<exists>d xs. field_line f = d # xs \<and> d \<noteq> CR"
    using good(2) token_char_facts(1) unfolding f by (cases n) auto
  then obtain d xs where d: "field_line f = d # xs" "d \<noteq> CR" by blast
  have "\<exists>p r. p \<noteq> data_len \<and> sv_run data_len max_header ?st = sv_run data_len max_header
      (?st\<lparr>sl_p := p, sl_p1 := length ([] @ header_block gs), sl_hdrs := sl_hdrs ?st @ field_headers (length []) gs,
        sl_read := r\<rparr>)"
    using sv_run_prefix [of ?st "[]" gs d "xs @ CR # LF # post" data_len max_header] assms(3,4) good(1) d
    by (simp add: fs)
  then obtain p r where p: "p \<noteq> data_len" "sv_run data_len max_header ?st = sv_run data_len max_header
      (?st\<lparr>sl_p := p, sl_p1 := length (header_block gs), sl_hdrs := field_headers 0 gs, sl_read := r\<rparr>)" by auto
  show ?thesis
    using sv_run_last [of "?st\<lparr>sl_p := p, sl_p1 := length (header_block gs), sl_hdrs := field_headers 0 gs, sl_read := r\<rparr>"
      "header_block gs" f post data_len max_header] assms(3,4) good(2) p
    by (simp add: sv_parse_header_def fs field_headers_append)
qed

section \<open>The two versions of the request line\<close>

text \<open>The return value of the other version, from the code and the length of this one.\<close>

definition line_code :: "int \<Rightarrow> nat \<Rightarrow> int" where
  "line_code ret n = (if ret = 0 then c_int (int n) else if ret = 1 then -2 else -1)"

lemma line_versions:
  "http_parse_request_line mem data_len =
     map_option (\<lambda>(ret, n, rl). (line_code ret n, rl)) (sv_parse_request_line mem data_len)"
proof (cases "rl_spaces mem data_len 0 []")
  case (Some a)
  obtain p pos where a: "a = (p, pos)" by (cases a)
  show ?thesis
  proof (cases "rl_crlf mem data_len p")
    case None
    then show ?thesis by (simp add: http_parse_request_line_def sv_parse_request_line_def Some a)
  next
    case (Some c)
    then show ?thesis
      by (auto simp: http_parse_request_line_def sv_parse_request_line_def \<open>rl_spaces mem data_len 0 [] = Some a\<close> a
        line_code_def add.commute split: list.splits option.splits Option.bind_splits simp del: c_int_id)
  qed
qed (simp add: http_parse_request_line_def sv_parse_request_line_def)

lemma sv_request_line_complete:
  assumes "SP \<notin> set m" "SP \<notin> set path" "v \<noteq> CR"
    "length (request_line m path v) \<le> data_len" "data_len \<le> length (request_line m path v @ rest)"
    "int (length (request_line m path v)) \<le> int_max"
  shows "sv_parse_request_line (request_line m path v @ rest) data_len =
    Some (0, length (request_line m path v), Some (line_result m path v))"
proof -
  let ?mem = "request_line m path v @ rest"
  obtain ret n rl where r: "sv_parse_request_line ?mem data_len = Some (ret, n, rl)"
    "line_code ret n = int (length (request_line m path v))" "rl = Some (line_result m path v)"
    using request_line_complete [OF assms] unfolding line_versions [of ?mem] by auto
  have "ret = 0 \<and> (\<exists>q. rl_crlf ?mem data_len (length m + length path + 1) = Some (Some q) \<and> n = q + 1 \<and> q = length m + length path + 11)"
  proof -
    have "rl_spaces ?mem data_len 0 [] = Some (length m + length path + 1, [length m, length m + length path + 1])"
      using rl_spaces_two [OF assms(1,2), of data_len "''HTTP/1.'' @ [v, CR, LF] @ rest"] assms(4)
      by (simp add: request_line_def)
    with r(1,3) show ?thesis
      by (auto simp: sv_parse_request_line_def split: Option.bind_splits option.splits if_splits)
  qed
  with r show ?thesis by (simp add: request_line_def)
qed

section \<open>Hexadecimal sizes and chunks\<close>

lemma sv_hex_loop_digits:
  assumes "map hex_digit cs = map Some ds" "base + 4 * length cs \<le> 28" "r < 2 ^ base"
  shows "sv_hex_loop cs base r = Some (Some (r + 2 ^ base * nat (little_endian ds)))"
  using assms
proof (induction cs arbitrary: base r ds)
  case (Cons c cs)
  then obtain d ds' where ds: "ds = d # ds'" "hex_digit c = Some d" "map hex_digit cs = map Some ds'"
    by (cases ds) auto
  have d: "0 \<le> d" "d \<le> 15" using hex_digit_range [OF ds(2)] by auto
  have ran: "\<forall>d \<in> set ds'. 0 \<le> d \<and> d \<le> 15"
  proof
    fix x assume "x \<in> set ds'"
    then have "Some x \<in> set (map hex_digit cs)" unfolding ds(3) by simp
    then show "0 \<le> x \<and> x \<le> 15" using hex_digit_range by (metis imageE list.set_map)
  qed
  have p: "(2::nat) ^ (base + 4) = 16 * 2 ^ base" by (simp add: power_add)
  have "base + 4 \<le> 28" using Cons.prems(2) by simp
  then have "(2::nat) ^ (base + 4) \<le> 2 ^ 28" by (rule power_increasing) simp
  then have b: "16 * (2::nat) ^ base \<le> 2 ^ 28" using p by simp
  define D where "D = nat d"
  have D: "d = int D" "D \<le> 15" using d by (simp_all add: D_def)
  have v: "D * 2 ^ base \<le> 15 * 2 ^ base" using D by (simp add: mult_right_mono)
  have r: "r + D * 2 ^ base < 2 ^ (base + 4)" using v Cons.prems(3) unfolding p by linarith
  have "15 * (2::nat) ^ base \<le> 2147483647" using b by simp
  with v have "D * 2 ^ base \<le> 2147483647" by (rule le_trans)
  then have "int (D * 2 ^ base) \<le> int 2147483647" by (simp only: of_nat_le_iff)
  then have "int (D * 2 ^ base) \<le> int_max" by (simp add: int_max_def)
  then have sh: "shl_int d base = Some (int (D * 2 ^ base))"
    using \<open>base + 4 \<le> 28\<close> by (simp add: shl_int_def D)
  have sz: "sz_add r (D * 2 ^ base) = r + D * 2 ^ base" using r p b by (intro sz_add_lt) simp
  have "sv_hex_loop cs (base + 4) (r + D * 2 ^ base) =
      Some (Some (r + D * 2 ^ base + 2 ^ (base + 4) * nat (little_endian ds')))"
    using Cons.prems ds(3) r by (intro Cons.IH) auto
  moreover have "nat (little_endian ds) = D + 16 * nat (little_endian ds')"
    using little_endian_nonneg [OF ran] by (simp add: ds(1) D nat_add_distrib nat_mult_distrib)
  ultimately show ?case
    using ds(2) sh sz p by (simp add: algebra_simps nat_power_eq nat_mult_distrib)
qed simp

text \<open>A chunk: its size in digits, an extension, its data.\<close>

type_synonym chunk = "string \<times> string \<times> string"

fun chunk_bytes :: "chunk \<Rightarrow> string" where
  "chunk_bytes (cs, ext, payload) = cs @ ext @ [CR, LF] @ payload @ [CR, LF]"

fun chunk_payload :: "chunk \<Rightarrow> string" where
  "chunk_payload (cs, ext, payload) = payload"

text \<open>The size line \<open>cs\<close>, read in the order of the code, gives \<open>n\<close>; the extension is empty or starts
  with its only semicolon.\<close>

definition hex_value :: "string \<Rightarrow> nat option" where
  "hex_value cs = (if None \<in> set (map hex_digit cs) then None
     else Some (nat (little_endian (map (the \<circ> hex_digit) cs))))"

fun size_line :: "string \<Rightarrow> string \<Rightarrow> nat \<Rightarrow> bool" where
  "size_line cs ext n \<longleftrightarrow> cs \<noteq> [] \<and> length cs \<le> 7 \<and> hex_value cs = Some n \<and> CR \<notin> set ext \<and>
     (ext = [] \<or> hd ext = CHR '';'' \<and> CHR '';'' \<notin> set (tl ext))"

fun good_chunk :: "chunk \<Rightarrow> bool" where
  "good_chunk (cs, ext, payload) \<longleftrightarrow> payload \<noteq> [] \<and> size_line cs ext (length payload)"

lemma hex_value_digits:
  assumes "hex_value cs = Some n"
  obtains ds where "map hex_digit cs = map Some ds" "n = nat (little_endian ds)"
proof -
  have "None \<notin> set (map hex_digit cs)" using assms by (auto simp: hex_value_def split: if_splits)
  then have "map hex_digit cs = map Some (map (the \<circ> hex_digit) cs)"
    by (auto simp: image_iff)
  moreover have "n = nat (little_endian (map (the \<circ> hex_digit) cs))"
    using assms by (auto simp: hex_value_def split: if_splits)
  ultimately show thesis by (rule that)
qed

lemma hex_value_parse:
  "hex_value cs = Some n \<Longrightarrow> length cs \<le> 7 \<Longrightarrow> sv_str_parse_hex cs = Some (Some n)"
proof -
  assume h: "hex_value cs = Some n" "length cs \<le> 7"
  then obtain ds where "map hex_digit cs = map Some ds" "n = nat (little_endian ds)"
    using hex_value_digits by blast
  with sv_hex_loop_digits [of cs ds 0 0] h(2) show ?thesis by (simp add: sv_str_parse_hex_def)
qed

lemma hex_value_no_mark:
  assumes "hex_value cs = Some n"
  shows "CR \<notin> set cs" "CHR '';'' \<notin> set cs"
proof -
  have "hex_digit CR = None" "hex_digit (CHR '';'') = None" by code_simp+
  with assms show "CR \<notin> set cs" "CHR '';'' \<notin> set cs"
    by (force simp: hex_value_def split: if_splits)+
qed

text \<open>The scan over bytes that are neither CR nor a semicolon.\<close>

lemma sv_chunks_skip:
  assumes "ck_mem st = pre @ w @ post" "CR \<notin> set w" "CHR '';'' \<notin> set w" "length (pre @ w) \<le> data_len"
  shows "sv_chunks data_len (length pre) st = sv_chunks data_len (length (pre @ w)) st"
  using assms
proof (induction w arbitrary: pre)
  case (Cons c w)
  from Cons.IH [of "pre @ [c]"] Cons.prems show ?case
    by (subst sv_chunks.simps) auto
qed simp

text \<open>The CR of a size line, of a chunk and of the last chunk.\<close>

lemma sv_chunks_size_line:
  assumes mem: "ck_mem st = pre @ cs @ ext @ CR # post" and sl: "size_line cs ext n"
    and p: "ck_p1 st = length pre" "ck_p2 st = None" and i: "i = length pre \<or> i = length pre + 1"
    and le: "length (pre @ cs @ ext) < data_len"
  shows "\<exists>p2. sv_chunks data_len i st = sv_chunks data_len (length (pre @ cs @ ext)) (st\<lparr>ck_p2 := p2\<rparr>) \<and>
    (case p2 of None \<Rightarrow> length (pre @ cs @ ext) | Some q \<Rightarrow> q) = length (pre @ cs)"
proof -
  from sl obtain c cs' where c: "cs = c # cs'" by (cases cs) auto
  have m: "CR \<notin> set cs" "CHR '';'' \<notin> set cs" using hex_value_no_mark sl by auto
  have s: "sv_chunks data_len i st = sv_chunks data_len (length (pre @ cs)) st"
  proof (cases "i = length pre")
    case True
    then show ?thesis using sv_chunks_skip [OF mem m, of data_len] le by simp
  next
    case False
    then show ?thesis
      using sv_chunks_skip [of st "pre @ [c]" cs' "ext @ CR # post" data_len] mem m le i by (simp add: c)
  qed
  show ?thesis
  proof (cases ext)
    case Nil
    then show ?thesis using s p by (intro exI [of _ None]) (cases st, simp)
  next
    case (Cons e es)
    let ?st = "st\<lparr>ck_p2 := Some (length (pre @ cs))\<rparr>"
    have e: "e = CHR '';''" "CHR '';'' \<notin> set es" "CR \<notin> set es" using sl Cons by auto
    have "rd (ck_mem st) (length (pre @ cs)) = Some e"
      using rd_mid [of "pre @ cs" e "es @ CR # post"] by (simp add: mem Cons)
    then have "sv_chunks data_len (length (pre @ cs)) st = sv_chunks data_len (length (pre @ cs @ [e])) ?st"
      using le e(1) by (subst sv_chunks.simps) (simp add: Cons)
    also have "\<dots> = sv_chunks data_len (length (pre @ cs @ ext)) ?st"
      using sv_chunks_skip [of ?st "pre @ cs @ [e]" es "CR # post" data_len] mem e(2,3) le Cons by simp
    finally show ?thesis using s by (intro exI [of _ "Some (length (pre @ cs))"]) simp
  qed
qed

lemma sv_chunks_chunk:
  assumes mem: "ck_mem st = pre @ chunk_bytes (cs, ext, payload) @ post" and good: "good_chunk (cs, ext, payload)"
    and p: "ck_p1 st = length pre" "ck_p2 st = None" and i: "i = length pre \<or> i = length pre + 1"
    and s: "s = length (pre @ chunk_bytes (cs, ext, payload))" "s \<le> data_len" "data_len < obj_limit"
    and len: "ck_len st \<le> length pre"
  shows "\<exists>m. sv_chunks data_len i st = sv_chunks data_len (Suc s)
      (st\<lparr>ck_mem := m, ck_len := ck_len st + length payload, ck_read := s, ck_p1 := s, ck_p2 := None\<rparr>) \<and>
    take (ck_len st + length payload) m = take (ck_len st) (ck_mem st) @ payload \<and>
    drop s m = post \<and> length m = length (ck_mem st)"
proof -
  define k where "k = length (pre @ cs @ ext)"
  define n where "n = length payload"
  have sl: "size_line cs ext n" and n: "n > 0" using good by (auto simp: n_def)
  have mem': "ck_mem st = pre @ cs @ ext @ CR # (LF # payload @ [CR, LF] @ post)" using mem by simp
  have sk: "s = k + 2 + n + 2" using s(1) by (simp add: k_def n_def)
  then have kd: "k < data_len" using s(2) by simp
  obtain p2 where p2: "sv_chunks data_len i st = sv_chunks data_len k (st\<lparr>ck_p2 := p2\<rparr>)"
    "(case p2 of None \<Rightarrow> k | Some q \<Rightarrow> q) = length (pre @ cs)"
    using sv_chunks_size_line [OF mem' sl p i] kd unfolding k_def by blast
  have lc: "0 < length cs" "length cs \<le> 7" and hv: "hex_value cs = Some n" using sl by auto
  have d: "c_int (int (length (pre @ cs)) - int (ck_p1 st)) = int (length cs)"
    using lc p(1) by (simp add: int_max_def)
  have h: "sv_str_parse_hex (take (nat (int (length cs))) (drop (ck_p1 st) (ck_mem st))) = Some (Some n)"
    using hex_value_parse [OF hv lc(2)] by (simp add: mem' p(1))
  have z: "sz_add (k + 2) (sz_add n 2) = s" using s(2,3) sk by (simp add: obj_limit_def)
  have r: "rd (ck_mem st) k = Some CR"
    using rd_mid [of "pre @ cs @ ext" CR "LF # payload @ [CR, LF] @ post"] by (simp add: mem k_def add.assoc)
  define m where "m = take (ck_len st) (ck_mem st) @ payload @ drop (ck_len st + n) (ck_mem st)"
  have ml: "length (ck_mem st) = s + length post" using s(1) by (simp add: mem)
  have "take n (drop (k + 2) (ck_mem st)) = payload" by (simp add: mem k_def n_def)
  then have mm: "memmove (ck_mem st) (ck_len st) (k + 2) n = Some m"
    using ml sk len by (simp add: memmove_def m_def k_def)
  have ms: "length m = length (ck_mem st)" using memmove_length [OF mm] .
  have "sv_chunks data_len k (st\<lparr>ck_p2 := p2\<rparr>) = sv_chunks data_len (Suc s)
      (st\<lparr>ck_mem := m, ck_len := ck_len st + n, ck_read := s, ck_p1 := s, ck_p2 := None\<rparr>)"
    using kd r p2(2) d h z mm s(2) n sk lc by (subst sv_chunks.simps) (simp add: Let_def)
  moreover have "drop s m = post"
  proof -
    have "drop s (ck_mem st) = post" using s(1) by (simp add: mem del: chunk_bytes.simps)
    moreover have "drop s (A @ drop l mem) = drop s mem" if "length A = l" "l \<le> s" for A l and mem :: string
      using that by simp
    moreover have "length (take (ck_len st) (ck_mem st) @ payload) = ck_len st + n"
      using ml len sk by (simp add: n_def k_def)
    moreover have "ck_len st + n \<le> s" using len sk by (simp add: k_def)
    ultimately show ?thesis unfolding m_def append_assoc [symmetric] by simp
  qed
  moreover have "take (ck_len st + n) m = take (ck_len st) (ck_mem st) @ payload"
    using ml len sk by (simp add: m_def n_def k_def min_def)
  ultimately show ?thesis using p2(1) ms by (intro exI [of _ m]) (simp add: n_def)
qed

text \<open>The whole stream: chunks, the last chunk of size 0, an empty line.\<close>

lemma sv_chunks_stream:
  assumes "drop (length (pre :: string)) (ck_mem st) = concat (map chunk_bytes cks) @ cs0 @ ext0 @ [CR, LF, CR, LF] @ rest"
    "length pre \<le> length (ck_mem st)" "list_all good_chunk cks" "size_line cs0 ext0 0"
    "ck_p1 st = length pre" "ck_p2 st = None" "i = length pre \<or> i = length pre + 1"
    "e = length pre + length (concat (map chunk_bytes cks) @ cs0 @ ext0)" "e + 4 \<le> data_len" "data_len < obj_limit"
    "ck_len st \<le> length pre"
  shows "\<exists>st'. sv_chunks data_len i st = Some (0, st') \<and> ck_read st' = e + 2 \<and>
    ck_len st' = ck_len st + length (concat (map chunk_payload cks)) \<and>
    take (ck_len st') (ck_mem st') = take (ck_len st) (ck_mem st) @ concat (map chunk_payload cks)"
  using assms
proof (induction cks arbitrary: pre st i)
  case Nil
  have mem: "ck_mem st = take (length pre) (ck_mem st) @ cs0 @ ext0 @ CR # (LF # CR # LF # rest)"
    using Nil.prems(1) append_take_drop_id [of "length pre" "ck_mem st"] by simp
  define pr where "pr = take (length pre) (ck_mem st)"
  have lp: "length pr = length pre" using Nil.prems(2) by (simp add: pr_def)
  note mem = mem [folded pr_def]
  have e: "e = length (pr @ cs0 @ ext0)" using Nil.prems(8) by (simp add: lp)
  have "ck_p1 st = length pr" "i = length pr \<or> i = length pr + 1" "length (pr @ cs0 @ ext0) < data_len"
    using Nil.prems(5,7,9) e lp by auto
  from sv_chunks_size_line [OF mem Nil.prems(4) this(1) Nil.prems(6) this(2,3)]
  obtain p2 where p2: "sv_chunks data_len i st = sv_chunks data_len e (st\<lparr>ck_p2 := p2\<rparr>)"
    "(case p2 of None \<Rightarrow> e | Some q \<Rightarrow> q) = length (pr @ cs0)" unfolding e by blast
  have lc: "0 < length cs0" "length cs0 \<le> 7" and hv: "hex_value cs0 = Some 0" using Nil.prems(4) by auto
  have d: "c_int (int (length (pr @ cs0)) - int (ck_p1 st)) = int (length cs0)"
    using lc Nil.prems(5) lp by (simp add: int_max_def)
  have h: "sv_str_parse_hex (take (nat (int (length cs0))) (drop (ck_p1 st) (ck_mem st))) = Some (Some 0)"
    using hex_value_parse [OF hv lc(2)] Nil.prems(5) lp by (simp add: Nil.prems(1))
  have z: "sz_add (e + 2) (sz_add 0 2) = e + 4" using Nil.prems(9,10) by (simp add: obj_limit_def)
  have r: "rd (ck_mem st) e = Some CR"
    using rd_mid [of "pr @ cs0 @ ext0" CR "LF # CR # LF # rest"] by (simp add: e mem [symmetric] add.assoc)
  have "sv_chunks data_len e (st\<lparr>ck_p2 := p2\<rparr>) = Some (0, st\<lparr>ck_p2 := p2, ck_read := e + 2\<rparr>)"
    using Nil.prems(9) r p2(2) d h z lc by (subst sv_chunks.simps) (simp add: Let_def)
  then show ?case using p2(1) by simp
next
  case (Cons ck cks)
  obtain cs ext payload where ck: "ck = (cs, ext, payload)" by (cases ck)
  define pr where "pr = take (length pre) (ck_mem st)"
  define post where "post = concat (map chunk_bytes cks) @ cs0 @ ext0 @ [CR, LF, CR, LF] @ rest"
  define s where "s = length (pr @ chunk_bytes ck)"
  have lp: "length pr = length pre" using Cons.prems(2) by (simp add: pr_def)
  have mem: "ck_mem st = pr @ chunk_bytes ck @ post"
    using Cons.prems(1) append_take_drop_id [of "length pre" "ck_mem st"] by (simp add: pr_def post_def)
  have sd: "s \<le> data_len" using Cons.prems(8,9) by (simp add: s_def lp)
  let ?st = "\<lambda>m. st\<lparr>ck_mem := m, ck_len := ck_len st + length payload, ck_read := s, ck_p1 := s, ck_p2 := None\<rparr>"
  have "\<exists>m. sv_chunks data_len i st = sv_chunks data_len (Suc s) (?st m) \<and>
    take (ck_len st + length payload) m = take (ck_len st) (ck_mem st) @ payload \<and>
    drop s m = post \<and> length m = length (ck_mem st)"
    using mem sd Cons.prems lp unfolding ck s_def
    by (intro sv_chunks_chunk [of st pr cs ext payload post]) auto
  then obtain m where m: "sv_chunks data_len i st = sv_chunks data_len (Suc s) (?st m)"
    "take (ck_len st + length payload) m = take (ck_len st) (ck_mem st) @ payload"
    "drop s m = post" "length m = length (ck_mem st)" by blast
  have "\<exists>st'. sv_chunks data_len (Suc s) (?st m) = Some (0, st') \<and> ck_read st' = e + 2 \<and>
      ck_len st' = ck_len (?st m) + length (concat (map chunk_payload cks)) \<and>
      take (ck_len st') (ck_mem st') = take (ck_len (?st m)) (ck_mem (?st m)) @ concat (map chunk_payload cks)"
    using Cons.prems m lp sd mem
    by (intro Cons.IH [of "pr @ chunk_bytes ck"]) (auto simp: s_def post_def ck)
  with m show ?case by (simp add: ck add.assoc)
qed

section \<open>Folded lines\<close>

lemma hp_colon_skip:
  "CHR '':'' \<notin> set w \<Longrightarrow> hp_colon (pre @ w @ post) (length pre) b =
     hp_colon (pre @ w @ post) (length (pre @ w)) (b \<and> list_all token_char w)"
proof (induction w arbitrary: pre b)
  case (Cons c w)
  from Cons.IH [of "pre @ [c]"] Cons.prems show ?case
    by (subst hp_colon.simps) auto
qed simp

lemma memmove_back:
  assumes "length a \<le> length (a @ b)" "length b > 0"
  shows "memmove (a @ b @ u @ c) (length a) (length (a @ b)) (length u) =
    Some (a @ u @ drop (length u) (b @ u) @ c)"
proof -
  have "drop (length a + length u) (a @ b @ u @ c) = drop (length u) (b @ u) @ c" by simp
  then show ?thesis by (simp add: memmove_def)
qed

text \<open>A pass over a folded line \<open>SP u CRLF\<close>, where \<open>u\<close> has a colon.\<close>

lemma sv_step_fold:
  assumes mem: "sl_mem st = a @ [CR, LF] @ SP # u @ CR # LF # post"
    and u: "u = x @ CHR '':'' # y" "CHR '':'' \<notin> set x" "CR \<notin> set y"
    and p1: "sl_p1 st = length a + 2" and hs: "sl_hdrs st = hs @ [h]" "h_value h + h_value_len h = length a"
    and e: "t = length (a @ [CR, LF] @ SP # u @ [CR, LF])" "t < end" "int t \<le> int_max"
  shows "\<exists>m. sv_step end max_header st =
      sv_next end (st\<lparr>sl_mem := m, sl_p := t, sl_hdrs := hs @ [h\<lparr>h_value_len := h_value_len h + length u\<rparr>],
        sl_read := t\<rparr>) t \<and>
    take (length (a @ u)) m = a @ u \<and> drop t m = post"
proof -
  define pr where "pr = a @ [CR, LF]"
  have pl: "length pr = length a + 2" by (simp add: pr_def)
  have mem1: "sl_mem st = pr @ (SP # x) @ CHR '':'' # (y @ CR # LF # post)" by (simp add: mem u(1) pr_def)
  have nc: "CHR '':'' \<notin> set (SP # x)" using u(2) by simp
  have c: "hp_colon (sl_mem st) (sl_p1 st) True = Some (length (pr @ SP # x), False)"
    using hp_colon_skip [OF nc, of pr "CHR '':'' # (y @ CR # LF # post)" True]
      hp_colon_token [of "[]" "pr @ SP # x" "y @ CR # LF # post" False] token_char_facts(2)
    by (simp add: mem1 p1 pl)
  have eol: "hp_eol (sl_mem st) end (length (pr @ SP # x)) = Some (length (pr @ SP # u) + 1)"
    using hp_eol_line [of "CHR '':'' # y" "pr @ SP # x" "end" post] u(3) e(1,2)
    by (simp add: mem1 u(1) pr_def)
  have t: "t = length (pr @ SP # u) + 2" using e(1) by (simp add: pr_def)
  define m where "m = a @ u @ drop (length u) ([CR, LF, SP] @ u) @ CR # LF # post"
  have mv: "memmove (sl_mem st) (length a) (length a + 3) (length u) = Some m"
    using memmove_back [of a "[CR, LF, SP]" u "CR # LF # post"] by (simp add: mem m_def numeral_3_eq_3)
  have len: "c_int (int (length (pr @ SP # u) + 1) - int (length a + 2 + 1) - 1) = int (length u)"
  proof -
    have "int (length (pr @ SP # u) + 1) - int (length a + 2 + 1) - 1 = int (length u)" by (simp add: pl)
    moreover have "int (length u) \<le> int_max" using e(3) t by simp
    ultimately show ?thesis by simp
  qed
  have lu: "0 < length u" using u(1) by simp
  have "h_value_len h + length u < 2 ^ 64" using hs(2) e(1,3) by (simp add: int_max_def)
  then have f: "sv_fold (sl_mem st) (hs @ [h]) (length a + 2) (length (pr @ SP # u) + 1) =
      Some (m, hs @ [h\<lparr>h_value_len := h_value_len h + length u\<rparr>])"
    using mv len lu hs(2) by (simp add: sv_fold_def Let_def add_value_len_def numeral_3_eq_3)
  have r: "rd (sl_mem st) (length a + 2) = Some SP"
    using rd_mid [of pr SP "x @ CHR '':'' # (y @ CR # LF # post)"] by (simp add: mem1 pl)
  have ln: "sv_line max_header st (length (pr @ SP # x)) (length (pr @ SP # u) + 1) False =
      Some (m, hs @ [h\<lparr>h_value_len := h_value_len h + length u\<rparr>])"
    using f r by (simp add: sv_line_def p1 hs(1))
  have "length (pr @ SP # u) + 1 + 1 = t" using t by simp
  then have "sv_step end max_header st =
      sv_next end (st\<lparr>sl_mem := m, sl_p := t, sl_hdrs := hs @ [h\<lparr>h_value_len := h_value_len h + length u\<rparr>],
        sl_read := t\<rparr>) t"
    using c eol ln unfolding sv_step_def by (simp del: length_append)
  moreover have "take (length (a @ u)) m = a @ u" by (simp add: m_def)
  moreover have "drop t m = post" by (simp add: m_def t pl)
  ultimately show ?thesis by blast
qed

section \<open>Properties of the later parser\<close>

lemma slice_shift: "n \<le> length mem \<Longrightarrow> slice mem (off + n) len = slice (drop n mem) off len"
  by (simp add: slice_def)

lemma header_strings_shift:
  "n \<le> length mem \<Longrightarrow> header_strings mem (shift_header n h) = header_strings (drop n mem) h"
  by (simp add: header_strings_def shift_header_def slice_shift)

lemma slice_take: "take (length p + length q) m = p @ q \<Longrightarrow> slice m (length p) (length q) = q"
proof -
  assume a: "take (length p + length q) m = p @ q"
  have "slice m (length p) (length q) = drop (length p) (take (length p + length q) m)"
    by (simp add: slice_def drop_take)
  then show ?thesis using a by simp
qed

text \<open>A request, part by part, and where its body starts.\<close>

lemma request_parts:
  assumes "SP \<notin> set m" "SP \<notin> set path" "v \<noteq> CR" "fs \<noteq> []" "list_all good_field fs"
    "int (length fs) \<le> max_header"
    and mem: "mem = request_line m path v @ header_block fs @ [CR, LF] @ body" "int (length mem) \<le> int_max"
  shows "\<exists>r. http_parse_request mem (length mem) max_header = Some (Returns r) \<and>
    rq_line r = line_result m path v \<and> rq_mem r = mem \<and> rq_read r = length (request_line m path v @ header_block fs) + 2 \<and>
    map (header_strings mem) (rq_headers r) = map (\<lambda>(n, w, v). (n, v)) fs \<and>
    (case rq_body r of None \<Rightarrow> body = [] | Some (off, len) \<Rightarrow> body \<noteq> [] \<and> slice mem off len = body)"
proof -
  define l where "l = length (request_line m path v)"
  define rest where "rest = header_block fs @ CR # LF # body"
  have m1: "mem = request_line m path v @ rest" by (simp add: mem rest_def)
  have ll: "length mem = l + length rest" by (simp add: m1 l_def)
  have rl: "sv_parse_request_line mem (length mem) = Some (0, l, Some (line_result m path v))"
    using sv_request_line_complete [OF assms(1-3), of "length mem" rest] mem(2) unfolding m1 l_def by simp
  have d: "drop l mem = rest" "take l mem = request_line m path v" by (simp_all add: m1 l_def)
  have h: "sv_parse_header rest (length rest) max_header =
      Some (0, length (header_block fs) + 2, field_headers 0 fs, rest)"
    using sv_parse_header_fields [OF assms(4,5) _ assms(6), of "length rest" body] by (simp add: rest_def)
  define r where "r = l + (length (header_block fs) + 2)"
  let ?r = "\<lparr>rq_line = line_result m path v, rq_headers = map (shift_header l) (field_headers 0 fs),
    rq_body = (if r < length mem then Some (r, length mem - r) else None), rq_read = r, rq_mem = mem\<rparr>"
  have rq: "http_parse_request mem (length mem) max_header = Some (Returns ?r)"
    using rl h d ll by (simp add: http_parse_request_def r_def Let_def m1 [symmetric])
  have "map (header_strings mem) (map (shift_header l) (field_headers 0 fs)) =
      map (header_strings rest) (field_headers 0 fs)"
    using d(1) ll by (simp add: header_strings_shift)
  also have "\<dots> = map (\<lambda>(n, w, v). (n, v)) fs"
    using field_headers_strings [of "[]" fs "CR # LF # body"] by (simp add: rest_def)
  finally have hs: "map (header_strings mem) (map (shift_header l) (field_headers 0 fs)) = map (\<lambda>(n, w, v). (n, v)) fs" .
  have b: "length mem = r + length body" by (simp add: ll r_def rest_def)
  have "drop r mem = drop (length (header_block fs) + 2) (drop l mem)" by (simp add: r_def add.commute)
  also have "\<dots> = body" unfolding d(1) rest_def by simp
  finally have "slice mem r (length mem - r) = body" using b by (simp add: slice_def)
  with rq hs b show ?thesis by (intro exI [of _ ?r]) (auto simp: r_def l_def)
qed

text \<open>C6. Round trip for a whole request: a request line, well-formed header fields, an empty line and a
  body are parsed, without abort, into exactly these parts; the body is absent when it is empty, and
  the buffer is left as it was.\<close>

theorem request_roundtrip:
  assumes "SP \<notin> set m" "SP \<notin> set path" "v \<noteq> CR" "fs \<noteq> []" "list_all good_field fs"
    "int (length fs) \<le> max_header"
    and mem: "mem = request_line m path v @ header_block fs @ [CR, LF] @ body" "int (length mem) \<le> int_max"
  shows "\<exists>r. http_parse_request mem (length mem) max_header = Some (Returns r) \<and>
    rq_line r = line_result m path v \<and> rq_mem r = mem \<and>
    map (header_strings mem) (rq_headers r) = map (\<lambda>(n, w, v). (n, v)) fs \<and>
    (case rq_body r of None \<Rightarrow> body = [] | Some (off, len) \<Rightarrow> body \<noteq> [] \<and> slice mem off len = body)"
  using request_parts [OF assms] by blast

lemma request_roundtrip_witness:
  "\<exists>r. http_parse_request (''GET /a HTTP/1.1'' @ [CR, LF] @ ''Host: x'' @ [CR, LF, CR, LF] @ ''hi'') 30 64 = Some (Returns r) \<and>
    map (header_strings (''GET /a HTTP/1.1'' @ [CR, LF] @ ''Host: x'' @ [CR, LF, CR, LF] @ ''hi'')) (rq_headers r) =
      [(''Host'', ''x'')]"
proof -
  have "good_field (''Host'', '' '', ''x'')" by code_simp
  then show ?thesis
    using request_roundtrip [of "''GET''" "''/a''" "CHR ''1''" "[(''Host'', '' '', ''x'')]" 64 _ "''hi''", OF _ _ _ _ _ _ refl]
    by (auto simp: request_line_def int_max_def eval_nat_numeral)
qed

text \<open>A folded header line: a line that starts with a space is appended, without that space, to the
  value of the field before it, in the buffer. The line \<open>u\<close> must hold a colon, and it ends at the first
  CRLF after that colon: a continuation without a colon takes the whole next header field into the
  value (then \<open>x\<close> contains a CRLF and the next field's name).\<close>

lemma header_fold:
  assumes f: "good_field (n, w, v)" and x: "CHR '':'' \<notin> set x" and y: "CR \<notin> set y" and mx: "0 < max_header"
    and mem: "mem = field_line (n, w, v) @ SP # x @ CHR '':'' # y @ [CR, LF, CR, LF] @ body"
    and len: "length mem \<le> data_len + length body" "int (length mem) \<le> int_max"
  shows "\<exists>h m. sv_parse_header mem data_len max_header = Some (0, length mem - length body, [h], m) \<and>
    header_strings m h = (n, v @ x @ CHR '':'' # y)"
proof -
  define a u where "a = n @ CHR '':'' # w @ v" and "u = x @ CHR '':'' # y"
  define h where "h = field_header 0 (n, w, v)"
  define t where "t = length (a @ [CR, LF] @ SP # u @ [CR, LF])"
  have m1: "mem = header_block [(n, w, v)] @ SP # (u @ CR # LF # CR # LF # body)" by (simp add: mem u_def)
  have m2: "mem = a @ [CR, LF] @ SP # u @ CR # LF # (CR # LF # body)" by (simp add: mem u_def a_def)
  have tl: "t + 2 + length body = length mem" by (simp add: m2 t_def)
  then have te: "t + 2 \<le> data_len" using len(1) by simp
  let ?st = "\<lparr>sl_mem = mem, sl_p = 0, sl_p1 = 0, sl_hdrs = [], sl_read = 0\<rparr>"
  have "\<exists>p r. p \<noteq> data_len \<and> sv_run data_len max_header ?st = sv_run data_len max_header
      (?st\<lparr>sl_p := p, sl_p1 := length ([] @ header_block [(n, w, v)]),
        sl_hdrs := sl_hdrs ?st @ field_headers (length []) [(n, w, v)], sl_read := r\<rparr>)"
    using sv_run_prefix [of ?st "[]" "[(n, w, v)]" SP "u @ CR # LF # CR # LF # body" data_len max_header] m1 f mx te
    by (simp add: t_def a_def del: good_field.simps)
  then obtain p r where pr: "p \<noteq> data_len" "sv_run data_len max_header ?st = sv_run data_len max_header
      (?st\<lparr>sl_p := p, sl_p1 := length a + 2, sl_hdrs := [] @ [h], sl_read := r\<rparr>)"
    by (auto simp: a_def h_def)
  let ?st1 = "?st\<lparr>sl_p := p, sl_p1 := length a + 2, sl_hdrs := [] @ [h], sl_read := r\<rparr>"
  let ?h = "h\<lparr>h_value_len := h_value_len h + length u\<rparr>"
  have "h_value h + h_value_len h = length a" by (simp add: h_def a_def)
  with m2 te len(2) tl x y obtain m where m: "sv_step data_len max_header ?st1 = sv_next data_len
      (?st1\<lparr>sl_mem := m, sl_p := t, sl_hdrs := [] @ [?h], sl_read := t\<rparr>) t"
    "take (length (a @ u)) m = a @ u" "drop t m = CR # LF # body"
    using sv_step_fold [of ?st1 a u "CR # LF # body" x y "[]" h t data_len max_header]
    by (auto simp: t_def u_def)
  have "rd m t = Some CR" "rd m (t + 1) = Some LF"
    using m(3) by (auto simp: rd_Some hd_drop_conv_nth [symmetric] dest: arg_cong [of _ _ length])
      (metis drop_Suc list.sel Suc_eq_plus1 hd_drop_conv_nth tl_drop drop_eq_Nil not_less list.distinct(1))+
  with sv_next_line(3) [of t data_len "?st1\<lparr>sl_mem := m, sl_p := t, sl_hdrs := [] @ [?h], sl_read := t\<rparr>"] te m(1)
  have "sv_step data_len max_header ?st1 = Some (True,
      ?st1\<lparr>sl_mem := m, sl_p := t + 1, sl_hdrs := [?h], sl_read := t + 2\<rparr>)" by simp
  then have "sv_run data_len max_header ?st1 = Some (0, ?st1\<lparr>sl_mem := m, sl_p := t + 1, sl_hdrs := [?h], sl_read := t + 2\<rparr>)"
    using pr(1) by (subst sv_run.simps) simp
  then have "sv_parse_header mem data_len max_header = Some (0, t + 2, [?h], m)"
    using pr(2) by (simp add: sv_parse_header_def)
  moreover have "header_strings m ?h = (n, v @ u)"
  proof -
    have "take (length n) m = n"
      using arg_cong [OF m(2), of "take (length n)"] by (simp add: a_def min_def)
    moreover have "slice m (length n + 1 + length w) (length v + length u) = v @ u"
      using slice_take [of "n @ CHR '':'' # w" "v @ u" m] m(2) by (simp add: a_def add.assoc)
    ultimately show ?thesis by (simp add: header_strings_def slice_def h_def)
  qed
  moreover have "t + 2 = length mem - length body" using tl by simp
  ultimately show ?thesis unfolding u_def by auto
qed

lemma header_fold_witness:
  "\<exists>h m. sv_parse_header (''A: b'' @ [CR, LF] @ '' c'' @ [CR, LF] @ ''D: e'' @ [CR, LF, CR, LF]) 18 8 = Some (0, 18, [h], m) \<and>
    header_strings m h = (''A'', ''bc'' @ [CR, LF] @ ''D: e'')"
proof -
  have "good_field (''A'', '' '', ''b'')" by code_simp
  from header_fold [OF this, of "''c'' @ [CR, LF] @ ''D''" "'' e''" 8 _ "[]" 18, OF _ _ _ refl] show ?thesis
    by (simp add: int_max_def eval_nat_numeral)
qed

text \<open>C9. Round trip for a chunked body: chunks with their data and one possible extension each, then the
  chunk of size 0 and an empty line, are decoded in place: the concatenated data is at the front of
  the buffer, and the number of bytes read ends after the size line of the last chunk (the empty
  line is not counted). The size lines are those that the code reads as the length of the data; with
  one digit this is the usual notation.\<close>

theorem chunked_roundtrip:
  assumes "list_all good_chunk cks" "size_line cs0 ext0 0"
    and "mem = concat (map chunk_bytes cks) @ cs0 @ ext0 @ [CR, LF, CR, LF] @ rest"
    and "length mem \<le> data_len + length rest" "data_len < obj_limit"
  shows "\<exists>m. sv_parse_chunked mem data_len = Some (0, length (concat (map chunk_payload cks)),
      length mem - length rest - 2, m) \<and>
    take (length (concat (map chunk_payload cks))) m = concat (map chunk_payload cks)"
proof -
  let ?st = "\<lparr>ck_mem = mem, ck_len = 0, ck_read = 0, ck_p1 = 0, ck_p2 = None\<rparr>"
  define e where "e = length (concat (map chunk_bytes cks) @ cs0 @ ext0)"
  have l: "length mem = e + 4 + length rest" by (simp add: assms(3) e_def)
  have "\<exists>st'. sv_chunks data_len 0 ?st = Some (0, st') \<and> ck_read st' = e + 2 \<and>
    ck_len st' = ck_len ?st + length (concat (map chunk_payload cks)) \<and>
    take (ck_len st') (ck_mem st') = take (ck_len ?st) (ck_mem ?st) @ concat (map chunk_payload cks)"
    using assms l sv_chunks_stream [of "[]" ?st cks cs0 ext0 rest 0 e data_len] by (simp add: e_def)
  then show ?thesis using l by (auto simp: sv_parse_chunked_def)
qed

lemma chunked_roundtrip_witness:
  "\<exists>m. sv_parse_chunked (''3'' @ [CR, LF] @ ''abc'' @ [CR, LF] @ ''2;x=y'' @ [CR, LF] @ ''de'' @ [CR, LF] @
      ''0'' @ [CR, LF, CR, LF]) 24 = Some (0, 5, 22, m) \<and> take 5 m = ''abcde''"
proof -
  have g: "good_chunk (''3'', [], ''abc'')" "good_chunk (''2'', '';x=y'', ''de'')" "size_line ''0'' [] 0"
    by code_simp+
  have o: "24 < obj_limit" by (simp add: obj_limit_def)
  show ?thesis
    using chunked_roundtrip [of "[(''3'', [], ''abc''), (''2'', '';x=y'', ''de'')]", OF _ g(3) refl, of "[]" 24] g(1,2) o
    by (simp add: eval_nat_numeral del: good_chunk.simps)
qed

text \<open>Sizes of more than one digit are read in the wrong order, here as in the other version: the
  value of up to seven digits is the number written by their reversal, so a chunk announced as \<open>10\<close>
  is taken to have one byte.\<close>

lemma chunk_size_reversed:
  assumes "map hex_digit cs = map Some ds" "length cs \<le> 7"
  shows "sv_str_parse_hex cs = Some (Some (nat (big_endian (rev ds))))"
  using sv_hex_loop_digits [OF assms(1), of 0 0] assms(2) by (simp add: sv_str_parse_hex_def big_endian_rev)

lemma chunk_size_reversed_witness: "sv_str_parse_hex ''10'' = Some (Some 1) \<and> big_endian [1, 0] = 16"
proof -
  have "map hex_digit ''10'' = map Some [1, 0]" by code_simp
  from chunk_size_reversed [OF this] show ?thesis by (simp add: big_endian_def)
qed

end
