(* ===== verification/ListH.thy ===== *)
theory ListH
  imports Prelude
begin

text \<open>
  The intrusive doubly linked list of \<open>include/list.h\<close> and \<open>server/list.h\<close> (macros), and the older
  one of \<open>list.h\<close> (inline functions). Every queue of the program is one of these: the two queues of
  an event loop, the send and receive queues of a connection.

  The state is the two link fields of every \<open>struct list_head\<close>, as maps from addresses to pointers;
  \<^term>\<open>None\<close> is the null pointer, and following it is undefined behaviour. \<open>repr h head xs\<close>
  says that the ring at \<open>head\<close> holds exactly the entries \<open>xs\<close>, in order; every operation is shown
  to implement the list operation it stands for and to leave other rings alone. The locale
  \<open>intrusive_queue\<close> is the contract that the queue's clients rely on, interpreted for both
  implementations.
\<close>

section \<open>The data\<close>

type_synonym addr = nat

record links =
  prev_of :: "addr \<Rightarrow> addr option"
  next_of :: "addr \<Rightarrow> addr option"

definition set_prev :: "addr \<Rightarrow> addr option \<Rightarrow> links \<Rightarrow> links" where
  "set_prev a p h = h\<lparr>prev_of := (prev_of h)(a := p)\<rparr>"

definition set_next :: "addr \<Rightarrow> addr option \<Rightarrow> links \<Rightarrow> links" where
  "set_next a p h = h\<lparr>next_of := (next_of h)(a := p)\<rparr>"

lemma set_link_simps [simp]:
  "prev_of (set_prev a p h) = (prev_of h)(a := p)"
  "next_of (set_prev a p h) = next_of h"
  "next_of (set_next a p h) = (next_of h)(a := p)"
  "prev_of (set_next a p h) = prev_of h"
  by (simp_all add: set_prev_def set_next_def)

section \<open>The macros of include/list.h\<close>

definition LIST_INIT :: "addr \<Rightarrow> links \<Rightarrow> links" where
  "LIST_INIT head h = set_next head (Some head) (set_prev head (Some head) h)"

definition LIST_ADD :: "addr \<Rightarrow> addr \<Rightarrow> links \<Rightarrow> links option" where
  "LIST_ADD head entry h0 = do {
     let h1 = set_prev entry (Some head) h0;
     let h2 = set_next entry (next_of h1 head) h1;
     n \<leftarrow> next_of h2 head;
     let h3 = set_prev n (Some entry) h2;
     Some (set_next head (Some entry) h3)
   }"

definition LIST_ADD_TAIL :: "addr \<Rightarrow> addr \<Rightarrow> links \<Rightarrow> links option" where
  "LIST_ADD_TAIL head entry h0 = do {
     let h1 = set_prev entry (prev_of h0 head) h0;
     let h2 = set_next entry (Some head) h1;
     p \<leftarrow> prev_of h2 head;
     let h3 = set_next p (Some entry) h2;
     Some (set_prev head (Some entry) h3)
   }"

definition LIST_DEL :: "addr \<Rightarrow> links \<Rightarrow> links option" where
  "LIST_DEL entry h0 = do {
     p \<leftarrow> prev_of h0 entry;
     let h1 = set_next p (next_of h0 entry) h0;
     n \<leftarrow> next_of h1 entry;
     let h2 = set_prev n (prev_of h1 entry) h1;
     Some (set_next entry None (set_prev entry None h2))
   }"

definition LIST_EMPTY :: "addr \<Rightarrow> links \<Rightarrow> bool" where
  "LIST_EMPTY head h \<longleftrightarrow> next_of h head = Some head"

definition LIST_NOT_EMPTY :: "addr \<Rightarrow> links \<Rightarrow> bool" where
  "LIST_NOT_EMPTY head h \<longleftrightarrow> next_of h head \<noteq> Some head"

text \<open>The first entry, as the clients read it: \<open>entry = head->next\<close>.\<close>

definition list_first :: "addr \<Rightarrow> links \<Rightarrow> addr option" where
  "list_first head h = next_of h head"

section \<open>The inline functions of list.h\<close>

definition list_init :: "addr \<Rightarrow> links \<Rightarrow> links" where
  "list_init l h = set_prev l (Some l) (set_next l (Some l) h)"

definition list_add3 :: "addr \<Rightarrow> addr \<Rightarrow> addr \<Rightarrow> links \<Rightarrow> links" where
  "list_add3 l prev nxt h =
     set_next prev (Some l) (set_prev l (Some prev) (set_next l (Some nxt) (set_prev nxt (Some l) h)))"

definition list_add :: "addr \<Rightarrow> addr \<Rightarrow> links \<Rightarrow> links option" where
  "list_add l head h = do { n \<leftarrow> next_of h head; Some (list_add3 l head n h) }"

definition list_add_tail :: "addr \<Rightarrow> addr \<Rightarrow> links \<Rightarrow> links option" where
  "list_add_tail l head h = do { p \<leftarrow> prev_of h head; Some (list_add3 l p head h) }"

definition list_del2 :: "addr \<Rightarrow> addr \<Rightarrow> links \<Rightarrow> links" where
  "list_del2 prev nxt h = set_next prev (Some nxt) (set_prev nxt (Some prev) h)"

definition list_del :: "addr \<Rightarrow> links \<Rightarrow> links option" where
  "list_del entry h = do {
     p \<leftarrow> prev_of h entry;
     n \<leftarrow> next_of h entry;
     Some (set_prev entry None (set_next entry None (list_del2 p n h)))
   }"

definition list_empty :: "addr \<Rightarrow> links \<Rightarrow> bool" where
  "list_empty head h \<longleftrightarrow> next_of h head = Some head"

definition list_remove :: "addr \<Rightarrow> links \<Rightarrow> (addr option \<times> links) option" where
  "list_remove head h =
     (if list_empty head h then Some (None, h)
      else do { e \<leftarrow> next_of h head; h' \<leftarrow> list_del e h; Some (Some e, h') })"

definition list_remove_tail :: "addr \<Rightarrow> links \<Rightarrow> (addr option \<times> links) option" where
  "list_remove_tail head h =
     (if list_empty head h then Some (None, h)
      else do { e \<leftarrow> prev_of h head; h' \<leftarrow> list_del e h; Some (Some e, h') })"

section \<open>What a ring represents\<close>

text \<open>\<open>linked h a xs b\<close>: following \<open>next\<close> from \<open>a\<close> visits \<open>xs\<close> and then \<open>b\<close>, and \<open>prev\<close> undoes it.\<close>

fun linked :: "links \<Rightarrow> addr \<Rightarrow> addr list \<Rightarrow> addr \<Rightarrow> bool" where
  "linked h a [] b \<longleftrightarrow> next_of h a = Some b \<and> prev_of h b = Some a"
| "linked h a (x # xs) b \<longleftrightarrow> next_of h a = Some x \<and> prev_of h x = Some a \<and> linked h x xs b"

definition repr :: "links \<Rightarrow> addr \<Rightarrow> addr list \<Rightarrow> bool" where
  "repr h head xs \<longleftrightarrow> distinct (head # xs) \<and> linked h head xs head"

lemma linked_append [simp]:
  "linked h a (xs @ y # ys) b \<longleftrightarrow> linked h a xs y \<and> linked h y ys b"
  by (induction xs arbitrary: a) auto

lemma linked_set_next [simp]:
  "x \<notin> set (a # xs) \<Longrightarrow> linked (set_next x v h) a xs b = linked h a xs b"
  by (induction xs arbitrary: a) auto

lemma linked_set_prev [simp]:
  "x \<notin> set (xs @ [b]) \<Longrightarrow> linked (set_prev x v h) a xs b = linked h a xs b"
  by (induction xs arbitrary: a) auto

lemma repr_next: "repr h head xs \<Longrightarrow> next_of h head = Some (hd (xs @ [head]))"
  by (cases xs) (auto simp: repr_def)

lemma repr_prev: "repr h head xs \<Longrightarrow> prev_of h head = Some (last (head # xs))"
  by (cases xs rule: rev_cases) (auto simp: repr_def)

lemma repr_unique: "repr h head xs \<Longrightarrow> repr h head ys \<Longrightarrow> xs = ys"
proof -
  have "linked h a xs b \<Longrightarrow> linked h a ys b \<Longrightarrow> b \<notin> set xs \<Longrightarrow> b \<notin> set ys \<Longrightarrow> xs = ys" for a b
  proof (induction xs arbitrary: a ys)
    case Nil
    then show ?case by (cases ys) auto
  next
    case (Cons x xs)
    then show ?case by (cases ys) auto
  qed
  then show "repr h head xs \<Longrightarrow> repr h head ys \<Longrightarrow> xs = ys"
    by (auto simp: repr_def)
qed


section \<open>Each operation implements its list operation\<close>

text \<open>\<open>same_off A h h'\<close>: an operation touched no link field outside \<open>A\<close>.\<close>

definition same_off :: "addr set \<Rightarrow> links \<Rightarrow> links \<Rightarrow> bool" where
  "same_off A h h' \<longleftrightarrow> (\<forall>a. a \<notin> A \<longrightarrow> next_of h' a = next_of h a \<and> prev_of h' a = prev_of h a)"

lemma linked_cong:
  "same_off A h h' \<Longrightarrow> set (a # xs @ [b]) \<inter> A = {} \<Longrightarrow> linked h' a xs b = linked h a xs b"
  by (induction xs arbitrary: a) (auto simp: same_off_def)

lemma repr_frame:
  "same_off A h h' \<Longrightarrow> set (hd2 # ys) \<inter> A = {} \<Longrightarrow> repr h hd2 ys \<Longrightarrow> repr h' hd2 ys"
  by (auto simp: repr_def linked_cong)

lemma LIST_INIT_repr: "repr (LIST_INIT head h) head []"
  by (simp add: LIST_INIT_def repr_def)

lemma LIST_INIT_frame: "same_off {head} h (LIST_INIT head h)"
  by (simp add: LIST_INIT_def same_off_def)

lemma LIST_EMPTY_iff: "repr h head xs \<Longrightarrow> LIST_EMPTY head h \<longleftrightarrow> xs = []"
  by (cases xs) (auto simp: LIST_EMPTY_def repr_def)

lemma LIST_NOT_EMPTY_iff: "LIST_NOT_EMPTY head h \<longleftrightarrow> \<not> LIST_EMPTY head h"
  by (simp add: LIST_NOT_EMPTY_def LIST_EMPTY_def)

lemma LIST_ADD_repr:
  assumes "repr h head xs" and "e \<notin> set (head # xs)"
  shows "\<exists>h'. LIST_ADD head e h = Some h' \<and> repr h' head (e # xs)
    \<and> same_off (set (e # head # xs)) h h'"
  using assms by (cases xs) (auto simp: LIST_ADD_def repr_def same_off_def)

lemma LIST_ADD_TAIL_repr:
  assumes "repr h head xs" and "e \<notin> set (head # xs)"
  shows "\<exists>h'. LIST_ADD_TAIL head e h = Some h' \<and> repr h' head (xs @ [e])
    \<and> same_off (set (e # head # xs)) h h'"
  using assms by (cases xs rule: rev_cases) (auto simp: LIST_ADD_TAIL_def repr_def same_off_def)

lemma repr_mid:
  "repr h head (xs @ e # ys) \<Longrightarrow>
     prev_of h e = Some (last (head # xs)) \<and> next_of h e = Some (hd (ys @ [head]))"
  by (cases xs rule: rev_cases; cases ys) (auto simp: repr_def)

lemma LIST_DEL_repr:
  assumes "repr h head (xs @ e # ys)"
  shows "\<exists>h'. LIST_DEL e h = Some h' \<and> repr h' head (xs @ ys)
    \<and> prev_of h' e = None \<and> next_of h' e = None \<and> same_off (set (e # head # xs @ ys)) h h'"
  using assms
  by (cases xs rule: rev_cases; cases ys) (auto simp: LIST_DEL_def repr_def same_off_def)

text \<open>Deleting an entry that is not in a list follows a null pointer.\<close>

lemma LIST_DEL_twice: "LIST_DEL e h = Some h' \<Longrightarrow> LIST_DEL e h' = None"
  by (auto simp: LIST_DEL_def split: Option.bind_splits)

lemma list_init_eq: "list_init l h = LIST_INIT l h"
  by (simp add: list_init_def LIST_INIT_def set_prev_def set_next_def)

lemma list_empty_eq: "list_empty head h = LIST_EMPTY head h"
  by (simp add: list_empty_def LIST_EMPTY_def)

lemma list_add_repr:
  assumes "repr h head xs" and "e \<notin> set (head # xs)"
  shows "\<exists>h'. list_add e head h = Some h' \<and> repr h' head (e # xs)
    \<and> same_off (set (e # head # xs)) h h'"
  using assms by (cases xs) (auto simp: list_add_def list_add3_def repr_def same_off_def)

lemma list_add_tail_repr:
  assumes "repr h head xs" and "e \<notin> set (head # xs)"
  shows "\<exists>h'. list_add_tail e head h = Some h' \<and> repr h' head (xs @ [e])
    \<and> same_off (set (e # head # xs)) h h'"
  using assms
  by (cases xs rule: rev_cases) (auto simp: list_add_tail_def list_add3_def repr_def same_off_def)

lemma list_del_repr:
  assumes "repr h head (xs @ e # ys)"
  shows "\<exists>h'. list_del e h = Some h' \<and> repr h' head (xs @ ys)
    \<and> prev_of h' e = None \<and> next_of h' e = None \<and> same_off (set (e # head # xs @ ys)) h h'"
  using assms
  by (cases xs rule: rev_cases; cases ys)
     (auto simp: list_del_def list_del2_def repr_def same_off_def)


section \<open>The contract of a queue\<close>

text \<open>
  What the clients of a ring use, over an abstract link store: the event loops and the server only
  add at the tail, look at the first entry and delete it. \<open>rep h head xs\<close> is the queue's contents.
\<close>

locale intrusive_queue =
  fixes init :: "addr \<Rightarrow> 'h \<Rightarrow> 'h"
    and add_tail :: "addr \<Rightarrow> addr \<Rightarrow> 'h \<Rightarrow> 'h option"
    and del :: "addr \<Rightarrow> 'h \<Rightarrow> 'h option"
    and first :: "addr \<Rightarrow> 'h \<Rightarrow> addr option"
    and isempty :: "addr \<Rightarrow> 'h \<Rightarrow> bool"
    and rep :: "'h \<Rightarrow> addr \<Rightarrow> addr list \<Rightarrow> bool"
  assumes rep_init: "rep (init head h) head []"
    and rep_add_tail: "rep h head xs \<Longrightarrow> e \<notin> set (head # xs) \<Longrightarrow>
      \<exists>h'. add_tail head e h = Some h' \<and> rep h' head (xs @ [e]) \<and>
        (\<forall>hd2 ys. rep h hd2 ys \<longrightarrow> set (hd2 # ys) \<inter> set (e # head # xs) = {} \<longrightarrow> rep h' hd2 ys)"
    and rep_del: "rep h head (xs @ e # ys) \<Longrightarrow>
      \<exists>h'. del e h = Some h' \<and> rep h' head (xs @ ys) \<and>
        (\<forall>hd2 zs. rep h hd2 zs \<longrightarrow> set (hd2 # zs) \<inter> set (e # head # xs @ ys) = {} \<longrightarrow> rep h' hd2 zs)"
    and rep_first: "rep h head xs \<Longrightarrow> first head h = Some (hd (xs @ [head]))"
    and rep_empty: "rep h head xs \<Longrightarrow> isempty head h \<longleftrightarrow> xs = []"
    and rep_distinct: "rep h head xs \<Longrightarrow> distinct (head # xs)"

text \<open>
  The two loops over a queue that recur in the program, over its operations: enqueueing a series of
  entries, and draining (\<open>while(LIST_NOT_EMPTY(head)) { entry = head->next; LIST_DEL(entry); ... }\<close>).
  The fuel of \<open>drain\<close> counts iterations; \<open>drain_all\<close> shows that one more than the length is enough.
\<close>

fun enqueue_all :: "(addr \<Rightarrow> addr \<Rightarrow> 'h \<Rightarrow> 'h option) \<Rightarrow> addr \<Rightarrow> addr list \<Rightarrow> 'h \<Rightarrow> 'h option" where
  "enqueue_all add_tail head [] h = Some h"
| "enqueue_all add_tail head (e # es) h =
     do { h' \<leftarrow> add_tail head e h; enqueue_all add_tail head es h' }"

fun drain :: "(addr \<Rightarrow> 'h \<Rightarrow> addr option) \<Rightarrow> (addr \<Rightarrow> 'h \<Rightarrow> 'h option) \<Rightarrow> (addr \<Rightarrow> 'h \<Rightarrow> bool) \<Rightarrow>
    nat \<Rightarrow> addr \<Rightarrow> 'h \<Rightarrow> (addr list \<times> 'h) option" where
  "drain first del isempty 0 head h = None"
| "drain first del isempty (Suc n) head h =
     (if isempty head h then Some ([], h)
      else do {
        e \<leftarrow> first head h;
        h' \<leftarrow> del e h;
        (es, h'') \<leftarrow> drain first del isempty n head h';
        Some (e # es, h'')
      })"

context intrusive_queue
begin

lemma enqueue_all_rep:
  "rep h head xs \<Longrightarrow> distinct es \<Longrightarrow> set es \<inter> set (head # xs) = {} \<Longrightarrow>
     \<exists>h'. enqueue_all add_tail head es h = Some h' \<and> rep h' head (xs @ es)"
proof (induction es arbitrary: h xs)
  case Nil
  then show ?case by simp
next
  case (Cons e es)
  from Cons.prems obtain h1 where h1: "add_tail head e h = Some h1" "rep h1 head (xs @ [e])"
    using rep_add_tail [of h head xs e] by auto
  from Cons.prems have "distinct es" "set es \<inter> set (head # (xs @ [e])) = {}" by auto
  from Cons.IH [OF h1(2) this] h1(1) show ?case by auto
qed

lemma drain_all:
  "rep h head xs \<Longrightarrow> length xs < n \<Longrightarrow>
     \<exists>h'. drain first del isempty n head h = Some (xs, h') \<and> rep h' head []"
proof (induction xs arbitrary: h n)
  case Nil
  then show ?case using rep_empty by (cases n) auto
next
  case (Cons x xs)
  from Cons.prems obtain m where n: "n = Suc m" "length xs < m" by (cases n) auto
  from Cons.prems(1) have "\<not> isempty head h" "first head h = Some x"
    using rep_empty rep_first by fastforce+
  moreover obtain h1 where "del x h = Some h1" "rep h1 head xs"
    using rep_del [of h head "[]" x xs] Cons.prems(1) by auto
  moreover obtain h' where "drain first del isempty m head h1 = Some (xs, h')" "rep h' head []"
    using Cons.IH [OF \<open>rep h1 head xs\<close> n(2)] by blast
  ultimately show ?case using n(1) by auto
qed

lemma fifo:
  assumes "distinct (head # es)" and "length es < n"
  shows "\<exists>h1 h2. enqueue_all add_tail head es (init head h) = Some h1 \<and>
    drain first del isempty n head h1 = Some (es, h2) \<and> rep h2 head []"
proof -
  have "\<exists>h1. enqueue_all add_tail head es (init head h) = Some h1 \<and> rep h1 head ([] @ es)"
    using assms(1) rep_init by (intro enqueue_all_rep) auto
  then obtain h1 where h1: "enqueue_all add_tail head es (init head h) = Some h1" "rep h1 head es"
    by auto
  from drain_all [OF h1(2) assms(2)] h1(1) show ?thesis by auto
qed

end

interpretation lq: intrusive_queue LIST_INIT LIST_ADD_TAIL LIST_DEL list_first LIST_EMPTY repr
proof unfold_locales
  fix h head xs e
  assume "repr h head xs" "e \<notin> set (head # xs)"
  then show "\<exists>h'. LIST_ADD_TAIL head e h = Some h' \<and> repr h' head (xs @ [e]) \<and>
      (\<forall>hd2 ys. repr h hd2 ys \<longrightarrow> set (hd2 # ys) \<inter> set (e # head # xs) = {} \<longrightarrow> repr h' hd2 ys)"
    using LIST_ADD_TAIL_repr repr_frame by metis
next
  fix h head xs e ys
  assume "repr h head (xs @ e # ys)"
  then show "\<exists>h'. LIST_DEL e h = Some h' \<and> repr h' head (xs @ ys) \<and>
      (\<forall>hd2 zs. repr h hd2 zs \<longrightarrow> set (hd2 # zs) \<inter> set (e # head # xs @ ys) = {} \<longrightarrow> repr h' hd2 zs)"
    using LIST_DEL_repr repr_frame by metis
qed (simp_all add: LIST_INIT_repr list_first_def repr_next LIST_EMPTY_iff, auto simp: repr_def)

interpretation lf: intrusive_queue list_init "\<lambda>head e. list_add_tail e head" list_del list_first list_empty repr
proof unfold_locales
  fix h head xs e
  assume "repr h head xs" "e \<notin> set (head # xs)"
  then show "\<exists>h'. list_add_tail e head h = Some h' \<and> repr h' head (xs @ [e]) \<and>
      (\<forall>hd2 ys. repr h hd2 ys \<longrightarrow> set (hd2 # ys) \<inter> set (e # head # xs) = {} \<longrightarrow> repr h' hd2 ys)"
    using list_add_tail_repr repr_frame by metis
next
  fix h head xs e ys
  assume "repr h head (xs @ e # ys)"
  then show "\<exists>h'. list_del e h = Some h' \<and> repr h' head (xs @ ys) \<and>
      (\<forall>hd2 zs. repr h hd2 zs \<longrightarrow> set (hd2 # zs) \<inter> set (e # head # xs @ ys) = {} \<longrightarrow> repr h' hd2 zs)"
    using list_del_repr repr_frame by metis
qed (simp_all add: list_init_eq LIST_INIT_repr list_first_def repr_next list_empty_eq LIST_EMPTY_iff,
     auto simp: repr_def)

section \<open>The two implementations\<close>

lemma list_add_versions:
  assumes "repr h head xs" "e \<notin> set (head # xs)"
  shows "list_add e head h = LIST_ADD head e h \<and> list_add_tail e head h = LIST_ADD_TAIL head e h"
proof -
  obtain n p where n: "next_of h head = Some n" "n \<in> set (head # xs)" and p: "prev_of h head = Some p" "p \<in> set (head # xs)"
    using repr_next [OF assms(1)] repr_prev [OF assms(1)] by (cases xs) auto
  have "n \<noteq> e" "p \<noteq> e" "head \<noteq> e" using n(2) p(2) assms(2) by auto
  with n(1) p(1) show ?thesis
    by (auto simp: list_add_def list_add_tail_def list_add3_def LIST_ADD_def LIST_ADD_TAIL_def
      set_next_def set_prev_def fun_upd_twist)
qed

lemma list_del_versions:
  assumes "repr h head xs" "e \<in> set xs"
  shows "list_del e h = LIST_DEL e h"
proof -
  from assms(2) obtain as bs where xs: "xs = as @ e # bs" by (meson split_list)
  with assms(1) have d: "distinct (head # as @ e # bs)" by (simp add: repr_def)
  have "e \<noteq> last (head # as)" using d by (cases as rule: rev_cases) auto
  moreover have "e \<noteq> hd (bs @ [head])" using d by (cases bs) auto
  ultimately show ?thesis
    using repr_mid [of h head as e bs] assms(1) xs
    by (auto simp: list_del_def list_del2_def LIST_DEL_def set_next_def set_prev_def fun_upd_twist)
qed

section \<open>Properties\<close>

text \<open>C19. A ring is a FIFO queue: entries added at the tail of a fresh ring are taken from its front in
  the order they were added, and the ring is empty afterwards. (The loops are the ones the event
  loops and the server run; the fuel, one more than the number of entries, is enough.)\<close>

theorem ring_fifo:
  assumes "distinct (head # es)"
  shows "\<exists>h1 h2. enqueue_all LIST_ADD_TAIL head es (LIST_INIT head h) = Some h1 \<and>
    drain list_first LIST_DEL LIST_EMPTY (Suc (length es)) head h1 = Some (es, h2) \<and> repr h2 head []"
  by (rule lq.fifo) (use assms in auto)

lemma ring_fifo_witness:
  "\<exists>h1 h2. enqueue_all LIST_ADD_TAIL 1 [5, 3, 9] (LIST_INIT 1 \<lparr>prev_of = \<lambda>_. None, next_of = \<lambda>_. None\<rparr>) = Some h1 \<and>
    drain list_first LIST_DEL LIST_EMPTY (Suc (length [5, 3, 9 :: addr])) 1 h1 = Some ([5, 3, 9], h2)"
proof -
  have "distinct [1, 5, 3, 9 :: addr]" by simp
  from ring_fifo [OF this] show ?thesis by blast
qed

text \<open>Deleting an entry unlinks exactly that entry, wherever it is in its ring, nulls its own links,
  and touches no link of any other ring.\<close>

lemma ring_delete:
  assumes "repr h head (xs @ e # ys)"
  shows "\<exists>h'. LIST_DEL e h = Some h' \<and> repr h' head (xs @ ys) \<and> prev_of h' e = None \<and> next_of h' e = None \<and>
    (\<forall>hd2 zs. repr h hd2 zs \<and> set (hd2 # zs) \<inter> set (e # head # xs @ ys) = {} \<longrightarrow> repr h' hd2 zs)"
  using LIST_DEL_repr [OF assms] repr_frame by metis

lemma two_entry_ring:
  "repr \<lparr>prev_of = [1 \<mapsto> 3, 2 \<mapsto> 1, 3 \<mapsto> 2], next_of = [1 \<mapsto> 2, 2 \<mapsto> 3, 3 \<mapsto> 1]\<rparr> 1 [2, 3]"
  by (simp add: repr_def)

lemma ring_delete_witness:
  "\<exists>h'. LIST_DEL 2 \<lparr>prev_of = [1 \<mapsto> 3, 2 \<mapsto> 1, 3 \<mapsto> 2], next_of = [1 \<mapsto> 2, 2 \<mapsto> 3, 3 \<mapsto> 1]\<rparr> = Some h' \<and> repr h' 1 [3]"
  using ring_delete [of _ 1 "[]" 2 "[3]"] two_entry_ring by (metis append_Nil)

text \<open>Deleting an entry twice follows a null pointer: the second deletion is undefined.\<close>

lemma ring_delete_twice:
  assumes "LIST_DEL e h = Some h'"
  shows "LIST_DEL e h' = None"
  by (rule LIST_DEL_twice [OF assms])

lemma ring_delete_twice_witness:
  "\<exists>h'. LIST_DEL 2 \<lparr>prev_of = [1 \<mapsto> 2, 2 \<mapsto> 1], next_of = [1 \<mapsto> 2, 2 \<mapsto> 1]\<rparr> = Some h' \<and> LIST_DEL 2 h' = None"
proof -
  have "repr \<lparr>prev_of = [1 \<mapsto> 2, 2 \<mapsto> 1], next_of = [1 \<mapsto> 2, 2 \<mapsto> 1]\<rparr> 1 ([] @ 2 # [])"
    by (simp add: repr_def)
  from LIST_DEL_repr [OF this] show ?thesis using ring_delete_twice [of 2] by blast
qed

text \<open>The two list implementations of the program agree: on a well-formed ring, inserting an entry
  that is not in it, and deleting one that is, leave the same links behind.\<close>

lemma list_versions_agree:
  assumes "repr h head xs"
  shows "(e \<notin> set (head # xs) \<longrightarrow> list_add e head h = LIST_ADD head e h \<and> list_add_tail e head h = LIST_ADD_TAIL head e h) \<and>
    (e \<in> set xs \<longrightarrow> list_del e h = LIST_DEL e h)"
  using list_add_versions [OF assms] list_del_versions [OF assms] by blast

lemma list_versions_agree_witness:
  "list_del 2 \<lparr>prev_of = [1 \<mapsto> 3, 2 \<mapsto> 1, 3 \<mapsto> 2], next_of = [1 \<mapsto> 2, 2 \<mapsto> 3, 3 \<mapsto> 1]\<rparr> =
   LIST_DEL 2 \<lparr>prev_of = [1 \<mapsto> 3, 2 \<mapsto> 1, 3 \<mapsto> 2], next_of = [1 \<mapsto> 2, 2 \<mapsto> 3, 3 \<mapsto> 1]\<rparr>"
  using list_versions_agree [OF two_entry_ring, of 2] by auto

end
