(* ===== verification/Notify.thy ===== *)
theory Notify
  imports Prelude "HOL-Library.Multiset"
begin

text \<open>
  What the programs with a thread pool share: the event counter (\<open>eventfd\<close>) that workers write to and
  the main thread watches with an edge-triggered \<open>epoll\<close>, the condition variable, and the protocol by
  which finished work is handed over. The protocol is an interface: a program that keeps its laws never
  sleeps on finished work.
\<close>

text \<open>A step of a thread can be impossible now, be undefined behaviour, or lead to a state.\<close>

datatype 'a outcome = Blocked | Undefined | Next 'a

definition of_opt :: "'a option \<Rightarrow> 'a outcome" where
  "of_opt x = (case x of None \<Rightarrow> Undefined | Some a \<Rightarrow> Next a)"

section \<open>eventfd under edge-triggered epoll\<close>

text \<open>The counter, and whether it was written to since \<open>epoll_wait\<close> last reported it.\<close>

record efd =
  ef_count :: nat
  ef_edge :: bool

definition efd_new :: efd where
  "efd_new = \<lparr>ef_count = 0, ef_edge = False\<rparr>"

text \<open>A write adds to the counter; one that would pass the maximum fails (\<open>EFD_NONBLOCK\<close>), which the
  programs ignore. \<open>epoll_wait\<close> reports a counter above 0 with a new edge. A read resets the counter.\<close>

definition efd_post :: "nat \<Rightarrow> efd \<Rightarrow> efd" where
  "efd_post v f = (if ef_count f + v \<le> 2 ^ 64 - 2 then \<lparr>ef_count = ef_count f + v, ef_edge = True\<rparr> else f)"

definition efd_ready :: "efd \<Rightarrow> bool" where
  "efd_ready f \<longleftrightarrow> ef_edge f \<and> 0 < ef_count f"

definition efd_wake :: "efd \<Rightarrow> efd" where
  "efd_wake f = f\<lparr>ef_edge := False\<rparr>"

definition efd_read :: "efd \<Rightarrow> efd" where
  "efd_read f = f\<lparr>ef_count := 0\<rparr>"

section \<open>Condition variables\<close>

text \<open>\<open>pthread_cond_signal\<close> wakes one waiting thread, if there is one: thread \<open>j\<close> if that one waits, or the
  first (\<open>j\<close> is the scheduler's choice). \<open>w\<close> is the place of a waiting thread, \<open>k\<close> of a woken one.\<close>

fun wake_first :: "'p \<Rightarrow> 'p \<Rightarrow> 'p list \<Rightarrow> 'p list" where
  "wake_first w k [] = []"
| "wake_first w k (p # ps) = (if p = w then k # ps else p # wake_first w k ps)"

definition signal_one :: "'p \<Rightarrow> 'p \<Rightarrow> nat \<Rightarrow> 'p list \<Rightarrow> 'p list" where
  "signal_one w k j ps = (if j < length ps \<and> ps ! j = w then ps[j := k] else wake_first w k ps)"

lemma signal_one_update: "\<exists>i. signal_one w k j ps = ps[i := k] \<and> i < length ps \<and> ps ! i = w \<or> signal_one w k j ps = ps"
proof -
  have "\<exists>i. wake_first w k ps = ps[i := k] \<and> i < length ps \<and> ps ! i = w \<or> wake_first w k ps = ps"
  proof (induction ps)
    case (Cons p ps)
    then show ?case
    proof (elim exE disjE conjE)
      fix i assume "wake_first w k ps = ps[i := k]" "i < length ps" "ps ! i = w"
      then show ?thesis by (intro exI [of _ "if p = w then 0 else Suc i"]) simp
    qed (auto intro: exI [of _ 0])
  qed simp
  then show ?thesis by (auto simp: signal_one_def)
qed

lemma length_signal_one [simp]: "length (signal_one w k j ps) = length ps"
  using signal_one_update [of w k j ps] by auto

lemma set_signal_one: "set (signal_one w k j ps) \<subseteq> insert k (set ps)"
  using signal_one_update [of w k j ps] set_update_subset_insert by force

text \<open>What the threads hold, as a multiset.\<close>

definition in_hands :: "('p \<Rightarrow> 'a list) \<Rightarrow> 'p list \<Rightarrow> 'a multiset" where
  "in_hands hold ps = mset (concat (map hold ps))"

lemma in_hands_update:
  "i < length ps \<Longrightarrow> in_hands hold (ps[i := p]) + mset (hold (ps ! i)) = in_hands hold ps + mset (hold p)"
proof (induction ps arbitrary: i)
  case (Cons q ps)
  show ?case
  proof (cases i)
    case (Suc k)
    with Cons.IH [of k] Cons.prems show ?thesis by (simp add: in_hands_def union_assoc)
  qed (simp add: in_hands_def union_ac)
qed simp

lemma in_hands_same: "i < length ps \<Longrightarrow> hold (ps ! i) = hold p \<Longrightarrow> in_hands hold (ps[i := p]) = in_hands hold ps"
  using in_hands_update [of i ps hold p] by simp

lemma in_hands_signal: "hold w = hold k \<Longrightarrow> in_hands hold (signal_one w k j ps) = in_hands hold ps"
  using signal_one_update [of w k j ps] in_hands_same by metis

section \<open>Counting steps\<close>

lemma sum_map_update:
  "i < length ps \<Longrightarrow> sum_list (map f (ps[i := p])) + f (ps ! i) = sum_list (map f ps) + (f p :: nat)"
proof (induction ps arbitrary: i)
  case (Cons q ps)
  show ?case by (cases i) (use Cons.IH Cons.prems in auto)
qed simp

lemma relpow_measure:
  fixes m :: "'s \<Rightarrow> nat"
  assumes "\<And>a b. R a b \<Longrightarrow> m b < m a"
  shows "(R ^^ n) a b \<Longrightarrow> n + m b \<le> m a"
proof (induction n arbitrary: b)
  case (Suc n)
  then obtain c where "(R ^^ n) a c" "R c b" by auto
  with Suc.IH [of c] assms [of c b] show ?case by simp
qed simp

section \<open>The interface\<close>

text \<open>Where the main thread is: in \<open>epoll_wait\<close>; woken, before it reads the counter; after that, before it
  empties the queue; past its loop.\<close>

datatype phase = Idle | Woken | Cleared | Off

text \<open>The laws for a step of the program, on the queue of finished work, the counter and the main thread: work is
  appended together with a write to the counter, the counter is read before the queue is emptied, and only
  then does the main thread wait again.\<close>

inductive edge_law :: "'a list \<times> efd \<times> phase \<Rightarrow> 'a list \<times> efd \<times> phase \<Rightarrow> bool" where
  other: "edge_law (q, f, m) (q, f, m)"
| notify: "0 < v \<Longrightarrow> v < 2 ^ 63 \<Longrightarrow> edge_law (q, f, m) (q, efd_post v f, m)"
| put: "0 < v \<Longrightarrow> v < 2 ^ 63 \<Longrightarrow> edge_law (q, f, m) (q @ [x], efd_post v f, m)"
| wake: "efd_ready f \<Longrightarrow> edge_law (q, f, Idle) (q, efd_wake f, Woken)"
| reset: "edge_law (q, f, Woken) (q, efd_read f, Cleared)"
| drain: "edge_law (q, f, Cleared) ([], f, Idle)"
| leave: "edge_law (q, f, m) (q', f', Off)"

inductive_cases edge_lawE: "edge_law x y"

text \<open>The queue is empty or the next \<open>epoll_wait\<close> returns; and past the read, a counter above 0 has its edge.\<close>

definition edge_inv :: "'a list \<times> efd \<times> phase \<Rightarrow> bool" where
  "edge_inv = (\<lambda>(q, f, m).
     (m = Idle \<longrightarrow> q = [] \<or> efd_ready f) \<and> (m = Idle \<or> m = Cleared \<longrightarrow> 0 < ef_count f \<longrightarrow> ef_edge f))"

lemma efd_post_ready: "0 < v \<Longrightarrow> v < 2 ^ 63 \<Longrightarrow> efd_ready (efd_post v f) \<or> (efd_post v f = f \<and> 0 < ef_count f)"
  by (auto simp: efd_post_def efd_ready_def)

lemma edge_law_inv: "edge_law x y \<Longrightarrow> edge_inv x \<Longrightarrow> edge_inv y"
proof (induction rule: edge_law.induct)
  case (notify v q f m)
  with efd_post_ready [of v f] show ?case by (auto simp: edge_inv_def efd_ready_def)
next
  case (put v q f m x)
  with efd_post_ready [of v f] show ?case by (auto simp: edge_inv_def efd_ready_def)
qed (auto simp: edge_inv_def efd_read_def)

locale edge_queue =
  fixes step :: "'s \<Rightarrow> 's \<Rightarrow> bool" and start :: "'s \<Rightarrow> bool"
    and queue :: "'s \<Rightarrow> 'a list" and counter :: "'s \<Rightarrow> efd" and main :: "'s \<Rightarrow> phase"
  assumes starts: "start s \<Longrightarrow> queue s = [] \<and> counter s = efd_new"
    and law: "step s s' \<Longrightarrow> edge_law (queue s, counter s, main s) (queue s', counter s', main s')"
begin

lemma runs_keep_inv:
  assumes "start s0" "step\<^sup>*\<^sup>* s0 s"
  shows "edge_inv (queue s, counter s, main s)"
  using assms(2)
proof (induction rule: rtranclp_induct)
  case base
  then show ?case using starts [OF assms(1)] by (simp add: edge_inv_def efd_new_def)
next
  case (step s s')
  then show ?case using law edge_law_inv by blast
qed

text \<open>Finished work is never slept on.\<close>

lemma no_stranded_work:
  assumes "start s0" "step\<^sup>*\<^sup>* s0 s" "main s = Idle" "\<not> efd_ready (counter s)"
  shows "queue s = []"
  using runs_keep_inv [OF assms(1,2)] assms(3,4) by (simp add: edge_inv_def)

end

end
