(* ===== verification/EvLoop.thy ===== *)
theory EvLoop
  imports ListH Notify
begin

text \<open>
  The event loop of \<open>src/ev\<close>: a pool of worker threads (\<open>ev_work\<close>) that take requests from
  \<open>list[0]\<close>, run them and put them into \<open>list[1]\<close>; the clients' macro \<open>EV_REQ_ADD\<close>; set-up, tear-down
  and the loop \<open>ev_loop_run\<close>.

  A state of the program is the two rings in memory, the two mutexes, the counter of waiting
  threads, the event counter, and where every thread is. A thread runs alone between two points where
  another thread can see what it did: taking a mutex, the test of the queue, the waiting on the
  condition variable, and the rest of a critical section are steps of their own. The steps of all
  threads interleave in any order (\<open>ev_step\<close>).
\<close>

section \<open>State\<close>

text \<open>The heads \<open>&loop->list[0]\<close> and \<open>&loop->list[1]\<close>. The list entry is the first field of a
  request, so \<open>LIST_ENTRY\<close> is the identity and a request is the address of its entry.\<close>

definition list0 :: addr where "list0 = 0"
definition list1 :: addr where "list1 = 1"

text \<open>Where a worker is: before the first lock; holding \<open>mutex[0]\<close> at the loop's test; blocked on
  \<open>cond[0]\<close>; woken, before it has \<open>mutex[0]\<close> again; holding \<open>mutex[0]\<close> with a non-empty queue; running
  a request; before the second lock; holding \<open>mutex[1]\<close>.\<close>

datatype wpc = W_Lock0 | W_Test | W_Wait | W_Wake | W_Take | W_Work addr | W_Lock1 addr | W_Put addr

datatype owner = Worker nat | Client

record ev_loop =
  lp_links :: links
  lp_wait_threads :: int
  lp_mutex0 :: "owner option"
  lp_mutex1 :: "owner option"
  lp_efd :: nat
  lp_pcs :: "wpc list"
  lp_client :: "addr option"
  lp_added :: "addr list"
  lp_taken :: "addr list"

text \<open>\<open>lp_client\<close> is the request of the client thread that holds \<open>mutex[0]\<close> inside \<open>EV_REQ_ADD\<close>. The last
  two fields are history, not program state: the requests added and the requests taken, in order.\<close>

section \<open>Operations\<close>

definition ev_loop_init :: "nat \<Rightarrow> links \<Rightarrow> ev_loop" where
  "ev_loop_init nthreads h =
     \<lparr>lp_links = LIST_INIT list1 (LIST_INIT list0 h), lp_wait_threads = 0, lp_mutex0 = None, lp_mutex1 = None,
      lp_efd = 0, lp_pcs = replicate nthreads W_Lock0, lp_client = None, lp_added = [], lp_taken = []\<rparr>"

definition goto :: "nat \<Rightarrow> wpc \<Rightarrow> ev_loop \<Rightarrow> ev_loop" where
  "goto i p s = s\<lparr>lp_pcs := (lp_pcs s)[i := p]\<rparr>"

text \<open>\<open>pthread_cond_signal\<close> wakes one waiting thread, if there is one; \<open>j\<close> is the scheduler's choice. That
  it may wake more than one is covered by spurious wake-ups.\<close>

fun first_waiting :: "wpc list \<Rightarrow> nat option" where
  "first_waiting [] = None"
| "first_waiting (p # ps) = (if p = W_Wait then Some 0 else map_option Suc (first_waiting ps))"

definition chosen :: "nat \<Rightarrow> wpc list \<Rightarrow> nat option" where
  "chosen j ps = (if j < length ps \<and> ps ! j = W_Wait then Some j else first_waiting ps)"

definition cond_signal :: "nat \<Rightarrow> ev_loop \<Rightarrow> ev_loop" where
  "cond_signal j s = (case chosen j (lp_pcs s) of None \<Rightarrow> s | Some k \<Rightarrow> goto k W_Wake s)"

text \<open>The eventfd counter stops one below its maximum (the write then fails, and the code ignores it).\<close>

definition efd_write :: "nat \<Rightarrow> nat" where
  "efd_write n = (if n < 2 ^ 64 - 2 then n + 1 else n)"

text \<open>\<open>ev_work\<close>, holding \<open>mutex[0]\<close> with a non-empty queue: take the first entry, pass the signal on,
  unlock.\<close>

definition ev_take :: "nat \<Rightarrow> nat \<Rightarrow> ev_loop \<Rightarrow> ev_loop option" where
  "ev_take i j s = do {
     entry \<leftarrow> list_first list0 (lp_links s);
     h \<leftarrow> LIST_DEL entry (lp_links s);
     let s1 = s\<lparr>lp_links := h, lp_taken := lp_taken s @ [entry]\<rparr>;
     let s2 = (if LIST_NOT_EMPTY list0 h \<and> lp_wait_threads s1 > 0 then cond_signal j s1 else s1);
     Some (goto i (W_Work entry) (s2\<lparr>lp_mutex0 := None\<rparr>))
   }"

text \<open>Holding \<open>mutex[1]\<close>: put the entry into \<open>list[1]\<close>, notify the main thread, unlock.\<close>

definition ev_put :: "nat \<Rightarrow> addr \<Rightarrow> ev_loop \<Rightarrow> ev_loop option" where
  "ev_put i entry s = do {
     h \<leftarrow> LIST_ADD_TAIL list1 entry (lp_links s);
     Some (goto i W_Lock0 (s\<lparr>lp_links := h, lp_efd := efd_write (lp_efd s), lp_mutex1 := None\<rparr>))
   }"

text \<open>A step of worker \<open>i\<close>. The call \<open>req->work(req)\<close> is client code that returns.\<close>

definition ev_work :: "nat \<Rightarrow> nat \<Rightarrow> ev_loop \<Rightarrow> ev_loop outcome" where
  "ev_work i j s =
     (case lp_pcs s ! i of
        W_Lock0 \<Rightarrow>
          if lp_mutex0 s = None then Next (goto i W_Test (s\<lparr>lp_mutex0 := Some (Worker i)\<rparr>)) else Blocked
      | W_Test \<Rightarrow>
          if LIST_EMPTY list0 (lp_links s)
          then Next (goto i W_Wait (s\<lparr>lp_wait_threads := lp_wait_threads s + 1, lp_mutex0 := None\<rparr>))
          else Next (goto i W_Take s)
      | W_Wait \<Rightarrow> Blocked
      | W_Wake \<Rightarrow>
          if lp_mutex0 s = None
          then Next (goto i W_Test (s\<lparr>lp_mutex0 := Some (Worker i), lp_wait_threads := lp_wait_threads s - 1\<rparr>))
          else Blocked
      | W_Take \<Rightarrow> of_opt (ev_take i j s)
      | W_Work e \<Rightarrow> Next (goto i (W_Lock1 e) s)
      | W_Lock1 e \<Rightarrow>
          if lp_mutex1 s = None then Next (goto i (W_Put e) (s\<lparr>lp_mutex1 := Some (Worker i)\<rparr>)) else Blocked
      | W_Put e \<Rightarrow> of_opt (ev_put i e s))"

text \<open>\<open>EV_REQ_ADD\<close>: lock, and the critical section.\<close>

definition add_lock :: "addr \<Rightarrow> ev_loop \<Rightarrow> ev_loop outcome" where
  "add_lock e s =
     (if lp_mutex0 s = None then Next (s\<lparr>lp_mutex0 := Some Client, lp_client := Some e\<rparr>) else Blocked)"

definition add_entry :: "addr \<Rightarrow> nat \<Rightarrow> ev_loop \<Rightarrow> ev_loop option" where
  "add_entry e j s = do {
     h \<leftarrow> LIST_ADD_TAIL list0 e (lp_links s);
     let s1 = s\<lparr>lp_links := h, lp_added := lp_added s @ [e]\<rparr>;
     let s2 = (if lp_wait_threads s1 > 0 then cond_signal j s1 else s1);
     Some (s2\<lparr>lp_mutex0 := None, lp_client := None\<rparr>)
   }"

text \<open>\<open>ev_loop_destroy\<close>. Destroying a locked mutex or a condition variable that a thread waits for is undefined; otherwise
  the loop is freed and what is left are the places of the workers. A worker that runs a request can finish
  it; every other step of a worker reads the loop.\<close>

definition ev_loop_destroy :: "ev_loop \<Rightarrow> wpc list outcome" where
  "ev_loop_destroy s =
     (if lp_mutex0 s \<noteq> None \<or> lp_mutex1 s \<noteq> None \<or> W_Wait \<in> set (lp_pcs s) then Undefined else Next (lp_pcs s))"

definition ev_work_freed :: "nat \<Rightarrow> wpc list \<Rightarrow> wpc list outcome" where
  "ev_work_freed i pcs = (case pcs ! i of W_Work e \<Rightarrow> Next (pcs[i := W_Lock1 e]) | _ \<Rightarrow> Undefined)"

text \<open>The interleavings. A client adds a request that is not in the loop already; waking without a
  signal is allowed by POSIX.\<close>

inductive work_step :: "ev_loop \<Rightarrow> ev_loop \<Rightarrow> bool" where
  work: "i < length (lp_pcs s) \<Longrightarrow> ev_work i j s = Next s' \<Longrightarrow> work_step s s'"
| add_finish: "lp_client s = Some e \<Longrightarrow> add_entry e j s = Some s' \<Longrightarrow> work_step s s'"

inductive ev_step :: "ev_loop \<Rightarrow> ev_loop \<Rightarrow> bool" where
  run: "work_step s s' \<Longrightarrow> ev_step s s'"
| spurious: "i < length (lp_pcs s) \<Longrightarrow> lp_pcs s ! i = W_Wait \<Longrightarrow> ev_step s (goto i W_Wake s)"
| add_start: "e \<notin> set (list0 # list1 # lp_added s) \<Longrightarrow> add_lock e s = Next s' \<Longrightarrow> ev_step s s'"

inductive_cases work_stepE: "work_step s s'"
inductive_cases ev_stepE: "ev_step s s'"

definition ev_reachable :: "nat \<Rightarrow> ev_loop \<Rightarrow> bool" where
  "ev_reachable n s \<longleftrightarrow> (\<exists>h. ev_step\<^sup>*\<^sup>* (ev_loop_init n h) s)"

text \<open>\<open>ev_loop_run\<close>: the results of \<open>epoll_wait\<close> are its input, each the return value and the descriptors of
  the events; the loop ends with the first negative one. \<^term>\<open>None\<close>: it still waits.\<close>

fun ev_loop_run :: "('a \<Rightarrow> int \<Rightarrow> 'a) \<Rightarrow> (int \<times> int list) list \<Rightarrow> 'a \<Rightarrow> 'a option" where
  "ev_loop_run callback [] st = None"
| "ev_loop_run callback ((nfds, fds) # polls) st =
     (if nfds < 0 then Some st
      else ev_loop_run callback polls (foldl callback st (take (nat nfds) fds)))"

section \<open>The invariant\<close>

fun held :: "wpc \<Rightarrow> addr list" where
  "held (W_Work e) = [e]"
| "held (W_Lock1 e) = [e]"
| "held (W_Put e) = [e]"
| "held _ = []"

definition in0 :: "wpc \<Rightarrow> bool" where "in0 p \<longleftrightarrow> p = W_Test \<or> p = W_Take"
definition in1 :: "wpc \<Rightarrow> bool" where "in1 p \<longleftrightarrow> (\<exists>e. p = W_Put e)"
definition waits :: "wpc \<Rightarrow> bool" where "waits p \<longleftrightarrow> p = W_Wait \<or> p = W_Wake"
definition alert :: "wpc \<Rightarrow> bool" where "alert p \<longleftrightarrow> p = W_Lock0 \<or> p = W_Test \<or> p = W_Wake \<or> p = W_Take"

lemma pc_simps [simp]:
  "in0 W_Test" "in0 W_Take" "\<not> in0 W_Lock0" "\<not> in0 W_Wait" "\<not> in0 W_Wake"
  "\<not> in0 (W_Work e)" "\<not> in0 (W_Lock1 e)" "\<not> in0 (W_Put e)"
  "in1 (W_Put e)" "\<not> in1 W_Lock0" "\<not> in1 W_Test" "\<not> in1 W_Wait" "\<not> in1 W_Wake" "\<not> in1 W_Take"
  "\<not> in1 (W_Work e)" "\<not> in1 (W_Lock1 e)"
  "waits W_Wait" "waits W_Wake" "\<not> waits W_Lock0" "\<not> waits W_Test" "\<not> waits W_Take"
  "\<not> waits (W_Work e)" "\<not> waits (W_Lock1 e)" "\<not> waits (W_Put e)"
  "alert W_Lock0" "alert W_Test" "alert W_Wake" "alert W_Take" "\<not> alert W_Wait"
  "\<not> alert (W_Work e)" "\<not> alert (W_Lock1 e)" "\<not> alert (W_Put e)"
  by (simp_all add: in0_def in1_def waits_def alert_def)

definition n_waits :: "wpc list \<Rightarrow> nat" where
  "n_waits ps = length (filter waits ps)"

definition in_hand :: "wpc list \<Rightarrow> addr multiset" where
  "in_hand ps = mset (concat (map held ps))"

text \<open>The queues \<open>q0\<close> and \<open>q1\<close> are what the rings hold; the requests added are those taken, in order,
  and those still queued; those taken are in the hands of a worker or done.\<close>

definition data_inv :: "addr list \<Rightarrow> addr list \<Rightarrow> ev_loop \<Rightarrow> bool" where
  "data_inv q0 q1 s \<longleftrightarrow> repr (lp_links s) list0 q0 \<and> repr (lp_links s) list1 q1 \<and>
     lp_added s = lp_taken s @ q0 \<and> mset (lp_taken s) = in_hand (lp_pcs s) + mset q1 \<and>
     distinct (list0 # list1 # lp_added s)"

text \<open>Mutual exclusion, the meaning of \<open>wait_threads\<close>, and no worker asleep while a request is queued
  that no other worker is about to take.\<close>

definition sync_inv :: "bool \<Rightarrow> ev_loop \<Rightarrow> bool" where
  "sync_inv ne s \<longleftrightarrow>
     (\<forall>i. lp_mutex0 s = Some (Worker i) \<longleftrightarrow> i < length (lp_pcs s) \<and> in0 (lp_pcs s ! i)) \<and>
     (\<forall>i. lp_mutex1 s = Some (Worker i) \<longleftrightarrow> i < length (lp_pcs s) \<and> in1 (lp_pcs s ! i)) \<and>
     lp_mutex1 s \<noteq> Some Client \<and> (lp_mutex0 s = Some Client \<longleftrightarrow> lp_client s \<noteq> None) \<and>
     (\<forall>e. lp_client s = Some e \<longrightarrow> e \<notin> set (list0 # list1 # lp_added s)) \<and>
     lp_wait_threads s = int (n_waits (lp_pcs s)) \<and>
     (W_Take \<in> set (lp_pcs s) \<longrightarrow> ne) \<and>
     (ne \<longrightarrow> W_Wait \<in> set (lp_pcs s) \<longrightarrow> (\<exists>p \<in> set (lp_pcs s). alert p))"

definition ev_inv :: "addr list \<Rightarrow> addr list \<Rightarrow> ev_loop \<Rightarrow> bool" where
  "ev_inv q0 q1 s \<longleftrightarrow> data_inv q0 q1 s \<and> sync_inv (q0 \<noteq> []) s"

section \<open>Lists of threads\<close>

lemma goto_simps [simp]:
  "lp_links (goto i p s) = lp_links s" "lp_wait_threads (goto i p s) = lp_wait_threads s"
  "lp_mutex0 (goto i p s) = lp_mutex0 s" "lp_mutex1 (goto i p s) = lp_mutex1 s"
  "lp_efd (goto i p s) = lp_efd s" "lp_pcs (goto i p s) = (lp_pcs s)[i := p]"
  "lp_client (goto i p s) = lp_client s" "lp_added (goto i p s) = lp_added s" "lp_taken (goto i p s) = lp_taken s"
  by (simp_all add: goto_def)

lemma n_waits_update:
  "i < length ps \<Longrightarrow> n_waits (ps[i := p]) + of_bool (waits (ps ! i)) = n_waits ps + of_bool (waits p)"
proof (induction ps arbitrary: i)
  case (Cons q ps)
  show ?case
  proof (cases i)
    case (Suc k)
    with Cons.IH [of k] Cons.prems show ?thesis by (simp add: n_waits_def)
  qed (simp add: n_waits_def)
qed simp

lemma in_hand_update:
  "i < length ps \<Longrightarrow> in_hand (ps[i := p]) + mset (held (ps ! i)) = in_hand ps + mset (held p)"
proof (induction ps arbitrary: i)
  case (Cons q ps)
  show ?case
  proof (cases i)
    case (Suc k)
    with Cons.IH [of k] Cons.prems show ?thesis by (simp add: in_hand_def union_assoc)
  qed (simp add: in_hand_def union_ac)
qed simp

lemma in_hand_same: "i < length ps \<Longrightarrow> held (ps ! i) = held p \<Longrightarrow> in_hand (ps[i := p]) = in_hand ps"
  using in_hand_update [of i ps p] by simp

lemma first_waiting_None: "first_waiting ps = None \<longleftrightarrow> W_Wait \<notin> set ps"
  by (induction ps) auto

lemma first_waiting_Some: "first_waiting ps = Some k \<Longrightarrow> k < length ps \<and> ps ! k = W_Wait"
  by (induction ps arbitrary: k) (auto split: if_splits)

lemma chosen_Some: "chosen j ps = Some k \<Longrightarrow> k < length ps \<and> ps ! k = W_Wait"
  using first_waiting_Some by (auto simp: chosen_def split: if_splits)

lemma chosen_None: "chosen j ps = None \<longleftrightarrow> W_Wait \<notin> set ps"
  by (auto simp: chosen_def first_waiting_None) (metis nth_mem)

lemma n_waits_pos: "W_Wait \<in> set ps \<Longrightarrow> 0 < n_waits ps"
  by (induction ps) (auto simp: n_waits_def)

text \<open>What a signal does to the threads: nothing, or one of them stops waiting.\<close>

lemma cond_signal_simps [simp]:
  "lp_links (cond_signal j s) = lp_links s" "lp_wait_threads (cond_signal j s) = lp_wait_threads s"
  "lp_mutex0 (cond_signal j s) = lp_mutex0 s" "lp_mutex1 (cond_signal j s) = lp_mutex1 s"
  "lp_efd (cond_signal j s) = lp_efd s" "lp_client (cond_signal j s) = lp_client s"
  "lp_added (cond_signal j s) = lp_added s" "lp_taken (cond_signal j s) = lp_taken s"
  "length (lp_pcs (cond_signal j s)) = length (lp_pcs s)"
  by (simp_all add: cond_signal_def split: option.split)

lemma cond_signal_pcs:
  "lp_pcs (cond_signal j s) = (case chosen j (lp_pcs s) of None \<Rightarrow> lp_pcs s | Some k \<Rightarrow> (lp_pcs s)[k := W_Wake])"
  by (simp add: cond_signal_def split: option.split)

lemma cond_signal_facts:
  "in_hand (lp_pcs (cond_signal j s)) = in_hand (lp_pcs s)"
  "n_waits (lp_pcs (cond_signal j s)) = n_waits (lp_pcs s)"
  "in0 (lp_pcs (cond_signal j s) ! i) = in0 (lp_pcs s ! i)"
  "in1 (lp_pcs (cond_signal j s) ! i) = in1 (lp_pcs s ! i)"
  "lp_pcs s ! i \<noteq> W_Wait \<Longrightarrow> lp_pcs (cond_signal j s) ! i = lp_pcs s ! i"
  "W_Take \<in> set (lp_pcs (cond_signal j s)) \<longleftrightarrow> W_Take \<in> set (lp_pcs s)"
proof -
  note c = chosen_Some [of j "lp_pcs s"]
  show "in_hand (lp_pcs (cond_signal j s)) = in_hand (lp_pcs s)"
    using c by (auto simp: cond_signal_pcs in_hand_same split: option.split)
  show "n_waits (lp_pcs (cond_signal j s)) = n_waits (lp_pcs s)"
    using c n_waits_update [of _ "lp_pcs s" W_Wake] by (fastforce simp: cond_signal_pcs split: option.split)
  show "in0 (lp_pcs (cond_signal j s) ! i) = in0 (lp_pcs s ! i)"
    "in1 (lp_pcs (cond_signal j s) ! i) = in1 (lp_pcs s ! i)"
    "lp_pcs s ! i \<noteq> W_Wait \<Longrightarrow> lp_pcs (cond_signal j s) ! i = lp_pcs s ! i"
    using c by (auto simp: cond_signal_pcs nth_list_update split: option.split)
  show "W_Take \<in> set (lp_pcs (cond_signal j s)) \<longleftrightarrow> W_Take \<in> set (lp_pcs s)"
    using c by (auto simp: cond_signal_pcs in_set_conv_nth nth_list_update split: option.split) (metis wpc.distinct)+
qed

lemma cond_signal_alert:
  "W_Wait \<in> set (lp_pcs s) \<Longrightarrow> \<exists>k < length (lp_pcs s). lp_pcs s ! k = W_Wait \<and> lp_pcs (cond_signal j s) = (lp_pcs s)[k := W_Wake]"
  using chosen_None [of j "lp_pcs s"] chosen_Some [of j "lp_pcs s"]
  by (auto simp: cond_signal_pcs split: option.split)

section \<open>Every step preserves it\<close>

lemma data_inv_cong:
  "lp_links s' = lp_links s \<Longrightarrow> lp_added s' = lp_added s \<Longrightarrow> lp_taken s' = lp_taken s \<Longrightarrow>
     in_hand (lp_pcs s') = in_hand (lp_pcs s) \<Longrightarrow> data_inv q0 q1 s' = data_inv q0 q1 s"
  unfolding data_inv_def by simp

lemma data_inv_goto:
  "data_inv q0 q1 s \<Longrightarrow> i < length (lp_pcs s) \<Longrightarrow> held (lp_pcs s ! i) = held p \<Longrightarrow> data_inv q0 q1 (goto i p s)"
  using data_inv_cong [of "goto i p s" s q0 q1] by (simp add: in_hand_same)

lemma init_inv: "ev_inv [] [] (ev_loop_init n h)"
proof -
  let ?h = "LIST_INIT list1 (LIST_INIT list0 h)"
  have "repr ?h list0 []"
    by (rule repr_frame [OF LIST_INIT_frame _ LIST_INIT_repr]) (simp add: list0_def list1_def)
  moreover have "repr ?h list1 []" by (rule LIST_INIT_repr)
  ultimately show ?thesis
    by (simp add: ev_inv_def data_inv_def sync_inv_def ev_loop_init_def in_hand_def n_waits_def
      list0_def list1_def map_replicate_const)
qed

text \<open>Mutual exclusion: two workers are not both in a section of the same mutex.\<close>

lemma sync_unique0:
  "sync_inv ne s \<Longrightarrow> i < length (lp_pcs s) \<Longrightarrow> j < length (lp_pcs s) \<Longrightarrow> in0 (lp_pcs s ! i) \<Longrightarrow> in0 (lp_pcs s ! j) \<Longrightarrow> i = j"
  unfolding sync_inv_def by (metis option.inject owner.inject)

lemma sync_unique1:
  "sync_inv ne s \<Longrightarrow> i < length (lp_pcs s) \<Longrightarrow> j < length (lp_pcs s) \<Longrightarrow> in1 (lp_pcs s ! i) \<Longrightarrow> in1 (lp_pcs s ! j) \<Longrightarrow> i = j"
  unfolding sync_inv_def by (metis option.inject owner.inject)

text \<open>The parts of \<open>sync_inv\<close>, for a state that differs in one thread.\<close>

lemma mutex_update:
  assumes "\<forall>i. m = Some (Worker i) \<longleftrightarrow> i < length ps \<and> P (ps ! i)" "k < length ps"
  shows "P p = P (ps ! k) \<Longrightarrow> \<forall>i. m = Some (Worker i) \<longleftrightarrow> i < length ps \<and> P (ps[k := p] ! i)"
    and "P (ps ! k) \<Longrightarrow> \<not> P p \<Longrightarrow> \<forall>i. None = Some (Worker i) \<longleftrightarrow> i < length ps \<and> P (ps[k := p] ! i)"
    and "m = None \<Longrightarrow> P p \<Longrightarrow> \<forall>i. Some (Worker k) = Some (Worker i) \<longleftrightarrow> i < length ps \<and> P (ps[k := p] ! i)"
proof -
  show "\<forall>i. m = Some (Worker i) \<longleftrightarrow> i < length ps \<and> P (ps[k := p] ! i)" if "P p = P (ps ! k)"
  proof
    fix i
    have e: "P (ps[k := p] ! i) = P (ps ! i)"
    proof (cases "i = k")
      case True
      then have "ps[k := p] ! i = p" using assms(2) by simp
      with that True show ?thesis by (simp only:)
    next
      case False
      then have "ps[k := p] ! i = ps ! i" by simp
      then show ?thesis by (simp only:)
    qed
    show "m = Some (Worker i) \<longleftrightarrow> i < length ps \<and> P (ps[k := p] ! i)"
      unfolding e by (rule assms(1) [rule_format])
  qed
  show "\<forall>i. None = Some (Worker i) \<longleftrightarrow> i < length ps \<and> P (ps[k := p] ! i)" if "P (ps ! k)" "\<not> P p"
  proof -
    have m: "m = Some (Worker k)" using assms that(1) by blast
    have "i = k" if "i < length ps" "P (ps ! i)" for i
    proof -
      from assms(1) that have "m = Some (Worker i)" by blast
      with m show ?thesis by simp
    qed
    then show ?thesis using assms(2) that(2) by (auto simp: nth_list_update)
  qed
  show "\<forall>i. Some (Worker k) = Some (Worker i) \<longleftrightarrow> i < length ps \<and> P (ps[k := p] ! i)" if "m = None" "P p"
  proof
    fix i
    from assms(1) that(1) have "\<not> (i < length ps \<and> P (ps ! i))" by blast
    with that(2) assms(2) show "Some (Worker k) = Some (Worker i) \<longleftrightarrow> i < length ps \<and> P (ps[k := p] ! i)"
      by (cases "i = k") auto
  qed
qed

lemma alert_update:
  "i < length ps \<Longrightarrow> alert p \<Longrightarrow> \<exists>q \<in> set (ps[i := p]). alert q"
  "i < length ps \<Longrightarrow> \<not> alert (ps ! i) \<Longrightarrow> \<exists>q \<in> set ps. alert q \<Longrightarrow> \<exists>q \<in> set (ps[i := p]). alert q"
proof -
  show "i < length ps \<Longrightarrow> alert p \<Longrightarrow> \<exists>q \<in> set (ps[i := p]). alert q"
    by (meson set_update_memI)
  assume i: "i < length ps" "\<not> alert (ps ! i)" "\<exists>q \<in> set ps. alert q"
  then obtain k where k: "k < length ps" "alert (ps ! k)" by (auto simp: in_set_conv_nth)
  with i have "ps[i := p] ! k = ps ! k" "k < length (ps[i := p])" by (auto simp: nth_list_update)
  with k(2) show "\<exists>q \<in> set (ps[i := p]). alert q" by (metis nth_mem)
qed

lemma mem_update: "x \<in> set (ps[i := p]) \<Longrightarrow> x = p \<or> x \<in> set ps"
  using set_update_subset_insert [of ps i p] by auto

text \<open>A thread that moves on, with what it does to the mutexes and the counter.\<close>

lemma sync_move:
  assumes inv: "sync_inv ne s" and i: "i < length (lp_pcs s)"
    and s': "lp_pcs s' = (lp_pcs s)[i := p]" "lp_client s' = lp_client s" "lp_added s' = lp_added s"
    and m0: "in0 p = in0 (lp_pcs s ! i) \<and> lp_mutex0 s' = lp_mutex0 s \<or>
      in0 (lp_pcs s ! i) \<and> \<not> in0 p \<and> lp_mutex0 s' = None \<or>
      lp_mutex0 s = None \<and> in0 p \<and> lp_mutex0 s' = Some (Worker i)"
    and m1: "in1 p = in1 (lp_pcs s ! i) \<and> lp_mutex1 s' = lp_mutex1 s \<or>
      in1 (lp_pcs s ! i) \<and> \<not> in1 p \<and> lp_mutex1 s' = None \<or>
      lp_mutex1 s = None \<and> in1 p \<and> lp_mutex1 s' = Some (Worker i)"
    and w: "lp_wait_threads s' = lp_wait_threads s + of_bool (waits p) - of_bool (waits (lp_pcs s ! i))"
    and tk: "p = W_Take \<Longrightarrow> ne"
    and al: "alert p \<or> \<not> ne \<or> \<not> alert (lp_pcs s ! i) \<and> p \<noteq> W_Wait"
  shows "sync_inv ne s'"
proof -
  let ?ps = "lp_pcs s"
  have 0: "\<forall>k. lp_mutex0 s = Some (Worker k) \<longleftrightarrow> k < length ?ps \<and> in0 (?ps ! k)"
    and 1: "\<forall>k. lp_mutex1 s = Some (Worker k) \<longleftrightarrow> k < length ?ps \<and> in1 (?ps ! k)"
    and cl: "lp_mutex1 s \<noteq> Some Client" "lp_mutex0 s = Some Client \<longleftrightarrow> lp_client s \<noteq> None"
    and ce: "\<forall>e. lp_client s = Some e \<longrightarrow> e \<notin> set (list0 # list1 # lp_added s)"
    and wt: "lp_wait_threads s = int (n_waits ?ps)" and tn: "W_Take \<in> set ?ps \<longrightarrow> ne"
    and a: "ne \<longrightarrow> W_Wait \<in> set ?ps \<longrightarrow> (\<exists>p \<in> set ?ps. alert p)"
    using inv unfolding sync_inv_def by blast+
  note mu0 = mutex_update [OF 0 i, of p] and mu1 = mutex_update [OF 1 i, of p]
  have "\<forall>k. lp_mutex0 s' = Some (Worker k) \<longleftrightarrow> k < length ?ps \<and> in0 (?ps[i := p] ! k)"
    using m0 mu0 by (elim disjE conjE) simp_all
  moreover have "\<forall>k. lp_mutex1 s' = Some (Worker k) \<longleftrightarrow> k < length ?ps \<and> in1 (?ps[i := p] ! k)"
    using m1 mu1 by (elim disjE conjE) simp_all
  moreover have "lp_mutex1 s' \<noteq> Some Client" using m1 cl(1) by auto
  moreover have "lp_mutex0 s' = Some Client \<longleftrightarrow> lp_client s \<noteq> None"
  proof -
    have "in0 (?ps ! i) \<Longrightarrow> lp_mutex0 s = Some (Worker i)" using 0 i by blast
    then show ?thesis using m0 cl(2) by auto
  qed
  moreover have "lp_wait_threads s' = int (n_waits (?ps[i := p]))"
    using n_waits_update [OF i, of p] w wt by (auto split: if_splits simp: of_bool_def)
  moreover have "W_Take \<in> set (?ps[i := p]) \<longrightarrow> ne" using tk tn mem_update by metis
  moreover have "ne \<longrightarrow> W_Wait \<in> set (?ps[i := p]) \<longrightarrow> (\<exists>q \<in> set (?ps[i := p]). alert q)"
    using al a alert_update [OF i] mem_update [of W_Wait ?ps i p] by blast
  ultimately show ?thesis using ce unfolding sync_inv_def s' by simp
qed

lemma sync_signal:
  assumes "sync_inv ne s"
  shows "sync_inv ne (cond_signal j s)"
proof (cases "chosen j (lp_pcs s)")
  case None
  with assms show ?thesis by (simp add: cond_signal_def)
next
  case (Some k)
  then have k: "k < length (lp_pcs s)" "lp_pcs s ! k = W_Wait" using chosen_Some by auto
  show ?thesis using k Some
    by (intro sync_move [OF assms k(1), of _ W_Wake]) (simp_all add: cond_signal_def)
qed

lemma data_signal: "data_inv q0 q1 s \<Longrightarrow> data_inv q0 q1 (cond_signal j s)"
  using data_inv_cong [of "cond_signal j s" s] cond_signal_facts(1) [of j s] by simp

section \<open>Taking, putting and adding a request\<close>

lemma data_inv_disjoint:
  assumes "data_inv q0 q1 s"
  shows "distinct (list0 # list1 # q0 @ q1)" "set q0 \<inter> set_mset (in_hand (lp_pcs s)) = {}"
    "e \<in># in_hand (lp_pcs s) \<Longrightarrow> e \<noteq> list0 \<and> e \<noteq> list1 \<and> e \<notin> set q1 \<and> e \<notin> set q0"
proof -
  have d: "distinct (list0 # list1 # lp_taken s @ q0)" and m: "mset (lp_taken s) = in_hand (lp_pcs s) + mset q1"
    using assms by (auto simp: data_inv_def)
  have s: "set (lp_taken s) = set_mset (in_hand (lp_pcs s)) \<union> set q1"
    using arg_cong [OF m, of set_mset] by simp
  obtain hs where hs: "in_hand (lp_pcs s) = mset hs" using ex_mset by metis
  have "mset (lp_taken s) = mset (hs @ q1)" using m hs by simp
  then have dd: "distinct (hs @ q1)" using d by (metis distinct_append distinct.simps(2) mset_eq_imp_distinct_iff)
  have ss: "set_mset (in_hand (lp_pcs s)) = set hs" using hs by simp
  show "distinct (list0 # list1 # q0 @ q1)" using d s dd by auto
  show "set q0 \<inter> set_mset (in_hand (lp_pcs s)) = {}" using d s by auto
  show "e \<in># in_hand (lp_pcs s) \<Longrightarrow> e \<noteq> list0 \<and> e \<noteq> list1 \<and> e \<notin> set q1 \<and> e \<notin> set q0"
    using d s dd ss by auto
qed

text \<open>Leaving the first critical section with a request.\<close>

lemma sync_take:
  assumes inv: "sync_inv True s" and i: "i < length (lp_pcs s)" "lp_pcs s ! i = W_Take"
    and al: "ne \<Longrightarrow> W_Wait \<in> set (lp_pcs s) \<Longrightarrow> \<exists>k < length (lp_pcs s). lp_pcs s ! k = W_Wake"
  shows "sync_inv ne (goto i (W_Work e) (s\<lparr>lp_mutex0 := None\<rparr>))"
proof -
  let ?ps = "lp_pcs s"
  note p = inv [unfolded sync_inv_def]
  have m0: "\<forall>k. lp_mutex0 s = Some (Worker k) \<longleftrightarrow> k < length ?ps \<and> in0 (?ps ! k)"
    and m1: "\<forall>k. lp_mutex1 s = Some (Worker k) \<longleftrightarrow> k < length ?ps \<and> in1 (?ps ! k)"
    using p by blast+
  have "lp_mutex0 s = Some (Worker i)" using m0 i by simp
  then have cn: "lp_client s = None" using p by auto
  have "W_Take \<notin> set (?ps[i := W_Work e])"
  proof
    assume "W_Take \<in> set (?ps[i := W_Work e])"
    then obtain k where "k < length ?ps" "?ps[i := W_Work e] ! k = W_Take" by (auto simp: in_set_conv_nth)
    then show False using sync_unique0 [OF inv _ i(1), of k] i by (cases "k = i") auto
  qed
  moreover have "\<exists>a \<in> set (?ps[i := W_Work e]). alert a" if "ne" "W_Wait \<in> set (?ps[i := W_Work e])"
  proof -
    have "W_Wait \<in> set ?ps" using that(2) mem_update [of W_Wait ?ps i "W_Work e"] by auto
    with al that(1) obtain k where k: "k < length ?ps" "?ps ! k = W_Wake" by blast
    then have "k \<noteq> i" using i(2) by auto
    then have "?ps[i := W_Work e] ! k = W_Wake" "k < length (?ps[i := W_Work e])" using k by simp_all
    then show ?thesis by (metis nth_mem pc_simps(27))
  qed
  ultimately show ?thesis
    using mutex_update(2) [OF m0 i(1), of "W_Work e"] mutex_update(1) [OF m1 i(1), of "W_Work e"] i p cn
      n_waits_update [OF i(1), of "W_Work e"]
    by (simp add: sync_inv_def)
qed

lemma ev_take_inv:
  assumes inv: "ev_inv q0 q1 s" and i: "i < length (lp_pcs s)" "lp_pcs s ! i = W_Take"
  shows "\<exists>e q s'. q0 = e # q \<and> ev_take i j s = Some s' \<and> ev_inv q q1 s' \<and>
    lp_pcs s' = (if q \<noteq> [] \<and> lp_wait_threads s > 0 then lp_pcs (cond_signal j s) else lp_pcs s)[i := W_Work e] \<and>
    lp_added s' = lp_added s"
proof -
  have d: "data_inv q0 q1 s" and sy: "sync_inv (q0 \<noteq> []) s" using inv by (auto simp: ev_inv_def)
  have "W_Take \<in> set (lp_pcs s)" using i nth_mem by metis
  then have "q0 \<noteq> []" using sy by (simp add: sync_inv_def)
  then obtain e q where q: "q0 = e # q" by (cases q0) auto
  have r0: "repr (lp_links s) list0 ([] @ e # q)" and r1: "repr (lp_links s) list1 q1"
    using d q by (auto simp: data_inv_def)
  have f: "list_first list0 (lp_links s) = Some e" using lq.rep_first [OF r0] by simp
  have "set (list1 # q1) \<inter> set (e # list0 # [] @ q) = {}" using data_inv_disjoint(1) [OF d] q by auto
  with lq.rep_del [OF r0] r1 obtain h where h: "LIST_DEL e (lp_links s) = Some h" "repr h list0 q" "repr h list1 q1"
    by (metis append_Nil)
  let ?s1 = "s\<lparr>lp_links := h, lp_taken := lp_taken s @ [e]\<rparr>"
  let ?c = "q \<noteq> [] \<and> lp_wait_threads s > 0"
  define s2 where "s2 = (if ?c then cond_signal j ?s1 else ?s1)"
  define s' where "s' = goto i (W_Work e) (s2\<lparr>lp_mutex0 := None\<rparr>)"
  have tk: "ev_take i j s = Some s'"
    using f h(1) LIST_EMPTY_iff [OF h(2)] LIST_NOT_EMPTY_iff by (simp add: ev_take_def s'_def s2_def Let_def)
  have i2: "i < length (lp_pcs s2)" using i(1) by (simp add: s2_def)
  have hand: "in_hand (lp_pcs s2) = in_hand (lp_pcs s)" using cond_signal_facts(1) [of j ?s1] by (simp add: s2_def)
  have pi: "lp_pcs s2 ! i = W_Take" using cond_signal_facts(5) [of ?s1 i j] i(2) by (simp add: s2_def)
  have "mset (lp_taken s @ [e]) = in_hand ((lp_pcs s2)[i := W_Work e]) + mset q1"
    using d in_hand_update [OF i2, of "W_Work e"] hand pi by (simp add: data_inv_def)
  then have "data_inv q q1 s'" using d h(2,3) q by (auto simp: data_inv_def s'_def s2_def)
  moreover have "sync_inv (q \<noteq> []) s'" unfolding s'_def
  proof (rule sync_take [OF _ i2 pi])
    have "sync_inv True ?s1" using sy q unfolding sync_inv_def by simp
    then show "sync_inv True s2" using sync_signal by (simp add: s2_def)
    assume "q \<noteq> []" "W_Wait \<in> set (lp_pcs s2)"
    then have w: "W_Wait \<in> set (lp_pcs s)"
      using mem_update [of W_Wait "lp_pcs s"] by (auto simp: s2_def cond_signal_pcs split: if_splits option.splits)
    then have "lp_wait_threads s > 0" using sy n_waits_pos by (simp add: sync_inv_def)
    with \<open>q \<noteq> []\<close> w show "\<exists>k < length (lp_pcs s2). lp_pcs s2 ! k = W_Wake"
      using cond_signal_alert [of ?s1 j] by (auto simp: s2_def)
  qed
  moreover have "lp_pcs s' = (if ?c then lp_pcs (cond_signal j s) else lp_pcs s)[i := W_Work e]" "lp_added s' = lp_added s"
    by (simp_all add: s'_def s2_def cond_signal_pcs split: option.split)
  ultimately show ?thesis using q tk unfolding ev_inv_def by blast
qed

text \<open>Putting a finished request into \<open>list[1]\<close>.\<close>

lemma ev_put_inv:
  assumes inv: "ev_inv q0 q1 s" and i: "i < length (lp_pcs s)" "lp_pcs s ! i = W_Put e"
  shows "\<exists>s'. ev_put i e s = Some s' \<and> ev_inv q0 (q1 @ [e]) s' \<and> lp_pcs s' = (lp_pcs s)[i := W_Lock0] \<and>
    lp_added s' = lp_added s"
proof -
  have d: "data_inv q0 q1 s" and sy: "sync_inv (q0 \<noteq> []) s" using inv by (auto simp: ev_inv_def)
  have hand: "in_hand ((lp_pcs s)[i := W_Lock0]) + {#e#} = in_hand (lp_pcs s)"
    using in_hand_update [OF i(1), of W_Lock0] i(2) by simp
  then have "e \<in># in_hand (lp_pcs s)" by (metis union_single_eq_member add.commute add_mset_add_single)
  note e = data_inv_disjoint(3) [OF d this]
  have r0: "repr (lp_links s) list0 q0" and r1: "repr (lp_links s) list1 q1" using d by (auto simp: data_inv_def)
  have "set (list0 # q0) \<inter> set (e # list1 # q1) = {}" using data_inv_disjoint(1) [OF d] e by auto
  with lq.rep_add_tail [OF r1, of e] r0 e obtain h
    where h: "LIST_ADD_TAIL list1 e (lp_links s) = Some h" "repr h list1 (q1 @ [e])" "repr h list0 q0"
    by (metis set_ConsD)
  define s' where "s' = goto i W_Lock0 (s\<lparr>lp_links := h, lp_efd := efd_write (lp_efd s), lp_mutex1 := None\<rparr>)"
  have "ev_put i e s = Some s'" using h(1) by (simp add: ev_put_def s'_def)
  moreover have "data_inv q0 (q1 @ [e]) s'"
    using d h(2,3) hand by (auto simp: data_inv_def s'_def)
  moreover have "sync_inv (q0 \<noteq> []) s'"
    using i by (intro sync_move [OF sy i(1), of _ W_Lock0]) (simp_all add: s'_def)
  moreover have "lp_pcs s' = (lp_pcs s)[i := W_Lock0]" "lp_added s' = lp_added s" by (simp_all add: s'_def)
  ultimately show ?thesis unfolding ev_inv_def by blast
qed

text \<open>The critical section of \<open>EV_REQ_ADD\<close>.\<close>

lemma sync_add:
  assumes inv: "sync_inv ne s" and c: "lp_client s = Some e" and a: "lp_added s' = lp_added s @ [e]"
    and s': "lp_pcs s' = lp_pcs s" "lp_client s' = lp_client s" "lp_mutex0 s' = lp_mutex0 s" "lp_mutex1 s' = lp_mutex1 s"
      "lp_wait_threads s' = lp_wait_threads s"
  shows "sync_inv True ((if lp_wait_threads s' > 0 then cond_signal j s' else s')\<lparr>lp_mutex0 := None, lp_client := None\<rparr>)"
proof -
  let ?t = "if lp_wait_threads s' > 0 then cond_signal j s' else s'"
  note p = inv [unfolded sync_inv_def]
  have m: "lp_mutex0 s = Some Client" using p c by auto
  have wt: "lp_wait_threads s' = int (n_waits (lp_pcs s))" using p s' by simp
  have no: "\<not> (i < length (lp_pcs s) \<and> in0 (lp_pcs s ! i))" for i
    using p m by (metis option.inject owner.distinct(1))
  have "\<exists>a \<in> set (lp_pcs ?t). alert a" if "W_Wait \<in> set (lp_pcs ?t)"
  proof -
    have w: "W_Wait \<in> set (lp_pcs s')"
      using that mem_update [of W_Wait "lp_pcs s'"] by (auto simp: cond_signal_pcs split: if_splits option.splits)
    then have "lp_wait_threads s' > 0" using n_waits_pos wt s'(1) by simp
    with w obtain k where "k < length (lp_pcs s')" "lp_pcs ?t = (lp_pcs s')[k := W_Wake]"
      using cond_signal_alert [of s' j] by auto
    then show ?thesis using alert_update(1) [of k "lp_pcs s'" W_Wake] by simp
  qed
  moreover have "in0 (lp_pcs ?t ! i) = in0 (lp_pcs s ! i)" "in1 (lp_pcs ?t ! i) = in1 (lp_pcs s ! i)" for i
    using cond_signal_facts(3,4) [of j s' i] s'(1) by auto
  moreover have "n_waits (lp_pcs ?t) = n_waits (lp_pcs s)" "length (lp_pcs ?t) = length (lp_pcs s)"
    using cond_signal_facts(2) [of j s'] s'(1) by auto
  moreover have "\<forall>i. lp_mutex1 s = Some (Worker i) \<longleftrightarrow> i < length (lp_pcs s) \<and> in1 (lp_pcs s ! i)" "lp_mutex1 s \<noteq> Some Client"
    using p by blast+
  ultimately show ?thesis using no wt s' unfolding sync_inv_def by simp
qed

lemma add_entry_inv:
  assumes inv: "ev_inv q0 q1 s" and c: "lp_client s = Some e"
  shows "\<exists>s'. add_entry e j s = Some s' \<and> ev_inv (q0 @ [e]) q1 s' \<and>
    lp_pcs s' = (if lp_wait_threads s > 0 then lp_pcs (cond_signal j s) else lp_pcs s) \<and> lp_added s' = lp_added s @ [e]"
proof -
  have d: "data_inv q0 q1 s" and sy: "sync_inv (q0 \<noteq> []) s" using inv by (auto simp: ev_inv_def)
  have e: "e \<notin> set (list0 # list1 # lp_added s)" using sy c by (auto simp: sync_inv_def)
  have "set q1 \<subseteq> set (lp_taken s)"
    using arg_cong [of _ _ set_mset, OF conjunct1 [OF conjunct2 [OF conjunct2 [OF conjunct2 [OF d [unfolded data_inv_def]]]]]]
    by auto
  then have "set q0 \<union> set q1 \<subseteq> set (lp_added s)" using d by (auto simp: data_inv_def)
  then have eq: "e \<notin> set q0 \<union> set q1" using e by auto
  have r0: "repr (lp_links s) list0 q0" and r1: "repr (lp_links s) list1 q1" using d by (auto simp: data_inv_def)
  have "e \<notin> set (list0 # q0)" "set (list1 # q1) \<inter> set (e # list0 # q0) = {}"
    using data_inv_disjoint(1) [OF d] e eq by auto
  with lq.rep_add_tail [OF r0, of e] r1 obtain h
    where h: "LIST_ADD_TAIL list0 e (lp_links s) = Some h" "repr h list0 (q0 @ [e])" "repr h list1 q1" by metis
  let ?s1 = "s\<lparr>lp_links := h, lp_added := lp_added s @ [e]\<rparr>"
  define s' where "s' = (if lp_wait_threads ?s1 > 0 then cond_signal j ?s1 else ?s1)\<lparr>lp_mutex0 := None, lp_client := None\<rparr>"
  have "add_entry e j s = Some s'" using h(1) by (simp add: add_entry_def s'_def Let_def)
  moreover have "data_inv (q0 @ [e]) q1 s'"
    using d h(2,3) e cond_signal_facts(1) [of j ?s1] by (auto simp: data_inv_def s'_def)
  moreover have "sync_inv True s'" unfolding s'_def by (rule sync_add [OF sy c]) simp_all
  moreover have "lp_pcs s' = (if lp_wait_threads s > 0 then lp_pcs (cond_signal j s) else lp_pcs s)"
    "lp_added s' = lp_added s @ [e]" by (simp_all add: s'_def cond_signal_pcs split: option.split)
  ultimately show ?thesis unfolding ev_inv_def by auto
qed

section \<open>All steps\<close>

text \<open>A worker moves on without touching a list.\<close>

lemma goto_inv:
  assumes inv: "ev_inv q0 q1 s" and i: "i < length (lp_pcs s)" and h: "held (lp_pcs s ! i) = held p"
    and u: "lp_links u = lp_links s" "lp_pcs u = lp_pcs s" "lp_client u = lp_client s" "lp_added u = lp_added s" "lp_taken u = lp_taken s"
    and "in0 p = in0 (lp_pcs s ! i) \<and> lp_mutex0 u = lp_mutex0 s \<or> in0 (lp_pcs s ! i) \<and> \<not> in0 p \<and> lp_mutex0 u = None \<or>
      lp_mutex0 s = None \<and> in0 p \<and> lp_mutex0 u = Some (Worker i)"
    and "in1 p = in1 (lp_pcs s ! i) \<and> lp_mutex1 u = lp_mutex1 s \<or> in1 (lp_pcs s ! i) \<and> \<not> in1 p \<and> lp_mutex1 u = None \<or>
      lp_mutex1 s = None \<and> in1 p \<and> lp_mutex1 u = Some (Worker i)"
    and "lp_wait_threads u = lp_wait_threads s + of_bool (waits p) - of_bool (waits (lp_pcs s ! i))"
    and "p = W_Take \<Longrightarrow> q0 \<noteq> []" "alert p \<or> q0 = [] \<or> \<not> alert (lp_pcs s ! i) \<and> p \<noteq> W_Wait"
  shows "ev_inv q0 q1 (goto i p u)"
proof -
  have "data_inv q0 q1 u" using inv unfolding ev_inv_def data_inv_def u by blast
  then have "data_inv q0 q1 (goto i p u)" using i h u by (intro data_inv_goto) simp_all
  moreover have "sync_inv (q0 \<noteq> []) (goto i p u)"
    by (rule sync_move [of "q0 \<noteq> []" s i _ p]) (use assms in \<open>simp_all add: ev_inv_def\<close>)
  ultimately show ?thesis by (simp add: ev_inv_def)
qed

lemma work_inv:
  assumes inv: "ev_inv q0 q1 s" and i: "i < length (lp_pcs s)"
  shows "ev_work i j s \<noteq> Undefined \<and>
    (\<forall>s'. ev_work i j s = Next s' \<longrightarrow> (\<exists>q0' q1'. ev_inv q0' q1' s') \<and> length (lp_pcs s') = length (lp_pcs s) \<and>
      lp_added s' = lp_added s \<and> lp_client s' = lp_client s)"
proof (cases "lp_pcs s ! i")
  case W_Take
  from ev_take_inv [OF inv i this, of j] obtain e q s' where
    "ev_take i j s = Some s'" "ev_inv q q1 s'" "lp_added s' = lp_added s"
    "lp_pcs s' = (if q \<noteq> [] \<and> lp_wait_threads s > 0 then lp_pcs (cond_signal j s) else lp_pcs s)[i := W_Work e]"
    by blast
  moreover from this(1) have "lp_client s' = lp_client s"
    by (auto simp: ev_take_def Let_def split: Option.bind_splits)
  ultimately show ?thesis using W_Take by (auto simp: ev_work_def of_opt_def)
next
  case (W_Put e)
  from ev_put_inv [OF inv i this] obtain s' where
    "ev_put i e s = Some s'" "ev_inv q0 (q1 @ [e]) s'" "lp_pcs s' = (lp_pcs s)[i := W_Lock0]" "lp_added s' = lp_added s"
    by blast
  moreover from this(1) have "lp_client s' = lp_client s" by (auto simp: ev_put_def split: Option.bind_splits)
  ultimately show ?thesis using W_Put by (auto simp: ev_work_def of_opt_def)
next
  case W_Test
  have q: "LIST_EMPTY list0 (lp_links s) \<longleftrightarrow> q0 = []" using inv lq.rep_empty by (auto simp: ev_inv_def data_inv_def)
  have "q0 = [] \<Longrightarrow> ev_inv q0 q1 (goto i W_Wait (s\<lparr>lp_wait_threads := lp_wait_threads s + 1, lp_mutex0 := None\<rparr>))"
    "q0 \<noteq> [] \<Longrightarrow> ev_inv q0 q1 (goto i W_Take s)"
    using W_Test by (intro goto_inv [OF inv i]; simp)+
  then show ?thesis using W_Test q by (auto simp: ev_work_def)
next
  case W_Lock0
  then have "lp_mutex0 s = None \<Longrightarrow> ev_inv q0 q1 (goto i W_Test (s\<lparr>lp_mutex0 := Some (Worker i)\<rparr>))"
    by (intro goto_inv [OF inv i]) simp_all
  then show ?thesis using W_Lock0 by (auto simp: ev_work_def)
next
  case W_Wake
  then have "lp_mutex0 s = None \<Longrightarrow>
      ev_inv q0 q1 (goto i W_Test (s\<lparr>lp_mutex0 := Some (Worker i), lp_wait_threads := lp_wait_threads s - 1\<rparr>))"
    by (intro goto_inv [OF inv i]) simp_all
  then show ?thesis using W_Wake by (auto simp: ev_work_def)
next
  case (W_Work e)
  then have "ev_inv q0 q1 (goto i (W_Lock1 e) s)" by (intro goto_inv [OF inv i]) simp_all
  then show ?thesis using W_Work by (auto simp: ev_work_def)
next
  case (W_Lock1 e)
  then have "lp_mutex1 s = None \<Longrightarrow> ev_inv q0 q1 (goto i (W_Put e) (s\<lparr>lp_mutex1 := Some (Worker i)\<rparr>))"
    by (intro goto_inv [OF inv i]) simp_all
  then show ?thesis using W_Lock1 by (auto simp: ev_work_def)
qed (simp add: ev_work_def)

lemma work_step_inv:
  assumes "ev_inv q0 q1 s" "work_step s s'"
  shows "(\<exists>q0' q1'. ev_inv q0' q1' s') \<and> length (lp_pcs s') = length (lp_pcs s)"
  using assms(2)
proof cases
  case (work i j)
  then show ?thesis using work_inv [OF assms(1) work(1)] by blast
next
  case (add_finish e j)
  from add_entry_inv [OF assms(1) add_finish(1), of j] add_finish(2) show ?thesis by force
qed

lemma ev_step_inv:
  assumes inv: "ev_inv q0 q1 s" and st: "ev_step s s'"
  shows "(\<exists>q0' q1'. ev_inv q0' q1' s') \<and> length (lp_pcs s') = length (lp_pcs s)"
  using st
proof cases
  case run
  with work_step_inv [OF inv] show ?thesis by blast
next
  case (spurious i)
  have sy: "sync_inv (q0 \<noteq> []) s" using inv by (simp add: ev_inv_def)
  have "sync_inv (q0 \<noteq> []) (goto i W_Wake s)"
    using spurious by (intro sync_move [OF sy spurious(2), of _ W_Wake]) simp_all
  moreover have "data_inv q0 q1 (goto i W_Wake s)"
    using inv spurious by (intro data_inv_goto) (auto simp: ev_inv_def)
  ultimately have "ev_inv q0 q1 s'" using spurious by (simp add: ev_inv_def)
  then show ?thesis using spurious by auto
next
  case (add_start e)
  then have s': "s' = s\<lparr>lp_mutex0 := Some Client, lp_client := Some e\<rparr>" "lp_mutex0 s = None"
    by (auto simp: add_lock_def split: if_splits)
  have "sync_inv (q0 \<noteq> []) s'"
    using inv add_start(1) s' by (auto simp: ev_inv_def sync_inv_def)
  moreover have "data_inv q0 q1 s'" using inv s' by (auto simp: ev_inv_def data_inv_def)
  ultimately have "ev_inv q0 q1 s'" by (simp add: ev_inv_def)
  then show ?thesis using s' by auto
qed

lemma steps_inv:
  assumes "ev_step\<^sup>*\<^sup>* (ev_loop_init n h) s"
  shows "(\<exists>q0 q1. ev_inv q0 q1 s) \<and> length (lp_pcs s) = n"
  using assms
proof (induction rule: rtranclp_induct)
  case base
  show ?case using init_inv [of n h] by (auto simp: ev_loop_init_def)
next
  case (step s s')
  from step.IH step.hyps(2) ev_step_inv show ?case by metis
qed

lemma reachable_inv:
  "ev_reachable n s \<Longrightarrow> (\<exists>q0 q1. ev_inv q0 q1 s) \<and> length (lp_pcs s) = n"
  using steps_inv by (auto simp: ev_reachable_def)

section \<open>Progress\<close>

fun rank :: "wpc \<Rightarrow> nat" where
  "rank W_Wait = 0"
| "rank W_Take = 1"
| "rank W_Test = 2"
| "rank W_Wake = 3"
| "rank W_Lock0 = 3"
| "rank (W_Put e) = 5"
| "rank (W_Lock1 e) = 6"
| "rank (W_Work e) = 7"

text \<open>How many steps of workers can follow before all sleep.\<close>

definition ranks :: "wpc list \<Rightarrow> nat" where
  "ranks ps = sum_list (map rank ps)"

definition ev_measure :: "ev_loop \<Rightarrow> nat" where
  "ev_measure s = 10 * (length (lp_added s) - length (lp_taken s)) +
     (if lp_client s = None then 0 else 14) + ranks (lp_pcs s)"

lemma ranks_update: "i < length ps \<Longrightarrow> ranks (ps[i := p]) + rank (ps ! i) = ranks ps + rank p"
proof (induction ps arbitrary: i)
  case (Cons q ps)
  show ?case
  proof (cases i)
    case (Suc k)
    with Cons.IH [of k] Cons.prems show ?thesis by (simp add: ranks_def)
  qed (simp add: ranks_def)
qed simp

lemma ranks_signal: "ranks (lp_pcs (cond_signal j s)) \<le> ranks (lp_pcs s) + 3"
  using ranks_update [of _ "lp_pcs s" W_Wake] chosen_Some [of j "lp_pcs s"]
  by (fastforce simp: cond_signal_pcs split: option.split)

lemma taken_length: "ev_inv q0 q1 s \<Longrightarrow> length (lp_added s) - length (lp_taken s) = length q0"
  by (simp add: ev_inv_def data_inv_def)

lemma measure_goto:
  "i < length (lp_pcs s) \<Longrightarrow> rank p < rank (lp_pcs s ! i) \<Longrightarrow> lp_pcs s' = (lp_pcs s)[i := p] \<Longrightarrow>
     lp_added s' = lp_added s \<Longrightarrow> lp_taken s' = lp_taken s \<Longrightarrow> lp_client s' = lp_client s \<Longrightarrow>
     ev_measure s' < ev_measure s"
  using ranks_update [of i "lp_pcs s" p] by (simp add: ev_measure_def)

lemma work_step_measure:
  assumes inv: "ev_inv q0 q1 s" and st: "work_step s s'"
  shows "ev_measure s' < ev_measure s"
  using st
proof cases
  case (work i j)
  show ?thesis
  proof (cases "lp_pcs s ! i")
    case W_Take
    from ev_take_inv [OF inv work(1) this, of j] work(2) W_Take obtain e q where
      q: "q0 = e # q" "ev_inv q q1 s'" and
      ps: "lp_pcs s' = (if q \<noteq> [] \<and> lp_wait_threads s > 0 then lp_pcs (cond_signal j s) else lp_pcs s)[i := W_Work e]"
      and t: "ev_take i j s = Some s'"
      by (auto simp: ev_work_def of_opt_def)
    let ?ps = "if q \<noteq> [] \<and> lp_wait_threads s > 0 then lp_pcs (cond_signal j s) else lp_pcs s"
    have "?ps ! i = W_Take" "i < length ?ps"
      using cond_signal_facts(5) [of s i j] W_Take work(1) by auto
    then have "ranks (lp_pcs s') + 1 = ranks ?ps + 7"
      using ranks_update [of i ?ps "W_Work e"] unfolding ps by simp
    moreover have "ranks ?ps \<le> ranks (lp_pcs s) + 3" using ranks_signal [of j s] by simp
    moreover have "lp_client s' = lp_client s"
      using t by (auto simp: ev_take_def Let_def split: Option.bind_splits)
    ultimately show ?thesis
      using taken_length [OF inv] taken_length [OF q(2)] q(1) by (simp add: ev_measure_def)
  next
    case (W_Put e)
    from ev_put_inv [OF inv work(1) this] work(2) W_Put have
      ps: "lp_pcs s' = (lp_pcs s)[i := W_Lock0]" and p: "ev_put i e s = Some s'"
      by (auto simp: ev_work_def of_opt_def)
    show ?thesis
      using p by (intro measure_goto [OF work(1) _ ps])
        (auto simp: W_Put ev_put_def split: Option.bind_splits)
  qed (use work in \<open>auto simp: ev_work_def of_opt_def split: if_splits intro!: measure_goto [of i s]\<close>)
next
  case (add_finish e j)
  from add_entry_inv [OF inv add_finish(1), of j] add_finish(2) have
    i: "ev_inv (q0 @ [e]) q1 s'" and
    ps: "lp_pcs s' = (if lp_wait_threads s > 0 then lp_pcs (cond_signal j s) else lp_pcs s)" by auto
  have "ranks (lp_pcs s') \<le> ranks (lp_pcs s) + 3" using ranks_signal [of j s] by (simp add: ps)
  moreover have "lp_client s' = None" using add_finish(2) by (auto simp: add_entry_def Let_def split: Option.bind_splits)
  ultimately show ?thesis
    using taken_length [OF inv] taken_length [OF i] add_finish(1) by (simp add: ev_measure_def)
qed

text \<open>When no thread of the loop can take a step, every worker sleeps and nothing is queued.\<close>

lemma stuck_quiet:
  assumes inv: "ev_inv q0 q1 s" and stuck: "\<And>s'. \<not> work_step s s'" and n: "lp_pcs s \<noteq> []"
  shows "q0 = [] \<and> lp_client s = None \<and> (\<forall>p \<in> set (lp_pcs s). p = W_Wait)"
proof -
  have sy: "sync_inv (q0 \<noteq> []) s" using inv by (simp add: ev_inv_def)
  note p = sy [unfolded sync_inv_def]
  have no: "ev_work i 0 s = Blocked" if "i < length (lp_pcs s)" for i
    using stuck work_step.work [OF that, of 0] work_inv [OF inv that, of 0] by (cases "ev_work i 0 s") auto
  have c: "lp_client s = None"
  proof (cases "lp_client s")
    case (Some e)
    with add_entry_inv [OF inv this, of 0] stuck work_step.add_finish show ?thesis by blast
  qed
  have ni0: "\<not> in0 (lp_pcs s ! i)" and ni1: "\<not> in1 (lp_pcs s ! i)" if "i < length (lp_pcs s)" for i
    using no [OF that] by (auto simp: ev_work_def in0_def in1_def of_opt_def split: option.splits if_splits)
  have "lp_mutex0 s = None"
    using p c ni0 by (metis not_None_eq owner.exhaust)
  moreover have "lp_mutex1 s = None"
    using p ni1 by (metis not_None_eq owner.exhaust)
  ultimately have w: "lp_pcs s ! i = W_Wait" if "i < length (lp_pcs s)" for i
    using no [OF that] by (auto simp: ev_work_def of_opt_def split: wpc.splits option.splits if_splits)
  then have all: "\<forall>p \<in> set (lp_pcs s). p = W_Wait" by (auto simp: in_set_conv_nth)
  then have "W_Wait \<in> set (lp_pcs s)" using n by (cases "lp_pcs s") auto
  moreover have "\<not> (\<exists>p \<in> set (lp_pcs s). alert p)" using all by auto
  ultimately show ?thesis using p c all by blast
qed

lemma work_steps_quiet:
  assumes "ev_inv q0 q1 s" "lp_pcs s \<noteq> []"
  shows "\<exists>s'. work_step\<^sup>*\<^sup>* s s' \<and> (\<forall>s''. \<not> work_step s' s'') \<and> (\<exists>q0 q1. ev_inv q0 q1 s') \<and> length (lp_pcs s') = length (lp_pcs s)"
  using assms
proof (induction "ev_measure s" arbitrary: s q0 q1 rule: less_induct)
  case less
  show ?case
  proof (cases "\<exists>t. work_step s t")
    case False
    with less.prems show ?thesis by blast
  next
    case True
    then obtain t where t: "work_step s t" by blast
    with work_step_inv [OF less.prems(1)] obtain q0' q1' where i: "ev_inv q0' q1' t" "length (lp_pcs t) = length (lp_pcs s)" by blast
    with less.prems(2) have "lp_pcs t \<noteq> []" by auto
    from less.hyps [OF work_step_measure [OF less.prems(1) t] i(1) this] i(2) t show ?thesis
      by (metis converse_rtranclp_into_rtranclp)
  qed
qed

lemma work_steps_measure:
  "(work_step ^^ k) s s' \<Longrightarrow> ev_inv q0 q1 s \<Longrightarrow> k + ev_measure s' \<le> ev_measure s"
proof (induction k arbitrary: s q0 q1)
  case (Suc k)
  from relpowp_Suc_D2 [OF Suc.prems(1)] obtain t where t: "work_step s t" "(work_step ^^ k) t s'" by blast
  with work_step_inv [OF Suc.prems(2) t(1)] obtain q0' q1' where "ev_inv q0' q1' t" by blast
  from Suc.IH [OF t(2) this] work_step_measure [OF Suc.prems(2) t(1)] show ?case by simp
qed simp

text \<open>An example: a loop of \<open>n\<close> threads to which one request has been added.\<close>

definition no_links :: links where
  "no_links = \<lparr>prev_of = \<lambda>_. None, next_of = \<lambda>_. None\<rparr>"

lemma example_reachable: "\<exists>s. ev_reachable n s \<and> lp_added s = [7]"
proof -
  let ?s0 = "ev_loop_init n no_links"
  let ?s1 = "?s0\<lparr>lp_mutex0 := Some Client, lp_client := Some 7\<rparr>"
  have 1: "ev_step ?s0 ?s1"
    by (rule ev_step.add_start [of 7]) (simp_all add: ev_loop_init_def list0_def list1_def add_lock_def)
  from ev_step_inv [OF init_inv 1] obtain q0 q1 where "ev_inv q0 q1 ?s1" by blast
  from add_entry_inv [OF this, of 7 0] obtain s where
    s: "add_entry 7 0 ?s1 = Some s" "lp_added s = lp_added ?s1 @ [7]" by auto
  from s(1) have "work_step ?s1 s" by (intro work_step.add_finish) simp_all
  then have 2: "ev_step ?s1 s" by (rule ev_step.run)
  from 1 2 have "ev_step\<^sup>*\<^sup>* ?s0 s" by (meson r_into_rtranclp rtranclp.rtrancl_into_rtrancl)
  with s(2) show ?thesis by (auto simp: ev_reachable_def ev_loop_init_def)
qed

lemma ev_quiet_exists:
  assumes "ev_reachable n s" "0 < n"
  shows "\<exists>t. work_step\<^sup>*\<^sup>* s t \<and> (\<forall>u. \<not> work_step t u)"
proof -
  from reachable_inv [OF assms(1)] obtain q0 q1 where i: "ev_inv q0 q1 s" "length (lp_pcs s) = n" by blast
  with assms(2) have "lp_pcs s \<noteq> []" by auto
  from work_steps_quiet [OF i(1) this] show ?thesis by blast
qed

lemma in_hand_asleep: "\<forall>p \<in> set ps. p = W_Wait \<Longrightarrow> in_hand ps = {#}"
  by (induction ps) (auto simp: in_hand_def)

lemma ev_quiet_done:
  assumes "ev_reachable n s" "0 < n" and t: "work_step\<^sup>*\<^sup>* s t" "\<forall>u. \<not> work_step t u"
  shows "LIST_EMPTY list0 (lp_links t) \<and> lp_client t = None \<and> (\<forall>p \<in> set (lp_pcs t). p = W_Wait) \<and>
    (\<exists>q1. repr (lp_links t) list1 q1 \<and> mset q1 = mset (lp_added t))"
proof -
  have "ev_step\<^sup>*\<^sup>* s t" using t(1) by (rule rtranclp_mono [THEN predicate2D, rotated]) (auto intro: ev_step.run)
  with assms(1) have "ev_reachable n t" unfolding ev_reachable_def by (meson rtranclp_trans)
  with reachable_inv obtain q0 q1 where it: "ev_inv q0 q1 t" "length (lp_pcs t) = n" by blast
  with assms(2) have "lp_pcs t \<noteq> []" by auto
  from stuck_quiet [OF it(1) _ this] t(2)
  have q: "q0 = []" "lp_client t = None" "\<forall>p \<in> set (lp_pcs t). p = W_Wait" by blast+
  have d: "data_inv [] q1 t" using it(1) q(1) by (simp add: ev_inv_def)
  then have "LIST_EMPTY list0 (lp_links t)" using lq.rep_empty by (auto simp: data_inv_def)
  moreover have "repr (lp_links t) list1 q1 \<and> mset q1 = mset (lp_added t)"
    using d in_hand_asleep [OF q(3)] by (simp add: data_inv_def)
  ultimately show ?thesis using q by blast
qed

section \<open>Properties\<close>

text \<open>In every state that any interleaving of clients and workers can reach, no step of a worker and no
  insertion by a client is undefined: no null link is followed.\<close>

lemma ev_no_undefined:
  assumes "ev_reachable n s"
  shows "(i < n \<longrightarrow> ev_work i j s \<noteq> Undefined) \<and> (lp_client s = Some e \<longrightarrow> add_entry e j s \<noteq> None)"
  using reachable_inv [OF assms] work_inv add_entry_inv by (metis option.distinct(1))

lemma ev_no_undefined_witness: "ev_work 1 0 (ev_loop_init 2 no_links) \<noteq> Undefined"
proof -
  have "ev_reachable 2 (ev_loop_init 2 no_links)" by (auto simp: ev_reachable_def)
  from ev_no_undefined [OF this] show ?thesis by simp
qed

text \<open>Mutual exclusion: two threads are never both between locking and unlocking the same mutex.\<close>

lemma ev_mutual_exclusion:
  assumes "ev_reachable n s" "i < n" "k < n" "i \<noteq> k"
  shows "\<not> (in0 (lp_pcs s ! i) \<and> in0 (lp_pcs s ! k)) \<and> \<not> (in1 (lp_pcs s ! i) \<and> in1 (lp_pcs s ! k)) \<and>
    (lp_client s \<noteq> None \<longrightarrow> \<not> in0 (lp_pcs s ! i))"
proof -
  from reachable_inv [OF assms(1)] obtain q0 q1 where "ev_inv q0 q1 s" and l: "length (lp_pcs s) = n" by blast
  then have sy: "sync_inv (q0 \<noteq> []) s" by (simp add: ev_inv_def)
  have "lp_client s \<noteq> None \<Longrightarrow> \<not> in0 (lp_pcs s ! i)"
    using sy assms(2) l unfolding sync_inv_def by (metis option.inject owner.distinct(1))
  then show ?thesis using sync_unique0 [OF sy, of i k] sync_unique1 [OF sy, of i k] assms(2-4) l by auto
qed

lemma ev_mutual_exclusion_witness:
  "\<exists>s :: ev_loop. lp_added s = [7] \<and> \<not> (in0 (lp_pcs s ! 0) \<and> in0 (lp_pcs s ! 1))"
proof -
  from example_reachable [of 2] obtain s where s: "ev_reachable 2 s" "lp_added s = [7]" by blast
  have "\<not> (in0 (lp_pcs s ! 0) \<and> in0 (lp_pcs s ! 1))" using ev_mutual_exclusion [OF s(1), of 0 1] by simp
  with s(2) show ?thesis by blast
qed

text \<open>C8. No request is lost, duplicated or overtaken: at every moment the requests added are those taken,
  in the same order, followed by those in \<open>list[0]\<close>, and those taken are in the hands of a worker or
  in \<open>list[1]\<close>, each exactly once.\<close>

theorem ev_conservation:
  assumes "ev_reachable n s"
  shows "\<exists>q0 q1. repr (lp_links s) list0 q0 \<and> repr (lp_links s) list1 q1 \<and> distinct (lp_added s) \<and>
    lp_added s = lp_taken s @ q0 \<and> mset (lp_taken s) = in_hand (lp_pcs s) + mset q1"
  using reachable_inv [OF assms] unfolding ev_inv_def data_inv_def by (metis distinct.simps(2))

lemma ev_conservation_witness:
  "\<exists>(s :: ev_loop) q0. lp_added s = [7] \<and> repr (lp_links s) list0 q0 \<and> [7] = lp_taken s @ q0"
proof -
  from example_reachable [of 3] obtain s where s: "ev_reachable 3 s" "lp_added s = [7]" by blast
  from ev_conservation [OF s(1)] obtain q0 where "repr (lp_links s) list0 q0" "lp_added s = lp_taken s @ q0" by blast
  with s(2) show ?thesis by (intro exI [of _ s] exI [of _ q0]) simp
qed

text \<open>C18. No wake-up is lost: \<open>wait_threads\<close> counts the workers in \<open>pthread_cond_wait\<close>, and while a request is
  queued and a worker sleeps, another worker is on its way to the queue.\<close>

theorem ev_no_lost_wakeup:
  assumes "ev_reachable n s"
  shows "lp_wait_threads s = int (length (filter waits (lp_pcs s))) \<and>
    (LIST_NOT_EMPTY list0 (lp_links s) \<longrightarrow> W_Wait \<in> set (lp_pcs s) \<longrightarrow> (\<exists>k < n. alert (lp_pcs s ! k)))"
proof -
  from reachable_inv [OF assms] obtain q0 q1 where i: "ev_inv q0 q1 s" and l: "length (lp_pcs s) = n" by blast
  then have "LIST_NOT_EMPTY list0 (lp_links s) \<longleftrightarrow> q0 \<noteq> []"
    using LIST_EMPTY_iff LIST_NOT_EMPTY_iff by (auto simp: ev_inv_def data_inv_def)
  with i l show ?thesis unfolding ev_inv_def sync_inv_def n_waits_def by (metis in_set_conv_nth)
qed

lemma ev_no_lost_wakeup_witness:
  "lp_wait_threads (ev_loop_init 2 no_links) = int (length (filter waits (lp_pcs (ev_loop_init 2 no_links))))"
proof -
  have "ev_reachable 2 (ev_loop_init 2 no_links)" by (auto simp: ev_reachable_def)
  from ev_no_lost_wakeup [OF this] show ?thesis by simp
qed

text \<open>C3. The pool finishes its work: from every reachable state, with at least one worker, the threads can run
  until none of them can move, and wherever they stop, every request ever added is in \<open>list[1]\<close>, done,
  \<open>list[0]\<close> is empty and all workers sleep. (So there is no deadlock.)\<close>

theorem ev_drains:
  assumes "ev_reachable n s" "0 < n"
  shows "(\<exists>t. work_step\<^sup>*\<^sup>* s t \<and> (\<forall>u. \<not> work_step t u)) \<and>
    (\<forall>t. work_step\<^sup>*\<^sup>* s t \<and> (\<forall>u. \<not> work_step t u) \<longrightarrow>
      LIST_EMPTY list0 (lp_links t) \<and> lp_client t = None \<and> (\<forall>p \<in> set (lp_pcs t). p = W_Wait) \<and>
      (\<exists>q1. repr (lp_links t) list1 q1 \<and> mset q1 = mset (lp_added t)))"
  using ev_quiet_exists [OF assms] ev_quiet_done [OF assms] by blast

lemma ev_drains_witness:
  "\<exists>s t. lp_added s = [7] \<and> work_step\<^sup>*\<^sup>* s t \<and> LIST_EMPTY list0 (lp_links t)"
proof -
  from example_reachable [of 2] obtain s where s: "ev_reachable 2 s" "lp_added s = [7]" by blast
  from ev_drains [OF s(1)] s(2) show ?thesis by auto
qed

text \<open>C23. The pool never runs on without work: between two actions of clients (and apart from spurious
  wake-ups) the threads take at most \<open>ev_measure\<close> steps, about ten for each request.\<close>

theorem ev_terminates:
  assumes "ev_reachable n s" "(work_step ^^ k) s s'"
  shows "k + ev_measure s' \<le> ev_measure s"
  using reachable_inv [OF assms(1)] work_steps_measure [OF assms(2)] by blast

lemma ev_terminates_witness:
  "\<exists>s'. (work_step ^^ 1) (ev_loop_init 2 no_links) s' \<and> 1 + ev_measure s' \<le> ev_measure (ev_loop_init 2 no_links)"
proof -
  let ?s = "ev_loop_init 2 no_links"
  have "ev_work 0 0 ?s = Next (goto 0 W_Test (?s\<lparr>lp_mutex0 := Some (Worker 0)\<rparr>))"
    by (simp add: ev_work_def ev_loop_init_def)
  then have "work_step ?s (goto 0 W_Test (?s\<lparr>lp_mutex0 := Some (Worker 0)\<rparr>))"
    by (intro work_step.work [of 0 _ 0]) (simp_all add: ev_loop_init_def)
  then have "(work_step ^^ 1) ?s (goto 0 W_Test (?s\<lparr>lp_mutex0 := Some (Worker 0)\<rparr>))"
    by (simp only: relpowp_1)
  moreover have "ev_reachable 2 ?s" by (auto simp: ev_reachable_def)
  ultimately show ?thesis using ev_terminates by blast
qed

text \<open>There is no time at which \<open>ev_loop_destroy\<close> may be called: nothing ends a worker, so each of them either makes it
  undefined or reads the freed loop in its next step or the one after.\<close>

lemma ev_destroy_unsafe:
  assumes "i < length (lp_pcs s)" "ev_loop_destroy s = Next pcs"
  shows "ev_work_freed i pcs = Undefined \<or> (\<exists>pcs'. ev_work_freed i pcs = Next pcs' \<and> ev_work_freed i pcs' = Undefined)"
  using assms by (cases "pcs ! i") (auto simp: ev_loop_destroy_def ev_work_freed_def split: if_splits)

end
