(* ===== verification/Eio.thy ===== *)
theory Eio
  imports ListH
begin

text \<open>
  The asynchronous file operations of \<open>xxx/eio\<close>: each runs in a worker of the thread pool, makes one
  system call with the arguments stored in its request, records an error, and frees or hands over the
  buffers the request owns. The client's completion code then reads the result and disposes of the
  request with \<open>EIO_REQ_FREE\<close>.

  What is modelled is the ownership of memory and the flow of arguments and errors; the contents of
  the buffers are not. The heap maps the address of a block to its kind. \<^term>\<open>None\<close> as a
  result is undefined behaviour: freeing an address that is not a block from \<open>malloc\<close>, such as one
  freed before or a directory stream. Allocation succeeds, at a fresh address.
\<close>

section \<open>State\<close>

text \<open>A block: plain bytes, an array of \<open>struct iovec\<close> with the bases of its entries, or the stream that
  \<open>opendir\<close> returns.\<close>

datatype block = Bytes | Iov "addr option list" | Dir

text \<open>The three arguments are the 64 bits of a \<open>union eio_work_arg\<close>.\<close>

record eio_req =
  r_args :: "nat list"
  r_ret :: int
  r_ptr :: "nat \<Rightarrow> addr option"
  r_errnum :: int
  r_errbuf :: "addr option"

record eio =
  e_mem :: "addr \<Rightarrow> block option"
  e_next :: addr
  e_self :: addr
  e_req :: eio_req

text \<open>The members of the union: \<open>fd\<close>, \<open>amode\<close>, \<open>flag\<close> and \<open>count\<close> are \<open>int\<close>; \<open>mode\<close>, \<open>owner\<close> and \<open>group\<close>
  have 32 unsigned bits; \<open>len\<close> is a signed and \<open>size\<close> an unsigned 64-bit number.\<close>

definition arg_int :: "nat \<Rightarrow> eio \<Rightarrow> int" where
  "arg_int i st = c_int (int (r_args (e_req st) ! i))"

definition arg_u32 :: "nat \<Rightarrow> eio \<Rightarrow> nat" where
  "arg_u32 i st = r_args (e_req st) ! i mod 2 ^ 32"

definition arg_off :: "nat \<Rightarrow> eio \<Rightarrow> int" where
  "arg_off i st = (int (r_args (e_req st) ! i) + 2 ^ 63) mod 2 ^ 64 - 2 ^ 63"

definition arg_size :: "nat \<Rightarrow> eio \<Rightarrow> nat" where
  "arg_size i st = r_args (e_req st) ! i mod 2 ^ 64"

definition ptr_at :: "nat \<Rightarrow> eio \<Rightarrow> addr option" where
  "ptr_at i st = r_ptr (e_req st) i"

definition set_ptr :: "nat \<Rightarrow> addr option \<Rightarrow> eio \<Rightarrow> eio" where
  "set_ptr i p st = st\<lparr>e_req := (e_req st)\<lparr>r_ptr := (r_ptr (e_req st))(i := p)\<rparr>\<rparr>"

definition set_ret :: "int \<Rightarrow> eio \<Rightarrow> eio" where
  "set_ret r st = st\<lparr>e_req := (e_req st)\<lparr>r_ret := r\<rparr>\<rparr>"

section \<open>Memory\<close>

definition new_block :: "block \<Rightarrow> eio \<Rightarrow> eio" where
  "new_block b st = st\<lparr>e_mem := (e_mem st)(e_next st \<mapsto> b), e_next := e_next st + 1\<rparr>"

definition free_ptr :: "addr option \<Rightarrow> eio \<Rightarrow> eio option" where
  "free_ptr p st =
     (case p of
        None \<Rightarrow> Some st
      | Some a \<Rightarrow>
          (case e_mem st a of
             None \<Rightarrow> None
           | Some Dir \<Rightarrow> None
           | Some _ \<Rightarrow> Some (st\<lparr>e_mem := (e_mem st)(a := None)\<rparr>)))"

text \<open>\<open>free(req->ptr[i]); req->ptr[i] = NULL\<close>, and the same for both of the first two.\<close>

definition free_null :: "nat \<Rightarrow> eio \<Rightarrow> eio option" where
  "free_null i st = do { st1 \<leftarrow> free_ptr (ptr_at i st) st; Some (set_ptr i None st1) }"

definition free_both :: "eio \<Rightarrow> eio option" where
  "free_both st = do {
     st1 \<leftarrow> free_ptr (ptr_at 0 st) st;
     st2 \<leftarrow> free_ptr (ptr_at 1 st1) st1;
     Some (set_ptr 1 None (set_ptr 0 None st2))
   }"

section \<open>The macros of eio.h\<close>

definition EIO_REQ_SETERR :: "int \<Rightarrow> eio \<Rightarrow> eio" where
  "EIO_REQ_SETERR e st =
     (new_block Bytes st)\<lparr>e_req := (e_req st)\<lparr>r_errnum := e, r_errbuf := Some (e_next st)\<rparr>\<rparr>"

definition check :: "bool \<Rightarrow> int \<Rightarrow> eio \<Rightarrow> eio" where
  "check failed e st = (if failed then EIO_REQ_SETERR e st else st)"

text \<open>A new request; the arguments and the result are still indeterminate.\<close>

definition EIO_REQ_ALLOC :: "(addr \<Rightarrow> block option) \<Rightarrow> addr \<Rightarrow> nat list \<Rightarrow> int \<Rightarrow> eio" where
  "EIO_REQ_ALLOC mem nxt args ret =
     \<lparr>e_mem = mem(nxt \<mapsto> Bytes), e_next = nxt + 1, e_self = nxt,
      e_req = \<lparr>r_args = args, r_ret = ret, r_ptr = (\<lambda>i. None), r_errnum = 0, r_errbuf = None\<rparr>\<rparr>"

definition EIO_REQ_FREE :: "eio \<Rightarrow> eio option" where
  "EIO_REQ_FREE st = do {
     st0 \<leftarrow> free_ptr (ptr_at 0 st) st;
     st1 \<leftarrow> free_ptr (ptr_at 1 st0) st0;
     st2 \<leftarrow> free_ptr (ptr_at 2 st1) st1;
     st3 \<leftarrow> free_ptr (r_errbuf (e_req st2)) st2;
     free_ptr (Some (e_self st3)) st3
   }"

section \<open>The operations\<close>

text \<open>The system calls with their arguments. The operating system is a parameter: the result of a call
  (for one that returns a pointer, 0 is the null pointer) and \<open>errno\<close> after it.\<close>

datatype syscall =
    C_access "addr option" int
  | C_chmod "addr option" nat
  | C_chown "addr option" nat nat
  | C_close int
  | C_fchmod int nat
  | C_fchown int nat nat
  | C_fdatasync int
  | C_fstat int "addr option"
  | C_fsync int
  | C_ftruncate int int
  | C_futimes int "addr option"
  | C_lchown "addr option" nat nat
  | C_lutimes "addr option" "addr option"
  | C_link "addr option" "addr option"
  | C_lstat "addr option" "addr option"
  | C_mkdir "addr option" nat
  | C_mkdtemp "addr option"
  | C_open "addr option" int nat
  | C_opendir "addr option"
  | C_read int "addr option" nat
  | C_readlink "addr option" "addr option" nat
  | C_readv int "addr option" int
  | C_realpath "addr option" "addr option"
  | C_rename "addr option" "addr option"
  | C_rmdir "addr option"
  | C_stat "addr option" "addr option"
  | C_symlink "addr option" "addr option"
  | C_truncate "addr option" int
  | C_unlink "addr option"
  | C_utimes "addr option" "addr option"
  | C_write int "addr option" nat
  | C_writev int "addr option" int

type_synonym os = "syscall \<Rightarrow> int \<times> int"

text \<open>The loop that frees the buffers of a vector: \<open>for(i = 0; i < count; i++) free(iov[i].iov_base)\<close>. An
  entry past the array is undefined.\<close>

fun free_list :: "addr option list \<Rightarrow> nat \<Rightarrow> eio \<Rightarrow> eio option" where
  "free_list bases 0 st = Some st"
| "free_list [] (Suc n) st = None"
| "free_list (b # bs) (Suc n) st = do { st1 \<leftarrow> free_ptr b st; free_list bs n st1 }"

definition free_bases :: "eio \<Rightarrow> eio option" where
  "free_bases st =
     (if arg_int 1 st \<le> 0 then Some st
      else case ptr_at 0 st of
        None \<Rightarrow> None
      | Some a \<Rightarrow>
          (case e_mem st a of
             Some (Iov bases) \<Rightarrow> free_list bases (nat (arg_int 1 st)) st
           | _ \<Rightarrow> None))"

definition eio_access :: "os \<Rightarrow> eio \<Rightarrow> eio option" where
  "eio_access os st =
     (let (r, e) = os (C_access (ptr_at 0 st) (arg_int 0 st)) in
      free_null 0 (check (r \<noteq> 0) e st))"

definition eio_chmod :: "os \<Rightarrow> eio \<Rightarrow> eio option" where
  "eio_chmod os st =
     (let (r, e) = os (C_chmod (ptr_at 0 st) (arg_u32 0 st)) in
      free_null 0 (check (r \<noteq> 0) e st))"

definition eio_chown :: "os \<Rightarrow> eio \<Rightarrow> eio option" where
  "eio_chown os st =
     (let (r, e) = os (C_chown (ptr_at 0 st) (arg_u32 0 st) (arg_u32 1 st)) in
      free_null 0 (check (r \<noteq> 0) e st))"

definition eio_close :: "os \<Rightarrow> eio \<Rightarrow> eio option" where
  "eio_close os st =
     (let (r, e) = os (C_close (arg_int 0 st)) in
      Some (check (r \<noteq> 0) e st))"

definition eio_fchmod :: "os \<Rightarrow> eio \<Rightarrow> eio option" where
  "eio_fchmod os st =
     (let (r, e) = os (C_fchmod (arg_int 0 st) (arg_u32 1 st)) in
      Some (check (r \<noteq> 0) e st))"

definition eio_fchown :: "os \<Rightarrow> eio \<Rightarrow> eio option" where
  "eio_fchown os st =
     (let (r, e) = os (C_fchown (arg_int 0 st) (arg_u32 1 st) (arg_u32 2 st)) in
      Some (check (r \<noteq> 0) e st))"

definition eio_fdatasync :: "os \<Rightarrow> eio \<Rightarrow> eio option" where
  "eio_fdatasync os st =
     (let (r, e) = os (C_fdatasync (arg_int 0 st)) in
      Some (check (r \<noteq> 0) e st))"

definition eio_fstat :: "os \<Rightarrow> eio \<Rightarrow> eio option" where
  "eio_fstat os st =
     (let (r, e) = os (C_fstat (arg_int 0 st) (ptr_at 0 st)) in
      if r \<noteq> 0 then free_null 0 (EIO_REQ_SETERR e st) else Some st)"

definition eio_fsync :: "os \<Rightarrow> eio \<Rightarrow> eio option" where
  "eio_fsync os st =
     (let (r, e) = os (C_fsync (arg_int 0 st)) in
      Some (check (r \<noteq> 0) e st))"

definition eio_ftruncate :: "os \<Rightarrow> eio \<Rightarrow> eio option" where
  "eio_ftruncate os st =
     (let (r, e) = os (C_ftruncate (arg_int 0 st) (arg_off 1 st)) in
      Some (check (r \<noteq> 0) e st))"

definition eio_futimes :: "os \<Rightarrow> eio \<Rightarrow> eio option" where
  "eio_futimes os st =
     (let (r, e) = os (C_futimes (arg_int 0 st) (ptr_at 0 st)) in
      free_null 0 (check (r \<noteq> 0) e st))"

definition eio_lchown :: "os \<Rightarrow> eio \<Rightarrow> eio option" where
  "eio_lchown os st =
     (let (r, e) = os (C_lchown (ptr_at 0 st) (arg_u32 0 st) (arg_u32 1 st)) in
      free_null 0 (check (r \<noteq> 0) e st))"

definition eio_lutimes :: "os \<Rightarrow> eio \<Rightarrow> eio option" where
  "eio_lutimes os st =
     (let (r, e) = os (C_lutimes (ptr_at 0 st) (ptr_at 1 st)) in
      free_both (check (r \<noteq> 0) e st))"

definition eio_link :: "os \<Rightarrow> eio \<Rightarrow> eio option" where
  "eio_link os st =
     (let (r, e) = os (C_link (ptr_at 0 st) (ptr_at 1 st)) in
      free_both (check (r \<noteq> 0) e st))"

definition eio_lstat :: "os \<Rightarrow> eio \<Rightarrow> eio option" where
  "eio_lstat os st =
     (let (r, e) = os (C_lstat (ptr_at 0 st) (ptr_at 1 st)) in
      do {
        st1 \<leftarrow> (if r \<noteq> 0 then free_null 1 (EIO_REQ_SETERR e st) else Some st);
        st2 \<leftarrow> free_ptr (ptr_at 0 st1) st1;
        Some (set_ptr 1 None (set_ptr 0 (ptr_at 1 st2) st2))
      })"

definition eio_mkdir :: "os \<Rightarrow> eio \<Rightarrow> eio option" where
  "eio_mkdir os st =
     (let (r, e) = os (C_mkdir (ptr_at 0 st) (arg_u32 0 st)) in
      free_null 0 (check (r \<noteq> 0) e st))"

definition eio_mkdtemp :: "os \<Rightarrow> eio \<Rightarrow> eio option" where
  "eio_mkdtemp os st =
     (let (r, e) = os (C_mkdtemp (ptr_at 0 st)) in
      if r = 0 then free_null 0 (EIO_REQ_SETERR e st) else Some st)"

definition eio_open :: "os \<Rightarrow> eio \<Rightarrow> eio option" where
  "eio_open os st =
     (let (r, e) = os (C_open (ptr_at 0 st) (arg_int 0 st) (arg_u32 0 st)) in
      free_null 0 (check (r < 0) e (set_ret r st)))"

definition eio_opendir :: "os \<Rightarrow> eio \<Rightarrow> eio option" where
  "eio_opendir os st =
     (let (r, e) = os (C_opendir (ptr_at 0 st)) in
      do {
        let (ret, st1) = (if r = 0 then (None, EIO_REQ_SETERR e st) else (Some (e_next st), new_block Dir st));
        st2 \<leftarrow> free_ptr (ptr_at 0 st1) st1;
        Some (set_ptr 0 ret st2)
      })"

definition eio_read :: "os \<Rightarrow> eio \<Rightarrow> eio option" where
  "eio_read os st =
     (let (r, e) = os (C_read (arg_int 0 st) (ptr_at 0 st) (arg_size 1 st)) in
      if r < 0 then free_null 0 (EIO_REQ_SETERR e (set_ret r st)) else Some (set_ret r st))"

definition eio_readlink :: "os \<Rightarrow> eio \<Rightarrow> eio option" where
  "eio_readlink os st =
     (let (r, e) = os (C_readlink (ptr_at 0 st) (ptr_at 1 st) (arg_size 0 st)) in
      do {
        st1 \<leftarrow> (if r < 0 then free_null 1 (EIO_REQ_SETERR e (set_ret r st)) else Some (set_ret r st));
        free_null 0 st1
      })"

definition eio_readv :: "os \<Rightarrow> eio \<Rightarrow> eio option" where
  "eio_readv os st =
     (let (r, e) = os (C_readv (arg_int 0 st) (ptr_at 0 st) (arg_int 1 st)) in
      if r < 0 then do {
        st1 \<leftarrow> free_bases (EIO_REQ_SETERR e (set_ret r st));
        free_null 0 st1
      }
      else Some (set_ret r st))"

text \<open>\<open>realpath\<close> without a buffer allocates its result, which nothing keeps.\<close>

definition eio_realpath :: "os \<Rightarrow> eio \<Rightarrow> eio option" where
  "eio_realpath os st =
     (let (r, e) = os (C_realpath (ptr_at 0 st) (ptr_at 1 st)) in
      do {
        st1 \<leftarrow> (if r = 0 then free_null 1 (EIO_REQ_SETERR e st)
                 else Some (if ptr_at 1 st = None then new_block Bytes st else st));
        free_null 0 st1
      })"

definition eio_rename :: "os \<Rightarrow> eio \<Rightarrow> eio option" where
  "eio_rename os st =
     (let (r, e) = os (C_rename (ptr_at 0 st) (ptr_at 1 st)) in
      free_both (check (r \<noteq> 0) e st))"

definition eio_rmdir :: "os \<Rightarrow> eio \<Rightarrow> eio option" where
  "eio_rmdir os st =
     (let (r, e) = os (C_rmdir (ptr_at 0 st)) in
      free_null 0 (check (r \<noteq> 0) e st))"

definition eio_stat :: "os \<Rightarrow> eio \<Rightarrow> eio option" where
  "eio_stat os st =
     (let (r, e) = os (C_stat (ptr_at 0 st) (ptr_at 1 st)) in
      do {
        st1 \<leftarrow> (if r \<noteq> 0 then free_null 1 (EIO_REQ_SETERR e st) else Some st);
        free_null 0 st1
      })"

definition eio_symlink :: "os \<Rightarrow> eio \<Rightarrow> eio option" where
  "eio_symlink os st =
     (let (r, e) = os (C_symlink (ptr_at 0 st) (ptr_at 1 st)) in
      free_both (check (r \<noteq> 0) e st))"

definition eio_truncate :: "os \<Rightarrow> eio \<Rightarrow> eio option" where
  "eio_truncate os st =
     (let (r, e) = os (C_truncate (ptr_at 0 st) (arg_off 0 st)) in
      free_null 0 (check (r \<noteq> 0) e st))"

definition eio_unlink :: "os \<Rightarrow> eio \<Rightarrow> eio option" where
  "eio_unlink os st =
     (let (r, e) = os (C_unlink (ptr_at 0 st)) in
      free_null 0 (check (r \<noteq> 0) e st))"

definition eio_utimes :: "os \<Rightarrow> eio \<Rightarrow> eio option" where
  "eio_utimes os st =
     (let (r, e) = os (C_utimes (ptr_at 0 st) (ptr_at 1 st)) in
      free_both (check (r \<noteq> 0) e st))"

definition eio_write :: "os \<Rightarrow> eio \<Rightarrow> eio option" where
  "eio_write os st =
     (let (r, e) = os (C_write (arg_int 0 st) (ptr_at 0 st) (arg_size 1 st)) in
      if r < 0 then free_null 0 (EIO_REQ_SETERR e (set_ret r st)) else Some (set_ret r st))"

definition eio_writev :: "os \<Rightarrow> eio \<Rightarrow> eio option" where
  "eio_writev os st =
     (let (r, e) = os (C_writev (arg_int 0 st) (ptr_at 0 st) (arg_int 1 st)) in
      if r < 0 then do {
        st1 \<leftarrow> free_bases (EIO_REQ_SETERR e (set_ret r st));
        free_null 0 st1
      }
      else Some (set_ret r st))"

section \<open>Ownership\<close>

fun opt_list :: "'a option \<Rightarrow> 'a list" where
  "opt_list None = []"
| "opt_list (Some a) = [a]"

text \<open>The blocks a request owns: what its pointers and its error text point to, and itself.\<close>

definition own :: "eio \<Rightarrow> addr list" where
  "own st = opt_list (ptr_at 0 st) @ opt_list (ptr_at 1 st) @ opt_list (ptr_at 2 st) @
     opt_list (r_errbuf (e_req st)) @ [e_self st]"

definition others :: "eio \<Rightarrow> addr \<Rightarrow> block option" where
  "others st = e_mem st |` (- set (own st))"

text \<open>A well-formed request owns its blocks alone, and can free each.\<close>

definition eio_wf :: "eio \<Rightarrow> bool" where
  "eio_wf st \<longleftrightarrow> distinct (own st) \<and> (\<forall>a \<in> set (own st). e_mem st a \<noteq> None \<and> e_mem st a \<noteq> Some Dir) \<and>
     (\<forall>a \<ge> e_next st. e_mem st a = None)"

text \<open>\<open>keeps st st'\<close>: from \<open>st\<close> to \<open>st'\<close> the request stays well-formed and other blocks stay as they are.\<close>

definition keeps :: "eio \<Rightarrow> eio \<Rightarrow> bool" where
  "keeps st st' \<longleftrightarrow> eio_wf st' \<and> others st' = others st"

definition runs :: "eio \<Rightarrow> eio option \<Rightarrow> bool" where
  "runs st res \<longleftrightarrow> (\<exists>st'. res = Some st' \<and> keeps st st')"

lemma state_simps [simp]:
  "e_mem (set_ptr i p st) = e_mem st" "e_next (set_ptr i p st) = e_next st" "e_self (set_ptr i p st) = e_self st"
  "r_errbuf (e_req (set_ptr i p st)) = r_errbuf (e_req st)" "r_errnum (e_req (set_ptr i p st)) = r_errnum (e_req st)"
  "r_args (e_req (set_ptr i p st)) = r_args (e_req st)"
  "ptr_at j (set_ptr i p st) = (if j = i then p else ptr_at j st)"
  "e_mem (set_ret r st) = e_mem st" "e_next (set_ret r st) = e_next st" "e_self (set_ret r st) = e_self st"
  "r_errbuf (e_req (set_ret r st)) = r_errbuf (e_req st)" "r_errnum (e_req (set_ret r st)) = r_errnum (e_req st)"
  "ptr_at j (set_ret r st) = ptr_at j st" "r_args (e_req (set_ret r st)) = r_args (e_req st)"
  "ptr_at j (st\<lparr>e_mem := m\<rparr>) = ptr_at j st"
  by (simp_all add: set_ptr_def set_ret_def ptr_at_def)

lemma seterr_simps [simp]:
  "e_mem (EIO_REQ_SETERR e st) = (e_mem st)(e_next st \<mapsto> Bytes)"
  "e_next (EIO_REQ_SETERR e st) = e_next st + 1" "e_self (EIO_REQ_SETERR e st) = e_self st"
  "r_errbuf (e_req (EIO_REQ_SETERR e st)) = Some (e_next st)" "r_errnum (e_req (EIO_REQ_SETERR e st)) = e"
  "ptr_at j (EIO_REQ_SETERR e st) = ptr_at j st" "r_args (e_req (EIO_REQ_SETERR e st)) = r_args (e_req st)"
  by (simp_all add: EIO_REQ_SETERR_def new_block_def ptr_at_def)

lemma own_fresh: "eio_wf st \<Longrightarrow> a \<in> set (own st) \<Longrightarrow> a < e_next st"
  unfolding eio_wf_def by (meson not_less)

lemma keeps_refl: "eio_wf st \<Longrightarrow> keeps st st"
  by (simp add: keeps_def)

lemma keeps_set_ret: "keeps st s \<Longrightarrow> keeps st (set_ret r s)"
  by (simp add: keeps_def eio_wf_def others_def own_def)

lemma keeps_seterr:
  assumes k: "keeps st s" and e: "r_errbuf (e_req s) = None"
  shows "keeps st (EIO_REQ_SETERR n s)"
proof -
  let ?s = "EIO_REQ_SETERR n s"
  have wf: "eio_wf s" using k by (simp add: keeps_def)
  have fresh: "e_next s \<notin> set (own s)" "e_mem s (e_next s) = None"
    using own_fresh [OF wf, of "e_next s"] wf by (auto simp: eio_wf_def)
  have o: "set (own ?s) = insert (e_next s) (set (own s))" "distinct (own ?s)"
    using e fresh(1) wf by (auto simp: own_def eio_wf_def)
  have "eio_wf ?s"
    using wf o fresh by (auto simp: eio_wf_def)
  moreover have "others ?s = others s"
    using o(1) fresh by (auto simp: others_def restrict_map_def fun_eq_iff)
  ultimately show ?thesis using k by (simp add: keeps_def)
qed

lemma keeps_check: "keeps st s \<Longrightarrow> r_errbuf (e_req s) = None \<Longrightarrow> keeps st (check b n s)"
  by (simp add: check_def keeps_seterr)

text \<open>Freeing the block of a pointer and dropping the pointer.\<close>

lemma free_owned:
  assumes "eio_wf s" "a \<in> set (own s)"
  shows "free_ptr (Some a) s = Some (s\<lparr>e_mem := (e_mem s)(a := None)\<rparr>)"
  using assms by (auto simp: eio_wf_def free_ptr_def split: option.split block.split)

lemma drop_block:
  assumes wf: "eio_wf s" and o: "set (own s') = set (own s) - {a}" "distinct (own s')"
    and m: "e_mem s' = (e_mem s)(a := None)" "e_next s' = e_next s" and a: "a \<in> set (own s)"
  shows "eio_wf s' \<and> others s' = others s"
  using assms by (auto simp: eio_wf_def others_def restrict_map_def fun_eq_iff)

lemma keeps_free_null:
  assumes k: "keeps st s" and i: "i < 3"
  shows "runs st (free_null i s)"
proof (cases "ptr_at i s")
  case None
  then have "set_ptr i None s = s"
    by (simp add: set_ptr_def ptr_at_def fun_upd_idem)
  with None k show ?thesis by (simp add: free_null_def free_ptr_def runs_def)
next
  case (Some a)
  have wf: "eio_wf s" using k by (simp add: keeps_def)
  have i3: "i = 0 \<or> i = 1 \<or> i = 2" using i by auto
  let ?s = "set_ptr i None (s\<lparr>e_mem := (e_mem s)(a := None)\<rparr>)"
  have a: "a \<in> set (own s)" using i3 Some by (auto simp: own_def)
  have o: "set (own ?s) = set (own s) - {a}" "distinct (own ?s)"
    using i3 Some wf by (auto simp: own_def eio_wf_def set_ptr_def ptr_at_def)
  have "eio_wf ?s \<and> others ?s = others s" by (rule drop_block [OF wf o _ _ a]) simp_all
  with k free_owned [OF wf a] Some show ?thesis by (simp add: free_null_def runs_def keeps_def)
qed

lemma free_null_facts:
  assumes "free_null i s = Some s'"
  shows "r_errbuf (e_req s') = r_errbuf (e_req s)" "r_errnum (e_req s') = r_errnum (e_req s)"
    "ptr_at j s' = (if j = i then None else ptr_at j s)" "e_self s' = e_self s"
  using assms by (auto simp: free_null_def free_ptr_def split: option.splits block.splits Option.bind_splits)

lemma runs_bind:
  "runs st x \<Longrightarrow> (\<And>s. x = Some s \<Longrightarrow> keeps st s \<Longrightarrow> runs st (f s)) \<Longrightarrow> runs st (x \<bind> f)"
  by (auto simp: runs_def)

lemma runs_Some: "keeps st s \<Longrightarrow> runs st (Some s)"
  by (simp add: runs_def)

lemma runs_if: "(b \<Longrightarrow> runs st x) \<Longrightarrow> (\<not> b \<Longrightarrow> runs st y) \<Longrightarrow> runs st (if b then x else y)"
  by simp

lemma free_both_null: "free_both s = do { s1 \<leftarrow> free_null 0 s; free_null 1 s1 }"
  by (auto simp: free_both_def free_null_def free_ptr_def set_ptr_def ptr_at_def fun_upd_twist
      split: option.splits block.splits)

lemma keeps_free_both: "keeps st s \<Longrightarrow> runs st (free_both s)"
  unfolding free_both_null by (rule runs_bind) (simp_all add: keeps_free_null)

text \<open>\<open>lstat\<close> frees the first pointer and moves the second in its place.\<close>

lemma keeps_move:
  assumes k: "keeps st s"
  shows "runs st (do { s2 \<leftarrow> free_ptr (ptr_at 0 s) s; Some (set_ptr 1 None (set_ptr 0 (ptr_at 1 s2) s2)) })"
proof -
  have wf: "eio_wf s" using k by (simp add: keeps_def)
  let ?mv = "\<lambda>s. set_ptr 1 None (set_ptr 0 (ptr_at 1 s) s)"
  show ?thesis
  proof (cases "ptr_at 0 s")
    case None
    then have "set (own (?mv s)) = set (own s)" "distinct (own (?mv s))" using wf by (auto simp: own_def eio_wf_def)
    then have "keeps s (?mv s)" using wf by (auto simp: keeps_def eio_wf_def others_def)
    with k None show ?thesis by (simp add: runs_def free_ptr_def keeps_def)
  next
    case (Some a)
    let ?s = "s\<lparr>e_mem := (e_mem s)(a := None)\<rparr>"
    have a: "a \<in> set (own s)" using Some by (auto simp: own_def)
    have o: "set (own (?mv ?s)) = set (own s) - {a}" "distinct (own (?mv ?s))"
      using Some wf by (auto simp: own_def eio_wf_def)
    have "eio_wf (?mv ?s) \<and> others (?mv ?s) = others s" by (rule drop_block [OF wf o _ _ a]) simp_all
    with k free_owned [OF wf a] Some show ?thesis by (simp add: runs_def keeps_def)
  qed
qed

text \<open>\<open>EIO_REQ_FREE\<close> frees everything the request owns and nothing else.\<close>

lemma free_list_all:
  "distinct (concat (map opt_list ps)) \<Longrightarrow>
     \<forall>a \<in> set (concat (map opt_list ps)). e_mem st a \<noteq> None \<and> e_mem st a \<noteq> Some Dir \<Longrightarrow>
     free_list ps (length ps) st = Some (st\<lparr>e_mem := e_mem st |` (- set (concat (map opt_list ps)))\<rparr>)"
proof (induction ps arbitrary: st)
  case Nil
  then show ?case by simp
next
  case (Cons p ps)
  show ?case
  proof (cases p)
    case None
    with Cons show ?thesis by (simp add: free_ptr_def)
  next
    case (Some a)
    have "e_mem st a \<noteq> None \<and> e_mem st a \<noteq> Some Dir" using Cons.prems(2) Some by simp
    then have f: "free_ptr p st = Some (st\<lparr>e_mem := (e_mem st)(a := None)\<rparr>)"
      by (auto simp: Some free_ptr_def split: option.split block.split)
    have na: "a \<notin> set (concat (map opt_list ps))" "distinct (concat (map opt_list ps))"
      using Cons.prems(1) Some by simp_all
    let ?s = "st\<lparr>e_mem := (e_mem st)(a := None)\<rparr>"
    have "\<forall>b \<in> set (concat (map opt_list ps)). e_mem ?s b \<noteq> None \<and> e_mem ?s b \<noteq> Some Dir"
      using Cons.prems(2) na(1) by (simp del: set_concat) (metis UnI2)
    from Cons.IH [OF na(2) this] f show ?thesis
      by (simp add: Some restrict_map_def fun_eq_iff)
  qed
qed

lemma free_ptr_req: "free_ptr p s = Some s' \<Longrightarrow> e_req s' = e_req s \<and> e_self s' = e_self s"
  by (auto simp: free_ptr_def split: option.splits block.splits)

lemma EIO_REQ_FREE_list:
  "EIO_REQ_FREE st = free_list [ptr_at 0 st, ptr_at 1 st, ptr_at 2 st, r_errbuf (e_req st), Some (e_self st)]
     (Suc (Suc (Suc (Suc (Suc 0))))) st"
proof -
  have "(do { s \<leftarrow> free_ptr p s0; g s }) = (do { s \<leftarrow> free_ptr p s0; h s })"
    if "\<And>s. e_req s = e_req s0 \<Longrightarrow> e_self s = e_self s0 \<Longrightarrow> g s = h s" for p s0 and g h :: "eio \<Rightarrow> eio option"
    using that free_ptr_req by (cases "free_ptr p s0") auto
  note c = this
  have "free_ptr (Some a) s = (do { s' \<leftarrow> free_ptr (Some a) s; Some s' })" for a s by simp
  then show ?thesis
    unfolding EIO_REQ_FREE_def free_list.simps
    by (auto intro!: c simp: ptr_at_def)
qed

lemma EIO_REQ_FREE_owned:
  assumes "eio_wf st"
  shows "\<exists>st'. EIO_REQ_FREE st = Some st' \<and> e_mem st' = others st"
  using assms free_list_all [of "[ptr_at 0 st, ptr_at 1 st, ptr_at 2 st, r_errbuf (e_req st), Some (e_self st)]" st]
  by (simp add: EIO_REQ_FREE_list eio_wf_def own_def others_def Un_assoc)

section \<open>The operations one by one\<close>

text \<open>The calls that the code makes, and when it takes them to have failed, of the operations on plain buffers
  (\<open>realpath\<close>, \<open>opendir\<close>, \<open>readv\<close> and \<open>writev\<close> come after).\<close>

type_synonym eio_call = "(os \<Rightarrow> eio \<Rightarrow> eio option) \<times> (eio \<Rightarrow> syscall) \<times> (int \<Rightarrow> bool)"

definition nonzero :: "int \<Rightarrow> bool" where "nonzero r \<longleftrightarrow> r \<noteq> 0"
definition negative :: "int \<Rightarrow> bool" where "negative r \<longleftrightarrow> r < 0"
definition null :: "int \<Rightarrow> bool" where "null r \<longleftrightarrow> r = 0"

definition eio_made :: "eio_call list" where
  "eio_made =
     [(eio_access, \<lambda>st. C_access (ptr_at 0 st) (arg_int 0 st), nonzero),
      (eio_chmod, \<lambda>st. C_chmod (ptr_at 0 st) (arg_u32 0 st), nonzero),
      (eio_chown, \<lambda>st. C_chown (ptr_at 0 st) (arg_u32 0 st) (arg_u32 1 st), nonzero),
      (eio_close, \<lambda>st. C_close (arg_int 0 st), nonzero),
      (eio_fchmod, \<lambda>st. C_fchmod (arg_int 0 st) (arg_u32 1 st), nonzero),
      (eio_fchown, \<lambda>st. C_fchown (arg_int 0 st) (arg_u32 1 st) (arg_u32 2 st), nonzero),
      (eio_fdatasync, \<lambda>st. C_fdatasync (arg_int 0 st), nonzero),
      (eio_fstat, \<lambda>st. C_fstat (arg_int 0 st) (ptr_at 0 st), nonzero),
      (eio_fsync, \<lambda>st. C_fsync (arg_int 0 st), nonzero),
      (eio_ftruncate, \<lambda>st. C_ftruncate (arg_int 0 st) (arg_off 1 st), nonzero),
      (eio_futimes, \<lambda>st. C_futimes (arg_int 0 st) (ptr_at 0 st), nonzero),
      (eio_lchown, \<lambda>st. C_lchown (ptr_at 0 st) (arg_u32 0 st) (arg_u32 1 st), nonzero),
      (eio_lutimes, \<lambda>st. C_lutimes (ptr_at 0 st) (ptr_at 1 st), nonzero),
      (eio_link, \<lambda>st. C_link (ptr_at 0 st) (ptr_at 1 st), nonzero),
      (eio_lstat, \<lambda>st. C_lstat (ptr_at 0 st) (ptr_at 1 st), nonzero),
      (eio_mkdir, \<lambda>st. C_mkdir (ptr_at 0 st) (arg_u32 0 st), nonzero),
      (eio_mkdtemp, \<lambda>st. C_mkdtemp (ptr_at 0 st), null),
      (eio_open, \<lambda>st. C_open (ptr_at 0 st) (arg_int 0 st) (arg_u32 0 st), negative),
      (eio_read, \<lambda>st. C_read (arg_int 0 st) (ptr_at 0 st) (arg_size 1 st), negative),
      (eio_readlink, \<lambda>st. C_readlink (ptr_at 0 st) (ptr_at 1 st) (arg_size 0 st), negative),
      (eio_rename, \<lambda>st. C_rename (ptr_at 0 st) (ptr_at 1 st), nonzero),
      (eio_rmdir, \<lambda>st. C_rmdir (ptr_at 0 st), nonzero),
      (eio_stat, \<lambda>st. C_stat (ptr_at 0 st) (ptr_at 1 st), nonzero),
      (eio_symlink, \<lambda>st. C_symlink (ptr_at 0 st) (ptr_at 1 st), nonzero),
      (eio_truncate, \<lambda>st. C_truncate (ptr_at 0 st) (arg_off 0 st), nonzero),
      (eio_unlink, \<lambda>st. C_unlink (ptr_at 0 st), nonzero),
      (eio_utimes, \<lambda>st. C_utimes (ptr_at 0 st) (ptr_at 1 st), nonzero),
      (eio_write, \<lambda>st. C_write (arg_int 0 st) (ptr_at 0 st) (arg_size 1 st), negative)]"

text \<open>Every operation of the table is one of these shapes, over its call and failure test.\<close>

definition sets_err :: "bool \<Rightarrow> int \<Rightarrow> eio \<Rightarrow> eio \<Rightarrow> bool" where
  "sets_err failed e st st' \<longleftrightarrow>
     r_errnum (e_req st') = (if failed then e else r_errnum (e_req st)) \<and>
     (r_errbuf (e_req st') \<noteq> None \<longleftrightarrow> failed)"

definition does :: "eio \<Rightarrow> bool \<Rightarrow> int \<Rightarrow> eio option \<Rightarrow> bool" where
  "does st failed e res \<longleftrightarrow> (\<exists>st'. res = Some st' \<and> keeps st st' \<and> sets_err failed e st st')"

text \<open>One rule for each action, for a request whose error fields say \<open>failed\<close> and \<open>e\<close>.\<close>

definition at :: "eio \<Rightarrow> bool \<Rightarrow> int \<Rightarrow> eio \<Rightarrow> bool" where
  "at st failed e s \<longleftrightarrow> keeps st s \<and> sets_err failed e st s"

lemma at_start: "eio_wf st \<Longrightarrow> r_errbuf (e_req st) = None \<Longrightarrow> at st False e st"
  by (simp add: at_def sets_err_def keeps_refl)

lemma at_set_ret: "at st f e s \<Longrightarrow> at st f e (set_ret r s)"
  by (simp add: at_def keeps_set_ret sets_err_def)

lemma at_seterr: "at st False e s \<Longrightarrow> at st True e (EIO_REQ_SETERR e s)"
  by (auto simp: at_def sets_err_def intro: keeps_seterr)

lemma at_check: "at st False e s \<Longrightarrow> at st f e (check f e s)"
  by (cases f) (simp_all add: check_def at_seterr)

lemma does_Some: "at st f e s \<Longrightarrow> does st f e (Some s)"
  by (auto simp: does_def at_def)

lemma does_free_null: "at st f e s \<Longrightarrow> i < 3 \<Longrightarrow> does st f e (free_null i s)"
proof -
  assume a: "at st f e s" "i < 3"
  then obtain s' where s': "free_null i s = Some s'" "keeps st s'"
    using keeps_free_null [of st s i] by (auto simp: at_def runs_def)
  with a(1) free_null_facts(1,2) [OF s'(1)] show ?thesis by (simp add: does_def at_def sets_err_def)
qed

lemma does_bind:
  "does st f e x \<Longrightarrow> (\<And>s. at st f e s \<Longrightarrow> does st f e (g s)) \<Longrightarrow> does st f e (x \<bind> g)"
  by (auto simp: does_def at_def)

lemma does_free_both: "at st f e s \<Longrightarrow> does st f e (free_both s)"
  unfolding free_both_null by (intro does_bind does_free_null) simp_all

lemma does_move:
  "at st f e s \<Longrightarrow> does st f e (do { s2 \<leftarrow> free_ptr (ptr_at 0 s) s; Some (set_ptr 1 None (set_ptr 0 (ptr_at 1 s2) s2)) })"
proof -
  assume a: "at st f e s"
  then have "runs st (do { s2 \<leftarrow> free_ptr (ptr_at 0 s) s; Some (set_ptr 1 None (set_ptr 0 (ptr_at 1 s2) s2)) })"
    by (intro keeps_move) (simp add: at_def)
  then obtain s2 where s2: "free_ptr (ptr_at 0 s) s = Some s2"
    "keeps st (set_ptr 1 None (set_ptr 0 (ptr_at 1 s2) s2))"
    by (auto simp: runs_def split: Option.bind_splits)
  with a free_ptr_req [OF s2(1)] show ?thesis by (simp add: does_def at_def sets_err_def)
qed

lemma does_if: "(b \<Longrightarrow> does st True e x) \<Longrightarrow> (\<not> b \<Longrightarrow> does st False e y) \<Longrightarrow> does st b e (if b then x else y)"
  by simp

lemma does_if_move:
  assumes "b \<Longrightarrow> does st True e x" "\<not> b \<Longrightarrow> does st False e y" "\<And>f s. at st f e s \<Longrightarrow> does st f e (g s)"
  shows "does st b e ((if b then x else y) \<bind> g)"
  using assms by (cases b) (auto intro: does_bind)

lemmas eio_defs = eio_access_def eio_chmod_def eio_chown_def eio_close_def eio_fchmod_def eio_fchown_def
  eio_fdatasync_def eio_fstat_def eio_fsync_def eio_ftruncate_def eio_futimes_def eio_lchown_def
  eio_lutimes_def eio_link_def eio_lstat_def eio_mkdir_def eio_mkdtemp_def eio_open_def eio_read_def
  eio_readlink_def eio_realpath_def eio_rename_def eio_rmdir_def eio_stat_def eio_symlink_def
  eio_truncate_def eio_unlink_def eio_utimes_def eio_write_def

lemmas does_rules = does_if_move does_free_both does_free_null does_move does_if does_Some
  at_check at_seterr at_set_ret

lemma eio_does:
  assumes "(op, call, failed) \<in> set eio_made" "eio_wf st" "r_errbuf (e_req st) = None" "os (call st) = (r, e)"
  shows "does st (failed r) e (op os st)"
proof -
  have start: "at st False e st" using assms(2,3) by (rule at_start)
  show ?thesis
    using assms(1,4) start
    unfolding eio_made_def list.set insert_iff empty_iff simp_thms
    by (elim disjE Pair_inject; hypsubst;
        simp only: eio_defs nonzero_def negative_def null_def Let_def split_conv;
        intro does_rules; (assumption | simp))
qed

lemma eio_realpath_does:
  assumes "eio_wf st" "r_errbuf (e_req st) = None" "os (C_realpath (ptr_at 0 st) (ptr_at 1 st)) = (r, e)" "ptr_at 1 st \<noteq> None"
  shows "does st (null r) e (eio_realpath os st)"
proof -
  have "at st False e st" using assms(1,2) by (rule at_start)
  with assms(3,4) show ?thesis
    by (simp only: eio_defs null_def Let_def split_conv if_False) (intro does_rules; (assumption | simp))
qed

section \<open>The table of operations\<close>

text \<open>What each operation is to do: the system call for the arguments that the client stores in the request, when
  that call has failed, and whether its value is the result of the request. The mode of \<open>open\<close> is the second
  argument (\<open>fs.cc\<close> stores it there).\<close>

type_synonym eio_spec = "(os \<Rightarrow> eio \<Rightarrow> eio option) \<times> (eio \<Rightarrow> syscall) \<times> (int \<Rightarrow> bool) \<times> bool"

definition eio_table :: "eio_spec list" where
  "eio_table =
     [(eio_access, \<lambda>st. C_access (ptr_at 0 st) (arg_int 0 st), nonzero, False),
      (eio_chmod, \<lambda>st. C_chmod (ptr_at 0 st) (arg_u32 0 st), nonzero, False),
      (eio_chown, \<lambda>st. C_chown (ptr_at 0 st) (arg_u32 0 st) (arg_u32 1 st), nonzero, False),
      (eio_close, \<lambda>st. C_close (arg_int 0 st), nonzero, False),
      (eio_fchmod, \<lambda>st. C_fchmod (arg_int 0 st) (arg_u32 1 st), nonzero, False),
      (eio_fchown, \<lambda>st. C_fchown (arg_int 0 st) (arg_u32 1 st) (arg_u32 2 st), nonzero, False),
      (eio_fdatasync, \<lambda>st. C_fdatasync (arg_int 0 st), nonzero, False),
      (eio_fstat, \<lambda>st. C_fstat (arg_int 0 st) (ptr_at 0 st), nonzero, False),
      (eio_fsync, \<lambda>st. C_fsync (arg_int 0 st), nonzero, False),
      (eio_ftruncate, \<lambda>st. C_ftruncate (arg_int 0 st) (arg_off 1 st), nonzero, False),
      (eio_futimes, \<lambda>st. C_futimes (arg_int 0 st) (ptr_at 0 st), nonzero, False),
      (eio_lchown, \<lambda>st. C_lchown (ptr_at 0 st) (arg_u32 0 st) (arg_u32 1 st), nonzero, False),
      (eio_lutimes, \<lambda>st. C_lutimes (ptr_at 0 st) (ptr_at 1 st), nonzero, False),
      (eio_link, \<lambda>st. C_link (ptr_at 0 st) (ptr_at 1 st), nonzero, False),
      (eio_lstat, \<lambda>st. C_lstat (ptr_at 0 st) (ptr_at 1 st), nonzero, False),
      (eio_mkdir, \<lambda>st. C_mkdir (ptr_at 0 st) (arg_u32 0 st), nonzero, False),
      (eio_mkdtemp, \<lambda>st. C_mkdtemp (ptr_at 0 st), null, False),
      (eio_open, \<lambda>st. C_open (ptr_at 0 st) (arg_int 0 st) (arg_u32 1 st), negative, True),
      (eio_read, \<lambda>st. C_read (arg_int 0 st) (ptr_at 0 st) (arg_size 1 st), negative, True),
      (eio_readlink, \<lambda>st. C_readlink (ptr_at 0 st) (ptr_at 1 st) (arg_size 0 st), negative, True),
      (eio_realpath, \<lambda>st. C_realpath (ptr_at 0 st) (ptr_at 1 st), null, False),
      (eio_rename, \<lambda>st. C_rename (ptr_at 0 st) (ptr_at 1 st), nonzero, False),
      (eio_rmdir, \<lambda>st. C_rmdir (ptr_at 0 st), nonzero, False),
      (eio_stat, \<lambda>st. C_stat (ptr_at 0 st) (ptr_at 1 st), nonzero, False),
      (eio_symlink, \<lambda>st. C_symlink (ptr_at 0 st) (ptr_at 1 st), nonzero, False),
      (eio_truncate, \<lambda>st. C_truncate (ptr_at 0 st) (arg_off 0 st), nonzero, False),
      (eio_unlink, \<lambda>st. C_unlink (ptr_at 0 st), nonzero, False),
      (eio_utimes, \<lambda>st. C_utimes (ptr_at 0 st) (ptr_at 1 st), nonzero, False),
      (eio_write, \<lambda>st. C_write (arg_int 0 st) (ptr_at 0 st) (arg_size 1 st), negative, True)]"

text \<open>The table agrees with the code but for the mode of \<open>open\<close>.\<close>

lemma eio_table_made:
  assumes "(op, call, failed, stores) \<in> set eio_table"
  shows "(op, call, failed) \<in> set eio_made \<or>
    op = eio_open \<and> call = (\<lambda>st. C_open (ptr_at 0 st) (arg_int 0 st) (arg_u32 1 st)) \<and> failed = negative \<or>
    op = eio_realpath \<and> call = (\<lambda>st. C_realpath (ptr_at 0 st) (ptr_at 1 st)) \<and> failed = null"
  using assms unfolding eio_table_def eio_made_def list.set insert_iff empty_iff simp_thms
  by (elim disjE Pair_inject; simp)

lemma eio_open_made: "(eio_open, \<lambda>st. C_open (ptr_at 0 st) (arg_int 0 st) (arg_u32 0 st), negative) \<in> set eio_made"
  by (simp add: eio_made_def)

lemma eio_table_does:
  assumes "(op, call, failed, stores) \<in> set eio_table" "eio_wf st" "r_errbuf (e_req st) = None" "os (call st) = (r, e)"
    and "op = eio_open \<Longrightarrow> arg_u32 1 st = arg_u32 0 st" "op = eio_realpath \<Longrightarrow> ptr_at 1 st \<noteq> None"
  shows "does st (failed r) e (op os st)"
  using eio_table_made [OF assms(1)]
proof (elim disjE conjE)
  assume "(op, call, failed) \<in> set eio_made"
  then show ?thesis using assms(2-4) by (rule eio_does)
next
  assume o: "op = eio_open" "call = (\<lambda>st. C_open (ptr_at 0 st) (arg_int 0 st) (arg_u32 1 st))" "failed = negative"
  then have "os (C_open (ptr_at 0 st) (arg_int 0 st) (arg_u32 0 st)) = (r, e)" using assms(4,5) by simp
  from eio_does [where os = os and st = st and call = "\<lambda>st. C_open (ptr_at 0 st) (arg_int 0 st) (arg_u32 0 st)",
      OF eio_open_made assms(2,3) this] o show ?thesis by simp
next
  assume o: "op = eio_realpath" "call = (\<lambda>st. C_realpath (ptr_at 0 st) (ptr_at 1 st))" "failed = null"
  with assms eio_realpath_does show ?thesis by simp
qed

lemma eio_table_runs:
  assumes "(op, call, failed, stores) \<in> set eio_table" "eio_wf st" "r_errbuf (e_req st) = None"
    and "op = eio_realpath \<Longrightarrow> ptr_at 1 st \<noteq> None"
  shows "runs st (op os st)"
  using eio_table_made [OF assms(1)]
proof (elim disjE conjE)
  assume "(op, call, failed) \<in> set eio_made"
  from eio_does [OF this assms(2,3), of os "fst (os (call st))" "snd (os (call st))"] show ?thesis by (auto simp: does_def runs_def)
next
  let ?c = "\<lambda>st. C_open (ptr_at 0 st) (arg_int 0 st) (arg_u32 0 st)"
  assume "op = eio_open"
  with eio_does [where os = os and st = st and call = ?c and r = "fst (os (?c st))" and e = "snd (os (?c st))",
      OF eio_open_made assms(2,3)] show ?thesis by (auto simp: does_def runs_def)
next
  let ?c = "C_realpath (ptr_at 0 st) (ptr_at 1 st)"
  assume "op = eio_realpath"
  with eio_realpath_does [OF assms(2,3), of os "fst (os ?c)" "snd (os ?c)"] assms(4) show ?thesis by (auto simp: does_def runs_def)
qed

text \<open>The result of the request.\<close>

lemma ret_simps [simp]:
  "r_ret (e_req (set_ptr i p st)) = r_ret (e_req st)" "r_ret (e_req (set_ret r st)) = r"
  "r_ret (e_req (EIO_REQ_SETERR e st)) = r_ret (e_req st)" "r_ret (e_req (check b e st)) = r_ret (e_req st)"
  by (simp_all add: set_ptr_def set_ret_def EIO_REQ_SETERR_def check_def)

definition rets :: "int \<Rightarrow> eio option \<Rightarrow> bool" where
  "rets q res \<longleftrightarrow> (\<forall>s. res = Some s \<longrightarrow> r_ret (e_req s) = q)"

lemma rets_Some: "r_ret (e_req s) = q \<Longrightarrow> rets q (Some s)"
  by (simp add: rets_def)

lemma rets_free_null: "r_ret (e_req s) = q \<Longrightarrow> rets q (free_null i s)"
  by (auto simp: rets_def free_null_def dest: free_ptr_req split: Option.bind_splits)

lemma rets_bind: "rets q x \<Longrightarrow> (\<And>s. r_ret (e_req s) = q \<Longrightarrow> rets q (f s)) \<Longrightarrow> rets q (x \<bind> f)"
  by (auto simp: rets_def split: Option.bind_splits)

lemma rets_free_both: "r_ret (e_req s) = q \<Longrightarrow> rets q (free_both s)"
  unfolding free_both_null by (intro rets_bind rets_free_null)

lemma rets_free_ptr: "r_ret (e_req s) = q \<Longrightarrow> rets q (free_ptr p s)"
  by (auto simp: rets_def dest: free_ptr_req)

lemma rets_if: "(b \<Longrightarrow> rets q x) \<Longrightarrow> (\<not> b \<Longrightarrow> rets q y) \<Longrightarrow> rets q (if b then x else y)"
  by simp

lemmas rets_rules = rets_bind rets_free_null rets_free_both rets_free_ptr rets_if rets_Some

lemma eio_table_rets:
  assumes "(op, call, failed, stores) \<in> set eio_table" "os (call st) = (r, e)"
    and "op = eio_open \<Longrightarrow> arg_u32 1 st = arg_u32 0 st"
  shows "rets (if stores then r else r_ret (e_req st)) (op os st)"
  using assms unfolding eio_table_def list.set insert_iff empty_iff simp_thms
  by (elim disjE Pair_inject; hypsubst; simp only: eio_defs Let_def split_conv if_True if_False simp_thms;
      intro rets_rules; simp add: new_block_def)

section \<open>Vectors of buffers\<close>

text \<open>A request for \<open>readv\<close> or \<open>writev\<close>: the first pointer is an array whose bases \<open>bs\<close> are blocks of their
  own, and the second argument is their number.\<close>

definition vector_req :: "eio \<Rightarrow> addr list \<Rightarrow> bool" where
  "vector_req st bs \<longleftrightarrow> eio_wf st \<and> r_errbuf (e_req st) = None \<and>
     (\<exists>a. ptr_at 0 st = Some a \<and> e_mem st a = Some (Iov (map Some bs))) \<and>
     distinct bs \<and> set bs \<inter> set (own st) = {} \<and> (\<forall>b \<in> set bs. e_mem st b = Some Bytes) \<and>
     arg_int 1 st = int (length bs)"

lemma opt_list_Some [simp]: "concat (map opt_list (map Some bs)) = bs"
  by (induction bs) auto

lemma concat_map_opt [simp]: "concat (map (opt_list \<circ> Some) bs) = bs"
  by (induction bs) auto

lemma own_mem [simp]: "own (s\<lparr>e_mem := m\<rparr>) = own s"
  by (simp add: own_def)

lemma free_bases_vector:
  assumes v: "vector_req st bs" and s: "s = EIO_REQ_SETERR e (set_ret r st)"
  shows "free_bases s = Some (s\<lparr>e_mem := e_mem s |` (- set bs)\<rparr>)"
proof -
  obtain a where a: "ptr_at 0 st = Some a" "e_mem st a = Some (Iov (map Some bs))"
    using v by (auto simp: vector_req_def)
  have fresh: "e_mem st (e_next st) = None" using v by (simp add: vector_req_def eio_wf_def)
  have ne: "a \<noteq> e_next st" "\<And>b. b \<in> set bs \<Longrightarrow> b \<noteq> e_next st"
    using a(2) fresh v by (auto simp: vector_req_def)
  have "e_mem s a = Some (Iov (map Some bs))" "ptr_at 0 s = Some a" "arg_int 1 s = int (length bs)"
    using a ne v by (auto simp: s vector_req_def arg_int_def)
  moreover have "free_list (map Some bs) (length bs) s = Some (s\<lparr>e_mem := e_mem s |` (- set bs)\<rparr>)"
    using free_list_all [of "map Some bs" s] v ne by (auto simp: vector_req_def s)
  ultimately show ?thesis by (cases "bs = []") (simp_all add: free_bases_def)
qed

definition vector_end :: "int \<Rightarrow> int \<Rightarrow> eio \<Rightarrow> eio option" where
  "vector_end r e st =
     (if r < 0 then do { st1 \<leftarrow> free_bases (EIO_REQ_SETERR e (set_ret r st)); free_null 0 st1 }
      else Some (set_ret r st))"

lemma eio_vector_end:
  "eio_readv os st = (let c = os (C_readv (arg_int 0 st) (ptr_at 0 st) (arg_int 1 st)) in vector_end (fst c) (snd c) st)"
  "eio_writev os st = (let c = os (C_writev (arg_int 0 st) (ptr_at 0 st) (arg_int 1 st)) in vector_end (fst c) (snd c) st)"
  by (simp_all add: eio_readv_def eio_writev_def vector_end_def Let_def case_prod_unfold)

lemma vector_end_frees:
  assumes v: "vector_req st bs"
  shows "\<exists>st' st''. vector_end r e st = Some st' \<and> EIO_REQ_FREE st' = Some st'' \<and>
    e_mem st'' = (if r < 0 then others st |` (- set bs) else others st)"
proof (cases "r < 0")
  case False
  have "eio_wf st" using v by (simp add: vector_req_def)
  from keeps_set_ret [OF keeps_refl [OF this], of r] have "eio_wf (set_ret r st)" "others (set_ret r st) = others st"
    by (auto simp: keeps_def)
  with False EIO_REQ_FREE_owned show ?thesis by (metis vector_end_def)
next
  case True
  define s where "s = EIO_REQ_SETERR e (set_ret r st)"
  define s1 where "s1 = s\<lparr>e_mem := e_mem s |` (- set bs)\<rparr>"
  have "eio_wf st" "r_errbuf (e_req st) = None" using v by (auto simp: vector_req_def)
  then have "keeps st s" unfolding s_def by (intro keeps_seterr keeps_set_ret keeps_refl) simp_all
  then have ws: "eio_wf s" "others s = others st" by (auto simp: keeps_def)
  have fresh: "e_mem st (e_next st) = None" using v by (simp add: vector_req_def eio_wf_def)
  have "set (own s) = insert (e_next st) (set (own st))"
    using v by (auto simp: s_def own_def vector_req_def)
  moreover have "e_next st \<notin> set bs" using v fresh by (auto simp: vector_req_def)
  ultimately have dis: "set bs \<inter> set (own s) = {}" using v by (auto simp: vector_req_def)
  have own1: "own s1 = own s" by (simp add: s1_def)
  have "eio_wf s1" using ws(1) dis by (auto simp: eio_wf_def own1) (auto simp: s1_def restrict_map_def split: if_splits)
  moreover have "others s1 = others st |` (- set bs)"
    unfolding ws(2) [symmetric] by (auto simp: others_def s1_def restrict_map_def fun_eq_iff)
  moreover have "free_bases s = Some s1" unfolding s1_def using free_bases_vector [OF v s_def] .
  moreover from calculation(1) have "runs s1 (free_null 0 s1)" by (intro keeps_free_null keeps_refl) simp_all
  ultimately obtain st' where "vector_end r e st = Some st'" "eio_wf st'" "others st' = others st |` (- set bs)"
    using True by (auto simp: vector_end_def s_def runs_def keeps_def)
  with True EIO_REQ_FREE_owned show ?thesis by metis
qed

text \<open>\<open>readv\<close> and \<open>writev\<close>: after a failed call the buffers of the vector are freed with the request; after
  a successful one they are not, so they leak unless the completion code frees them.\<close>

lemma eio_vectors:
  assumes "vector_req st bs"
  shows "(\<exists>st' st''. eio_readv os st = Some st' \<and> EIO_REQ_FREE st' = Some st'' \<and>
      e_mem st'' = (if fst (os (C_readv (arg_int 0 st) (ptr_at 0 st) (arg_int 1 st))) < 0
        then others st |` (- set bs) else others st)) \<and>
    (\<exists>st' st''. eio_writev os st = Some st' \<and> EIO_REQ_FREE st' = Some st'' \<and>
      e_mem st'' = (if fst (os (C_writev (arg_int 0 st) (ptr_at 0 st) (arg_int 1 st))) < 0
        then others st |` (- set bs) else others st))"
  unfolding eio_vector_end Let_def by (intro conjI vector_end_frees [OF assms])

text \<open>\<open>opendir\<close> leaves the directory stream in a pointer of the request, and \<open>EIO_REQ_FREE\<close> passes it to
  \<open>free\<close>: disposing of the request of a successful \<open>opendir\<close> is undefined behaviour.\<close>

lemma eio_opendir_dispose:
  assumes "eio_wf st" "os (C_opendir (ptr_at 0 st)) = (r, e)" "r \<noteq> 0"
  shows "\<exists>st'. eio_opendir os st = Some st' \<and> EIO_REQ_FREE st' = None"
proof -
  let ?s = "new_block Dir st"
  have s: "ptr_at 0 ?s = ptr_at 0 st" "e_mem ?s = (e_mem st)(e_next st \<mapsto> Dir)" by (simp_all add: new_block_def ptr_at_def)
  have "\<exists>s2. free_ptr (ptr_at 0 st) ?s = Some s2 \<and> e_mem s2 (e_next st) = Some Dir"
  proof (cases "ptr_at 0 st")
    case (Some a)
    then have a: "a \<in> set (own st)" by (simp add: own_def)
    with own_fresh [OF assms(1)] assms(1) show ?thesis
      by (fastforce simp: Some free_ptr_def s eio_wf_def split: option.split block.split)
  qed (simp add: free_ptr_def s)
  then obtain s2 where s2: "free_ptr (ptr_at 0 st) ?s = Some s2" "e_mem s2 (e_next st) = Some Dir" by blast
  have "eio_opendir os st = Some (set_ptr 0 (Some (e_next st)) s2)"
    using assms(2,3) s2(1) by (simp add: eio_opendir_def s)
  moreover have "EIO_REQ_FREE (set_ptr 0 (Some (e_next st)) s2) = None"
    using s2(2) by (simp add: EIO_REQ_FREE_def free_ptr_def)
  ultimately show ?thesis by blast
qed

lemma eio_opendir_failed:
  assumes "eio_wf st" "r_errbuf (e_req st) = None" "os (C_opendir (ptr_at 0 st)) = (0, e)"
  shows "runs st (eio_opendir os st)"
proof -
  have "eio_opendir os st = free_null 0 (EIO_REQ_SETERR e st)"
    using assms(3) by (simp add: eio_opendir_def free_null_def)
  with assms keeps_free_null [OF keeps_seterr [OF keeps_refl]] show ?thesis by simp
qed

text \<open>A realpath without a buffer leaks the result that the system allocated.\<close>

lemma eio_realpath_leaks:
  assumes "eio_wf st" "r_errbuf (e_req st) = None" "os (C_realpath (ptr_at 0 st) None) = (r, e)" "r \<noteq> 0" "ptr_at 1 st = None"
  shows "\<exists>st' st''. eio_realpath os st = Some st' \<and> EIO_REQ_FREE st' = Some st'' \<and>
    e_mem st'' = (others st)(e_next st \<mapsto> Bytes)"
proof -
  let ?s = "new_block Bytes st"
  have o: "own ?s = own st" by (simp add: own_def new_block_def ptr_at_def)
  have fresh: "e_next st \<notin> set (own st)" using own_fresh [OF assms(1), of "e_next st"] by auto
  have wf: "eio_wf ?s" using assms(1) fresh by (auto simp: eio_wf_def o) (auto simp: new_block_def split: if_splits)
  have oth: "others ?s = (others st)(e_next st \<mapsto> Bytes)"
    using fresh by (auto simp: others_def o restrict_map_def fun_eq_iff) (auto simp: new_block_def)
  have "eio_realpath os st = free_null 0 ?s" using assms(3-5) by (simp add: eio_realpath_def)
  moreover have "runs ?s (free_null 0 ?s)" by (rule keeps_free_null [OF keeps_refl [OF wf]]) simp
  ultimately obtain st' where "eio_realpath os st = Some st'" "eio_wf st'" "others st' = others ?s" by (auto simp: runs_def keeps_def)
  with EIO_REQ_FREE_owned [of st'] oth show ?thesis by metis
qed

section \<open>Properties\<close>

text \<open>What disposing of the request leaves after an operation: \<open>m\<close>, or undefined behaviour.\<close>

definition leaves :: "(addr \<Rightarrow> block option) \<Rightarrow> eio option \<Rightarrow> bool" where
  "leaves m res \<longleftrightarrow> (\<exists>st' st''. res = Some st' \<and> EIO_REQ_FREE st' = Some st'' \<and> e_mem st'' = m)"

lemma runs_leaves: "runs st res \<Longrightarrow> leaves (others st) res"
  using EIO_REQ_FREE_owned unfolding runs_def keeps_def leaves_def by metis

text \<open>C20. Memory of the 32 operations, whatever the system calls return. The 29 of the table (\<open>realpath\<close> with a buffer for
  its result) run without undefined behaviour, and disposing of the request afterwards frees exactly the blocks
  it owned and its error text, each once: no double free and no leak. So do \<open>readv\<close> and \<open>writev\<close> after a failed call, which
  frees the buffers of the vector too; after a successful one those buffers stay allocated. A failed
  \<open>opendir\<close> is like the others; after a successful one, disposing of the request is undefined behaviour.\<close>

theorem eio_lifecycle:
  assumes "eio_wf st" "r_errbuf (e_req st) = None"
  shows "(\<forall>(op, call, failed, stores) \<in> set eio_table. (op = eio_realpath \<longrightarrow> ptr_at 1 st \<noteq> None) \<longrightarrow> leaves (others st) (op os st)) \<and>
    (\<forall>bs. vector_req st bs \<longrightarrow>
      leaves (if fst (os (C_readv (arg_int 0 st) (ptr_at 0 st) (arg_int 1 st))) < 0 then others st |` (- set bs) else others st)
        (eio_readv os st) \<and>
      leaves (if fst (os (C_writev (arg_int 0 st) (ptr_at 0 st) (arg_int 1 st))) < 0 then others st |` (- set bs) else others st)
        (eio_writev os st)) \<and>
    (if fst (os (C_opendir (ptr_at 0 st))) = 0 then leaves (others st) (eio_opendir os st)
     else \<exists>st'. eio_opendir os st = Some st' \<and> EIO_REQ_FREE st' = None)"
proof (intro conjI ballI allI impI)
  fix x assume x: "x \<in> set eio_table"
  obtain op call failed stores where "x = (op, call, failed, stores)" by (cases x)
  with x eio_table_runs [OF _ assms, of op call failed stores os]
  show "case x of (op, call, failed, stores) \<Rightarrow> (op = eio_realpath \<longrightarrow> ptr_at 1 st \<noteq> None) \<longrightarrow> leaves (others st) (op os st)"
    by (auto intro: runs_leaves)
next
  fix bs assume "vector_req st bs"
  from eio_vectors [OF this, of os]
  show "leaves (if fst (os (C_readv (arg_int 0 st) (ptr_at 0 st) (arg_int 1 st))) < 0 then others st |` (- set bs) else others st) (eio_readv os st)"
    "leaves (if fst (os (C_writev (arg_int 0 st) (ptr_at 0 st) (arg_int 1 st))) < 0 then others st |` (- set bs) else others st) (eio_writev os st)"
    by (simp_all only: leaves_def)
next
  obtain r e where c: "os (C_opendir (ptr_at 0 st)) = (r, e)" by (cases "os (C_opendir (ptr_at 0 st))")
  show "if fst (os (C_opendir (ptr_at 0 st))) = 0 then leaves (others st) (eio_opendir os st)
     else \<exists>st'. eio_opendir os st = Some st' \<and> EIO_REQ_FREE st' = None"
    using eio_opendir_dispose [where os = os, OF assms(1) c] eio_opendir_failed [where os = os, OF assms] c
    by (auto intro: runs_leaves)
qed

definition rename_req :: eio where
  "rename_req = \<lparr>e_mem = [1 \<mapsto> Bytes, 2 \<mapsto> Bytes, 3 \<mapsto> Bytes, 4 \<mapsto> Bytes], e_next = 5, e_self = 3,
     e_req = \<lparr>r_args = [0, 0, 0], r_ret = 0, r_ptr = (\<lambda>i. None)(0 := Some 1, 1 := Some 2), r_errnum = 0, r_errbuf = None\<rparr>\<rparr>"

lemma rename_req_wf: "eio_wf rename_req" "r_errbuf (e_req rename_req) = None" "own rename_req = [1, 2, 3]"
  by (auto simp: eio_wf_def own_def ptr_at_def rename_req_def)

definition readv_req :: eio where
  "readv_req = \<lparr>e_mem = [1 \<mapsto> Iov [Some 2, Some 3], 2 \<mapsto> Bytes, 3 \<mapsto> Bytes, 4 \<mapsto> Bytes], e_next = 5, e_self = 4,
     e_req = \<lparr>r_args = [7, 2, 0], r_ret = 0, r_ptr = (\<lambda>i. None)(0 := Some 1), r_errnum = 0, r_errbuf = None\<rparr>\<rparr>"

lemma readv_req_vector: "vector_req readv_req [2, 3]" "own readv_req = [1, 4]"
  by (auto simp: vector_req_def eio_wf_def own_def ptr_at_def readv_req_def arg_int_def int_max_def)

lemma eio_lifecycle_witness:
  "leaves [4 \<mapsto> Bytes] (eio_rename (\<lambda>_. (-1, 2)) rename_req) \<and> leaves Map.empty (eio_readv (\<lambda>_. (-1, 5)) readv_req) \<and>
   (\<exists>st'. eio_opendir (\<lambda>_. (1, 0)) rename_req = Some st' \<and> EIO_REQ_FREE st' = None)"
proof -
  have "(eio_rename, \<lambda>st. C_rename (ptr_at 0 st) (ptr_at 1 st), nonzero, False) \<in> set eio_table" by (simp add: eio_table_def)
  moreover have "others rename_req = [4 \<mapsto> Bytes]"
    unfolding others_def rename_req_wf(3) by (auto simp: rename_req_def restrict_map_def fun_eq_iff)
  moreover have "ptr_at 1 rename_req \<noteq> None" by (simp add: rename_req_def ptr_at_def)
  ultimately have "leaves [4 \<mapsto> Bytes] (eio_rename (\<lambda>_. (-1, 2)) rename_req)"
    using eio_lifecycle [OF rename_req_wf(1,2), of "\<lambda>_. (-1, 2)"] by fastforce
  moreover have "others readv_req |` (- set [2, 3]) = Map.empty"
    unfolding others_def readv_req_vector(2) by (auto simp: readv_req_def restrict_map_def fun_eq_iff)
  moreover have "eio_wf readv_req" "r_errbuf (e_req readv_req) = None" using readv_req_vector(1) by (auto simp: vector_req_def)
  ultimately show ?thesis
    using eio_lifecycle [of readv_req "\<lambda>_. (-1, 5)"] eio_lifecycle [OF rename_req_wf(1,2), of "\<lambda>_. (1, 0)"] readv_req_vector(1) by auto
qed

text \<open>C21. Each of the 29 operations of the table makes the system call of the table for the arguments of its request, and
  reports it: the error number becomes \<open>errno\<close> and an error text is allocated exactly when the call
  failed, and the result of the request is the value of the call for \<open>open\<close>, \<open>read\<close>, \<open>readlink\<close> and \<open>write\<close> and stays as
  it was for the others. The exception is \<open>open\<close>, which passes its first argument, the flags, as the mode: the call is
  the one of the table only when both arguments agree in their low 32 bits.\<close>

theorem eio_errors:
  assumes "(op, call, failed, stores) \<in> set eio_table" "eio_wf st" "r_errbuf (e_req st) = None" "os (call st) = (r, e)"
    and "op = eio_open \<Longrightarrow> arg_u32 1 st = arg_u32 0 st" "op = eio_realpath \<Longrightarrow> ptr_at 1 st \<noteq> None"
  shows "\<exists>st'. op os st = Some st' \<and> r_errnum (e_req st') = (if failed r then e else r_errnum (e_req st)) \<and>
    (r_errbuf (e_req st') \<noteq> None \<longleftrightarrow> failed r) \<and> r_ret (e_req st') = (if stores then r else r_ret (e_req st))"
proof -
  have "does st (failed r) e (op os st)" by (rule eio_table_does [where os = os, OF assms(1-4)]) (use assms(5,6) in auto)
  moreover have "rets (if stores then r else r_ret (e_req st)) (op os st)"
    by (rule eio_table_rets [where os = os, OF assms(1,4)]) (use assms(5) in auto)
  ultimately show ?thesis by (auto simp: does_def sets_err_def rets_def)
qed

lemma eio_errors_witness: "\<exists>st'. eio_rename (\<lambda>_. (-1, 2)) rename_req = Some st' \<and> r_errnum (e_req st') = 2"
proof -
  have "(eio_rename, \<lambda>st. C_rename (ptr_at 0 st) (ptr_at 1 st), nonzero, False) \<in> set eio_table" by (simp add: eio_table_def)
  from eio_errors [OF this rename_req_wf(1,2), of "\<lambda>_. (-1, 2)"] show ?thesis
    by (auto simp: nonzero_def rename_req_def ptr_at_def arg_u32_def)
qed

text \<open>\<open>open\<close> with a mode other than its flags makes another call than the one asked for.\<close>

lemma eio_open_mode:
  assumes "arg_u32 1 st \<noteq> arg_u32 0 st"
  shows "\<exists>os. os (C_open (ptr_at 0 st) (arg_int 0 st) (arg_u32 1 st)) = (3, 0) \<and>
    (\<forall>st'. eio_open os st = Some st' \<longrightarrow> r_ret (e_req st') = -1)"
proof -
  let ?os = "\<lambda>c. if c = C_open (ptr_at 0 st) (arg_int 0 st) (arg_u32 1 st) then (3, 0) else (-1, 0)"
  have "r_ret (e_req st') = -1" if "eio_open ?os st = Some st'" for st'
    using that assms rets_free_null [of "check True 0 (set_ret (-1) st)" "-1" 0] by (simp add: eio_open_def rets_def)
  then show ?thesis by (intro exI [of _ ?os]) auto
qed

end
