(* ===== verification/Pico.thy ===== *)
theory Pico
  imports Prelude
begin

text \<open>
  \<open>server/pico/picohttpparser.c\<close>: the incremental parsers of requests, responses and header fields.

  The pointer \<open>buf\<close> is the list of the bytes from it up to \<open>buf_end\<close>: \<open>*buf\<close> is the first of them, \<open>++buf\<close>
  drops it, \<open>buf == buf_end\<close> is the empty list and \<open>buf_end - buf\<close> its length. Reading at \<open>buf_end\<close> is
  undefined; where the code has just found that \<open>buf\<close> is not at its end, the first byte is \<open>hd\<close>. A token, in C a pointer and a length, is the bytes it denotes. What the parsers leave in
  their output parameters when they fail is not modelled.

  \<open>sse\<close> says whether the code is compiled with the SSE4.2 instructions.
\<close>

section \<open>Outcomes\<close>

text \<open>Undefined behaviour; an early return of the code given (-1 failed, -2 incomplete); or to go on.\<close>

datatype 'a phr = Undefined | Ret int | Go 'a

primrec seq :: "'a phr \<Rightarrow> ('a \<Rightarrow> 'b phr) \<Rightarrow> 'b phr" where
  "seq Undefined f = Undefined"
| "seq (Ret r) f = Ret r"
| "seq (Go x) f = f x"

section \<open>Macros\<close>

abbreviation DEL :: char where "DEL \<equiv> CHR 0x7F"

definition IS_PRINTABLE_ASCII :: "char \<Rightarrow> bool" where
  "IS_PRINTABLE_ASCII c \<longleftrightarrow> (uchar c + 2 ^ 32 - 32) mod 2 ^ 32 < 95"

definition CHECK_EOF :: "string \<Rightarrow> unit phr" where
  "CHECK_EOF buf = (if buf = [] then Ret (-2) else Go ())"

definition EXPECT_CHAR_NO_CHECK :: "char \<Rightarrow> string \<Rightarrow> string phr" where
  "EXPECT_CHAR_NO_CHECK ch buf = (case buf of [] \<Rightarrow> Undefined | c # r \<Rightarrow> if c \<noteq> ch then Ret (-1) else Go r)"

definition EXPECT_CHAR :: "char \<Rightarrow> string \<Rightarrow> string phr" where
  "EXPECT_CHAR ch buf = seq (CHECK_EOF buf) (\<lambda>_. EXPECT_CHAR_NO_CHECK ch buf)"

text \<open>The bytes from \<open>start\<close> up to the pointer \<open>buf\<close>, which is further on in the same buffer.\<close>

definition token :: "string \<Rightarrow> string \<Rightarrow> string" where
  "token start buf = take (length start - length buf) start"

section \<open>findchar_fast\<close>

text \<open>\<open>_mm_loadu_si128\<close> reads 16 bytes; \<open>_mm_cmpestri\<close> with byte ranges gives the index of the first byte
  that is in one of the ranges, 16 if there is none.\<close>

definition loadu :: "string \<Rightarrow> string phr" where
  "loadu buf = (if length buf < 16 then Undefined else Go (take 16 buf))"

fun in_ranges :: "string \<Rightarrow> char \<Rightarrow> bool" where
  "in_ranges (a # b # rs) c = (uchar a \<le> uchar c \<and> uchar c \<le> uchar b \<or> in_ranges rs c)"
| "in_ranges _ c = False"

definition cmpestri :: "string \<Rightarrow> string \<Rightarrow> nat" where
  "cmpestri ranges b16 = length (takeWhile (\<lambda>c. \<not> in_ranges ranges c) b16)"

function find_blocks :: "string \<Rightarrow> string \<Rightarrow> nat \<Rightarrow> (string \<times> bool) phr" where
  "find_blocks ranges buf left =
     seq (loadu buf) (\<lambda>b16.
       let r = cmpestri ranges b16 in
       if r \<noteq> 16 then Go (drop r buf, True)
       else if left - 16 \<noteq> 0 then find_blocks ranges (drop 16 buf) (left - 16)
       else Go (drop 16 buf, False))"
  by pat_completeness auto
termination by (relation "measure (\<lambda>(ranges, buf, left). left)") auto

declare find_blocks.simps [simp del]

definition findchar_fast :: "bool \<Rightarrow> string \<Rightarrow> string \<Rightarrow> (string \<times> bool) phr" where
  "findchar_fast sse buf ranges =
     (if sse \<and> length buf \<ge> 16 then find_blocks ranges buf (length buf - length buf mod 16)
      else Go (buf, False))"

section \<open>Tokens\<close>

definition ranges1 :: string where
  "ranges1 = [CHR 0x00, CHR 0x08, CHR 0x0A, CHR 0x1F, DEL, DEL]"

definition ranges2 :: string where
  "ranges2 = [CHR 0x00, SP, DEL, DEL]"

text \<open>The string \<open>ranges\<close> of \<open>parse_token\<close>.\<close>

definition ranges8 :: string where
  "ranges8 = [CHR 0x00, SP, CHR 0x22, CHR 0x22, CHR ''('', CHR '')'', CHR '','', CHR '','', CHR ''/'', CHR ''/'',
     CHR '':'', CHR ''@'', CHR ''['', CHR '']'', CHR ''{'', CHR 0xFF]"

definition ctl :: "char \<Rightarrow> bool" where
  "ctl c \<longleftrightarrow> uchar c < 32 \<and> c \<noteq> TAB \<or> c = DEL"

fun advance_loop :: "string \<Rightarrow> string phr" where
  "advance_loop [] = Undefined"
| "advance_loop (c # r) =
     (if c = SP then Go (c # r)
      else if \<not> IS_PRINTABLE_ASCII c \<and> (uchar c < 32 \<or> c = DEL) then Ret (-1)
      else seq (CHECK_EOF r) (\<lambda>_. advance_loop r))"

definition ADVANCE_TOKEN :: "bool \<Rightarrow> string \<Rightarrow> (string \<times> string) phr" where
  "ADVANCE_TOKEN sse tok_start =
     seq (findchar_fast sse tok_start ranges2) (\<lambda>(buf, found2).
     seq (if \<not> found2 then CHECK_EOF buf else Go ()) (\<lambda>_.
     seq (advance_loop buf) (\<lambda>buf.
     Go (token tok_start buf, buf))))"

text \<open>The table, as it is written in the source.\<close>

definition phr_token_char_map :: "nat list" where
  "phr_token_char_map =
     replicate 32 0 @
     [0,1,0,1,1,1,1,1, 0,0,1,1,0,1,1,0, 1,1,1,1,1,1,1,1, 1,1,0,0,0,0,0,0] @
     [0,1,1,1,1,1,1,1, 1,1,1,1,1,1,1,1, 1,1,1,1,1,1,1,1, 1,1,1,0,0,0,1,1] @
     [1,1,1,1,1,1,1,1, 1,1,1,1,1,1,1,1, 1,1,1,1,1,1,1,1, 1,1,1,0,1,0,1,0] @
     replicate 128 0"

text \<open>\<open>DOIT\<close>, \<open>n\<close> times; the flag says that it jumped to \<open>NonPrintable\<close>.\<close>

fun DOIT :: "nat \<Rightarrow> string \<Rightarrow> (string \<times> bool) phr" where
  "DOIT n [] = (if n = 0 then Go ([], False) else Undefined)"
| "DOIT n (c # r) =
     (if n = 0 then Go (c # r, False) else if IS_PRINTABLE_ASCII c then DOIT (n - 1) r else Go (c # r, True))"

lemma DOIT_length: "DOIT n buf = Go (r, b) \<Longrightarrow> length r + (if b then 0 else n) \<le> length buf \<and> (b \<longrightarrow> r \<noteq> [])"
  by (induction n buf rule: DOIT.induct) (auto split: if_splits)

text \<open>The loop over eight bytes at a time; the flag says that it jumped to \<open>FOUND_CTL\<close>.\<close>

function eight_loop :: "string \<Rightarrow> (string \<times> bool) phr" where
  "eight_loop buf =
     (if length buf \<ge> 8 then
        (case DOIT 8 buf of
           Undefined \<Rightarrow> Undefined
         | Ret r \<Rightarrow> Ret r
         | Go (b, non_printable) \<Rightarrow>
             if non_printable then (if ctl (hd b) then Go (b, True) else eight_loop (tl b))
             else eight_loop b)
      else Go (buf, False))"
  by pat_completeness auto
termination
  by (relation "measure length") (auto dest!: DOIT_length simp: length_greater_0_conv [symmetric] simp del: length_greater_0_conv)

declare eight_loop.simps [simp del]

fun eol_loop :: "string \<Rightarrow> string phr" where
  "eol_loop [] = Ret (-2)"
| "eol_loop (c # r) = (if \<not> IS_PRINTABLE_ASCII c \<and> ctl c then Go (c # r) else eol_loop r)"

definition found_ctl :: "string \<Rightarrow> string \<Rightarrow> (string \<times> string) phr" where
  "found_ctl token_start buf =
     (case buf of
        [] \<Rightarrow> Undefined
      | c # r \<Rightarrow>
          if c = CR then seq (EXPECT_CHAR LF r) (\<lambda>r'. Go (take (length token_start - length r' - 2) token_start, r'))
          else if c = LF then Go (token token_start buf, r)
          else Ret (-1))"

definition get_token_to_eol :: "bool \<Rightarrow> string \<Rightarrow> (string \<times> string) phr" where
  "get_token_to_eol sse token_start =
     seq (if sse then findchar_fast sse token_start ranges1 else eight_loop token_start) (\<lambda>(buf, found).
     seq (if found then Go buf else eol_loop buf) (\<lambda>buf.
     found_ctl token_start buf))"

fun complete_loop :: "nat \<Rightarrow> string \<Rightarrow> string phr" where
  "complete_loop ret_cnt [] = Ret (-2)"
| "complete_loop ret_cnt (c # r) =
     (if c = CR then
        (case r of
           [] \<Rightarrow> Ret (-2)
         | d # r' \<Rightarrow> if d \<noteq> LF then Ret (-1) else if Suc ret_cnt = 2 then Go r' else complete_loop (Suc ret_cnt) r')
      else if c = LF then (if Suc ret_cnt = 2 then Go r else complete_loop (Suc ret_cnt) r)
      else complete_loop 0 r)"

definition is_complete :: "string \<Rightarrow> nat \<Rightarrow> string phr" where
  "is_complete buf last_len =
     (if last_len < 3 then complete_loop 0 buf
      else if last_len - 3 \<le> length buf then complete_loop 0 (drop (last_len - 3) buf)
      else Undefined)"

definition PARSE_INT :: "int \<Rightarrow> string \<Rightarrow> (int \<times> string) phr" where
  "PARSE_INT mul buf =
     (case buf of
        [] \<Rightarrow> Undefined
      | c # r \<Rightarrow> if schar c < 48 \<or> 57 < schar c then Ret (-1) else Go (mul * (schar c - 48), r))"

definition PARSE_INT_3 :: "string \<Rightarrow> (int \<times> string) phr" where
  "PARSE_INT_3 buf =
     seq (PARSE_INT 100 buf) (\<lambda>(v1, buf).
     seq (PARSE_INT 10 buf) (\<lambda>(v2, buf).
     seq (PARSE_INT 1 buf) (\<lambda>(v3, buf).
     Go (v1 + v2 + v3, buf))))"

fun token_loop :: "char \<Rightarrow> string \<Rightarrow> string phr" where
  "token_loop next_char [] = Undefined"
| "token_loop next_char (c # r) =
     (if c = next_char then Go (c # r)
      else if phr_token_char_map ! uchar c = 0 then Ret (-1)
      else seq (CHECK_EOF r) (\<lambda>_. token_loop next_char r))"

definition parse_token :: "bool \<Rightarrow> char \<Rightarrow> string \<Rightarrow> (string \<times> string) phr" where
  "parse_token sse next_char buf_start =
     seq (findchar_fast sse buf_start ranges8) (\<lambda>(buf, found).
     seq (if \<not> found then CHECK_EOF buf else Go ()) (\<lambda>_.
     seq (token_loop next_char buf) (\<lambda>buf.
     Go (token buf_start buf, buf))))"

section \<open>Version and header fields\<close>

fun expect_all :: "string \<Rightarrow> string \<Rightarrow> string phr" where
  "expect_all [] buf = Go buf"
| "expect_all (ch # chs) buf = seq (EXPECT_CHAR_NO_CHECK ch buf) (\<lambda>buf. expect_all chs buf)"

definition parse_http_version :: "string \<Rightarrow> (int \<times> string) phr" where
  "parse_http_version buf =
     (if length buf < 9 then Ret (-2)
      else seq (expect_all ''HTTP/1.'' buf) (\<lambda>buf. PARSE_INT 1 buf))"

text \<open>\<open>name\<close> is \<^term>\<open>None\<close> (NULL) for a continuation line.\<close>

record phr_header =
  phr_name :: "string option"
  phr_value :: string

text \<open>The loop over the blanks after the colon.\<close>

fun skip_ws :: "string \<Rightarrow> string phr" where
  "skip_ws [] = Ret (-2)"
| "skip_ws (c # r) = (if c = SP \<or> c = TAB then skip_ws r else Go (c # r))"

definition trim_end :: "string \<Rightarrow> string" where
  "trim_end v = rev (dropWhile (\<lambda>c. c = SP \<or> c = TAB) (rev v))"

definition field_name :: "bool \<Rightarrow> string \<Rightarrow> (string option \<times> string) phr" where
  "field_name sse buf =
     seq (parse_token sse (CHR '':'') buf) (\<lambda>(name, buf).
     if name = [] then Ret (-1)
     else seq (skip_ws (tl buf)) (\<lambda>buf. Go (Some name, buf)))"

text \<open>What one turn of the loop of \<open>parse_headers\<close> does with a field: its first line or a continuation.\<close>

definition parse_field :: "bool \<Rightarrow> nat \<Rightarrow> string \<Rightarrow> (phr_header \<times> string) phr" where
  "parse_field sse num_headers buf =
     seq (if \<not> (num_headers \<noteq> 0 \<and> (hd buf = SP \<or> hd buf = TAB)) then field_name sse buf else Go (None, buf)) (\<lambda>(name, buf).
     seq (get_token_to_eol sse buf) (\<lambda>(val, buf).
     Go (\<lparr>phr_name = name, phr_value = trim_end val\<rparr>, buf)))"

section \<open>The fast paths\<close>

lemma seq_assoc: "seq (seq p f) g = seq p (\<lambda>x. seq (f x) g)"
  by (cases p) auto

lemma seq_Go [simp]: "seq p Go = p"
  by (cases p) auto

lemma printable_iff: "IS_PRINTABLE_ASCII c \<longleftrightarrow> 32 \<le> uchar c \<and> uchar c < 127"
proof (cases "32 \<le> uchar c")
  case True
  then obtain m where m: "uchar c = 32 + m" using le_Suc_ex by blast
  with uchar_less [of c] have "m < 224" by (simp del: uchar_less)
  with m show ?thesis by (simp add: IS_PRINTABLE_ASCII_def)
next
  case False
  then have "(uchar c + 2 ^ 32 - 32) mod 2 ^ 32 = uchar c + (2 ^ 32 - 32)" by simp
  with False show ?thesis by (simp add: IS_PRINTABLE_ASCII_def)
qed

lemma CHECK_EOF_simps [simp]: "CHECK_EOF [] = Ret (-2)" "CHECK_EOF (c # r) = Go ()" "r \<noteq> [] \<Longrightarrow> CHECK_EOF r = Go ()"
  by (simp_all add: CHECK_EOF_def)

text \<open>What a search with ranges leaves out has none of their bytes, and where it stops early there is one.\<close>

definition clean :: "string \<Rightarrow> string \<Rightarrow> bool" where
  "clean ranges u \<longleftrightarrow> (\<forall>c \<in> set u. \<not> in_ranges ranges c)"

lemma find_blocks_clean:
  "0 < k \<Longrightarrow> k * 16 \<le> length buf \<Longrightarrow>
   \<exists>u r f. find_blocks ranges buf (k * 16) = Go (r, f) \<and> buf = u @ r \<and> u @ r \<noteq> [] \<and> clean ranges u \<and> (f \<longrightarrow> r \<noteq> [] \<and> in_ranges ranges (hd r))"
proof (induction k arbitrary: buf)
  case (Suc k)
  let ?n = "cmpestri ranges (take 16 buf)"
  have l: "16 \<le> length buf" using Suc.prems by simp
  have t: "take ?n (take 16 buf) = takeWhile (\<lambda>c. \<not> in_ranges ranges c) (take 16 buf)"
    by (metis cmpestri_def takeWhile_eq_take)
  then have c: "clean ranges (take ?n (take 16 buf))"
    by (metis (mono_tags, lifting) clean_def set_takeWhileD)
  have le: "?n \<le> 16" using length_takeWhile_le [of _ "take 16 buf"] l by (auto simp: cmpestri_def intro: order.trans)
  then have tt: "take ?n (take 16 buf) = take ?n buf" by (simp add: min_def)
  show ?case
  proof (cases "?n = 16")
    case False
    then have lt: "?n < length (take 16 buf)" using le l by simp
    then have "in_ranges ranges (take 16 buf ! ?n)"
      using nth_length_takeWhile [of "\<lambda>c. \<not> in_ranges ranges c" "take 16 buf"] by (simp add: cmpestri_def)
    then have "drop ?n buf \<noteq> []" "in_ranges ranges (hd (drop ?n buf))"
      using lt l by (simp_all add: hd_drop_conv_nth)
    moreover have "find_blocks ranges buf (Suc k * 16) = Go (drop ?n buf, True)"
      using False l by (subst find_blocks.simps) (simp add: loadu_def Let_def)
    moreover have "take ?n buf @ drop ?n buf \<noteq> []" using l by auto
    ultimately show ?thesis using c tt append_take_drop_id by metis
  next
    case True
    show ?thesis
    proof (cases k)
      case 0
      have "find_blocks ranges buf (Suc k * 16) = Go (drop 16 buf, False)"
        using True 0 l by (subst find_blocks.simps) (simp add: loadu_def Let_def)
      moreover have "take 16 buf @ drop 16 buf \<noteq> []" using l by auto
      ultimately show ?thesis using c True append_take_drop_id tt by metis
    next
      case (Suc m)
      have "0 < k" "k * 16 \<le> length (drop 16 buf)" using Suc Suc.prems by simp_all
      from Suc.IH [OF this] obtain u r f where *: "find_blocks ranges (drop 16 buf) (k * 16) = Go (r, f)" "drop 16 buf = u @ r"
        "clean ranges u" "f \<longrightarrow> r \<noteq> [] \<and> in_ranges ranges (hd r)" by blast
      have "find_blocks ranges buf (Suc k * 16) = Go (r, f)"
        using True l * Suc by (subst find_blocks.simps) (simp add: loadu_def Let_def)
      moreover have "buf = (take 16 buf @ u) @ r" using *(2) by (metis append.assoc append_take_drop_id)
      moreover have "clean ranges (take 16 buf @ u)" using *(3) c True by (auto simp: clean_def)
      moreover have "(take 16 buf @ u) @ r \<noteq> []" using l by auto
      ultimately show ?thesis using *(4) by blast
    qed
  qed
qed simp

lemma findchar_fast_clean:
  "\<exists>u r f. findchar_fast sse buf ranges = Go (r, f) \<and> buf = u @ r \<and> clean ranges u \<and>
     (f \<longrightarrow> r \<noteq> [] \<and> in_ranges ranges (hd r)) \<and> (\<not> f \<and> r = [] \<longrightarrow> u \<noteq> [] \<or> buf = []) \<and> (\<not> sse \<longrightarrow> u = [] \<and> \<not> f)"
proof (cases "sse \<and> length buf \<ge> 16")
  case True
  have "0 < length buf div 16" "length buf div 16 * 16 \<le> length buf" and e: "length buf - length buf mod 16 = length buf div 16 * 16"
    using True div_greater_zero_iff by (auto simp: minus_mod_eq_div_mult)
  from find_blocks_clean [OF this(1,2), of ranges] obtain u r f where
    "find_blocks ranges buf (length buf div 16 * 16) = Go (r, f)" "buf = u @ r" "clean ranges u" "f \<longrightarrow> r \<noteq> [] \<and> in_ranges ranges (hd r)" "u @ r \<noteq> []" by blast
  moreover have "findchar_fast sse buf ranges = find_blocks ranges buf (length buf div 16 * 16)"
    using True by (simp add: findchar_fast_def e)
  ultimately show ?thesis using True by force
qed (auto simp: findchar_fast_def clean_def)

lemma in_ranges1: "in_ranges ranges1 c \<longleftrightarrow> ctl c"
  using uchar_inject [of c TAB] uchar_inject [of c DEL]
  by (auto simp: ranges1_def ctl_def uchar_def simp del: uchar_inject)

lemma in_ranges2: "in_ranges ranges2 c \<longleftrightarrow> uchar c \<le> 32 \<or> c = DEL"
  using uchar_inject [of c DEL] by (auto simp: ranges2_def uchar_def simp del: uchar_inject)

text \<open>The bytes that a token may have, as intervals.\<close>

definition tchar :: "nat \<Rightarrow> bool" where
  "tchar n \<longleftrightarrow> n = 33 \<or> 35 \<le> n \<and> n \<le> 39 \<or> n = 42 \<or> n = 43 \<or> n = 45 \<or> n = 46 \<or> 48 \<le> n \<and> n \<le> 57 \<or>
     65 \<le> n \<and> n \<le> 90 \<or> 94 \<le> n \<and> n \<le> 122 \<or> n = 124 \<or> n = 126"

lemma phr_table: "phr_token_char_map ! uchar c = (if tchar (uchar c) then 1 else 0)"
proof -
  define f where "f = (\<lambda>n. if tchar n then 1 else (0::nat))"
  have "phr_token_char_map = map (\<lambda>n. if tchar n then 1 else 0) [0..<256]" by code_simp
  then have "phr_token_char_map = map f [0..<256]" by (simp only: f_def)
  moreover have "map f [0..<256] ! uchar c = f (uchar c)"
    using uchar_less [of c] by (subst nth_map) (simp_all only: length_upt nth_upt diff_zero add_0)
  ultimately show ?thesis by (simp add: f_def)
qed

lemma not_tchar_ranges8: "\<not> tchar n \<Longrightarrow> \<not> (n \<le> 32 \<or> n = 34 \<or> n = 40 \<or> n = 41 \<or> n = 44 \<or> n = 47 \<or> 58 \<le> n \<and> n \<le> 64 \<or> 91 \<le> n \<and> n \<le> 93 \<or> 123 \<le> n) \<Longrightarrow> False"
  unfolding tchar_def by presburger

lemma in_ranges8_iff:
  "in_ranges ranges8 c \<longleftrightarrow> (let n = uchar c in n \<le> 32 \<or> n = 34 \<or> n = 40 \<or> n = 41 \<or> n = 44 \<or> n = 47 \<or> 58 \<le> n \<and> n \<le> 64 \<or>
     91 \<le> n \<and> n \<le> 93 \<or> 123 \<le> n)"
proof -
  have "of_char c \<le> (255 :: nat)" using uchar_less [of c] unfolding uchar_def by linarith
  then show ?thesis by (simp add: ranges8_def uchar_def Let_def) presburger
qed

lemma in_ranges8: "in_ranges ranges8 c \<or> phr_token_char_map ! uchar c \<noteq> 0"
  using not_tchar_ranges8 [of "uchar c"] by (auto simp: phr_table in_ranges8_iff Let_def)

lemma in_ranges8_next: "in_ranges ranges8 SP" "in_ranges ranges8 (CHR '':'')"
  by (simp_all add: in_ranges8_iff uchar_def)

lemma ctl_not_printable: "ctl c \<Longrightarrow> \<not> IS_PRINTABLE_ASCII c"
  by (auto simp: ctl_def printable_iff uchar_def)

lemma advance_loop_skip:
  "clean ranges2 u \<Longrightarrow> u @ r \<noteq> [] \<Longrightarrow> advance_loop (u @ r) = seq (CHECK_EOF r) (\<lambda>_. advance_loop r)"
proof (induction u)
  case (Cons c u)
  then have c: "\<not> (uchar c \<le> 32 \<or> c = DEL)" and u: "clean ranges2 u" by (simp_all add: clean_def in_ranges2)
  then have "c \<noteq> SP" "\<not> (uchar c < 32 \<or> c = DEL)" by (auto simp: uchar_def)
  with Cons.IH [OF u] show ?case by (cases "u @ r = []") auto
qed simp

lemma token_loop_skip:
  assumes "next_char = SP \<or> next_char = CHR '':''"
  shows "clean ranges8 u \<Longrightarrow> u @ r \<noteq> [] \<Longrightarrow> token_loop next_char (u @ r) = seq (CHECK_EOF r) (\<lambda>_. token_loop next_char r)"
proof (induction u)
  case (Cons c u)
  then have "c \<noteq> next_char" "phr_token_char_map ! uchar c \<noteq> 0" using in_ranges8 [of c] in_ranges8_next assms by (auto simp: clean_def)
  with Cons show ?case by (cases "u @ r = []") (auto simp: clean_def)
qed simp

lemma eol_loop_skip: "clean ranges1 u \<Longrightarrow> eol_loop (u @ r) = eol_loop r"
  by (induction u) (auto simp: clean_def in_ranges1)

lemma ADVANCE_TOKEN_slow:
  "ADVANCE_TOKEN sse s = seq (CHECK_EOF s) (\<lambda>_. seq (advance_loop s) (\<lambda>buf. Go (token s buf, buf)))"
proof -
  obtain u r f where f: "findchar_fast sse s ranges2 = Go (r, f)" "s = u @ r" "clean ranges2 u" "f \<longrightarrow> r \<noteq> []"
    using findchar_fast_clean [of sse s ranges2] by blast
  then show ?thesis using advance_loop_skip [OF f(3), of r]
    by (cases "s = []"; cases "r = []") (auto simp: ADVANCE_TOKEN_def)
qed

lemma parse_token_slow:
  "next_char = SP \<or> next_char = CHR '':'' \<Longrightarrow> parse_token sse next_char s =
     seq (CHECK_EOF s) (\<lambda>_. seq (token_loop next_char s) (\<lambda>buf. Go (token s buf, buf)))"
proof -
  assume n: "next_char = SP \<or> next_char = CHR '':''"
  obtain u r f where f: "findchar_fast sse s ranges8 = Go (r, f)" "s = u @ r" "clean ranges8 u" "f \<longrightarrow> r \<noteq> []"
    using findchar_fast_clean [of sse s ranges8] by blast
  then show ?thesis using token_loop_skip [OF n f(3), of r]
    by (cases "s = []"; cases "r = []") (auto simp: parse_token_def)
qed

lemma eol_loop_ctl: "r \<noteq> [] \<Longrightarrow> ctl (hd r) \<Longrightarrow> eol_loop r = Go r"
  by (cases r) (auto simp: ctl_not_printable)

lemma DOIT_skip:
  "n \<le> length s \<Longrightarrow> \<exists>u b f. DOIT n s = Go (b, f) \<and> s = u @ b \<and> (\<forall>c \<in> set u. IS_PRINTABLE_ASCII c) \<and> (f \<longrightarrow> b \<noteq> [])"
proof (induction n s rule: DOIT.induct)
  case (2 n c r)
  show ?case
  proof (cases "n \<noteq> 0 \<and> IS_PRINTABLE_ASCII c")
    case True
    then have "n - 1 \<le> length r" using 2(2) by auto
    with True 2(1) obtain u b f where "DOIT (n - 1) r = Go (b, f)" "r = u @ b" "\<forall>c \<in> set u. IS_PRINTABLE_ASCII c" "f \<longrightarrow> b \<noteq> []" by blast
    with True show ?thesis by (intro exI [of "\<lambda>u. \<exists>b f. _ u b f" "c # u"]) simp
  qed (auto simp: ex_bool_eq)
qed (simp add: ex_bool_eq)

lemma eol_loop_printable: "\<forall>c \<in> set u. IS_PRINTABLE_ASCII c \<Longrightarrow> eol_loop (u @ r) = eol_loop r"
  by (induction u) auto

lemma eight_loop_slow: "seq (eight_loop s) (\<lambda>(b, f). if f then Go b else eol_loop b) = eol_loop s"
proof (induction s rule: eight_loop.induct)
  case (1 s)
  show ?case
  proof (cases "8 \<le> length s")
    case True
    then obtain u b f where d: "DOIT 8 s = Go (b, f)" "s = u @ b" "\<forall>c \<in> set u. IS_PRINTABLE_ASCII c" "f \<longrightarrow> b \<noteq> []"
      using DOIT_skip [of 8 s] by blast
    show ?thesis
    proof (cases f)
      case False
      with 1(2) [OF True d(1) refl] True d show ?thesis
        by (subst eight_loop.simps) (simp add: eol_loop_printable)
    next
      case f: True
      show ?thesis
      proof (cases "ctl (hd b)")
        case True
        then show ?thesis using \<open>8 \<le> length s\<close> f d
          by (subst eight_loop.simps) (simp add: eol_loop_printable eol_loop_ctl)
      next
        case False
        then have "eol_loop b = eol_loop (tl b)" using d(4) f by (cases b) auto
        with 1(1) [OF True d(1) refl f False] True d f False show ?thesis
          by (subst eight_loop.simps) (simp add: eol_loop_printable)
      qed
    qed
  next
    case False
    then show ?thesis by (subst eight_loop.simps) simp
  qed
qed

lemma get_token_to_eol_slow: "get_token_to_eol sse s = seq (eol_loop s) (\<lambda>b. found_ctl s b)"
proof (cases sse)
  case True
  obtain u r f where f: "findchar_fast sse s ranges1 = Go (r, f)" "s = u @ r" "clean ranges1 u" "f \<longrightarrow> r \<noteq> [] \<and> in_ranges ranges1 (hd r)"
    using findchar_fast_clean [of sse s ranges1] by blast
  then show ?thesis using True eol_loop_ctl [of r] by (auto simp: get_token_to_eol_def eol_loop_skip in_ranges1)
next
  case False
  have "get_token_to_eol sse s = seq (seq (eight_loop s) (\<lambda>(b, f). if f then Go b else eol_loop b)) (\<lambda>b. found_ctl s b)"
    using False by (cases "eight_loop s") (auto simp: get_token_to_eol_def)
  then show ?thesis by (simp only: eight_loop_slow)
qed

section \<open>Parsers that can be fed piece by piece\<close>

text \<open>A parser on the inputs of \<open>P\<close> is stable if it stays within its input, ends with a rest of it, fails
  only with -1 and -2, and does not change its mind when more input follows, unless it asked for more.\<close>

definition stable_at :: "(string \<Rightarrow> ('a \<times> string) phr) \<Rightarrow> string \<Rightarrow> bool" where
  "stable_at p s \<longleftrightarrow> (case p s of
     Undefined \<Rightarrow> False
   | Ret k \<Rightarrow> k = -2 \<or> k = -1 \<and> (\<forall>x. p (s @ x) = Ret (-1))
   | Go (v, r) \<Rightarrow> (\<exists>u. s = u @ r) \<and> (\<forall>x. p (s @ x) = Go (v, r @ x)))"

definition stable_on :: "(string \<Rightarrow> bool) \<Rightarrow> (string \<Rightarrow> ('a \<times> string) phr) \<Rightarrow> bool" where
  "stable_on P p \<longleftrightarrow> (\<forall>s. P s \<longrightarrow> stable_at p s)"

lemma stable_at_cong: "(\<And>x. p (s @ x) = p' (s @ x)) \<Longrightarrow> stable_at p s \<longleftrightarrow> stable_at p' s"
proof -
  assume e: "\<And>x. p (s @ x) = p' (s @ x)"
  then have "p s = p' s" using e [of "[]"] by simp
  with e show ?thesis unfolding stable_at_def by presburger
qed

lemma stable_on_cong: "(\<And>s x. P s \<Longrightarrow> p (s @ x) = p' (s @ x)) \<Longrightarrow> stable_on P p \<longleftrightarrow> stable_on P p'"
  unfolding stable_on_def using stable_at_cong by blast

definition unit_res :: "string phr \<Rightarrow> (unit \<times> string) phr" where
  "unit_res p = seq p (\<lambda>b. Go ((), b))"

lemma unit_res_simps [simp]: "unit_res Undefined = Undefined" "unit_res (Ret k) = Ret k" "unit_res (Go b) = Go ((), b)"
  by (simp_all add: unit_res_def)

abbreviation stable1_on :: "(string \<Rightarrow> bool) \<Rightarrow> (string \<Rightarrow> string phr) \<Rightarrow> bool" where
  "stable1_on P p \<equiv> stable_on P (\<lambda>s. unit_res (p s))"

abbreviation ne :: "string \<Rightarrow> bool" where "ne s \<equiv> s \<noteq> []"
abbreviation any :: "string \<Rightarrow> bool" where "any s \<equiv> True"

lemma stable_onI:
  assumes "\<And>s. P s \<Longrightarrow> p s \<noteq> Undefined"
    "\<And>s k. P s \<Longrightarrow> p s = Ret k \<Longrightarrow> k = -2 \<or> k = -1 \<and> (\<forall>x. p (s @ x) = Ret (-1))"
    "\<And>s v r. P s \<Longrightarrow> p s = Go (v, r) \<Longrightarrow> (\<exists>u. s = u @ r) \<and> (\<forall>x. p (s @ x) = Go (v, r @ x))"
  shows "stable_on P p"
  unfolding stable_on_def stable_at_def
proof (intro allI impI)
  fix s assume "P s"
  then show "case p s of Undefined \<Rightarrow> False
     | Ret k \<Rightarrow> k = -2 \<or> k = -1 \<and> (\<forall>x. p (s @ x) = Ret (-1))
     | Go (v, r) \<Rightarrow> (\<exists>u. s = u @ r) \<and> (\<forall>x. p (s @ x) = Go (v, r @ x))"
    using assms [of s] by (cases "p s") auto
qed

lemma stable_on_Go: "stable_on P p \<Longrightarrow> P s \<Longrightarrow> p s = Go (v, r) \<Longrightarrow> (\<exists>u. s = u @ r) \<and> p (s @ x) = Go (v, r @ x)"
  unfolding stable_on_def stable_at_def by fastforce

lemma stable_on_Ret: "stable_on P p \<Longrightarrow> P s \<Longrightarrow> p s = Ret k \<Longrightarrow> k = -2 \<or> k = -1 \<and> p (s @ x) = Ret (-1)"
  unfolding stable_on_def stable_at_def by fastforce

lemma stable_on_defined: "stable_on P p \<Longrightarrow> P s \<Longrightarrow> p s \<noteq> Undefined"
  unfolding stable_on_def stable_at_def by fastforce

lemma stable_on_mono: "stable_on Q p \<Longrightarrow> (\<And>s. P s \<Longrightarrow> Q s) \<Longrightarrow> stable_on P p"
  unfolding stable_on_def by blast

lemma stable_seq:
  assumes p: "stable_on P p" and pq: "\<And>s v r. P s \<Longrightarrow> p s = Go (v, r) \<Longrightarrow> Q v r" and q: "\<And>v. stable_on (Q v) (q v)"
  shows "stable_on P (\<lambda>s. seq (p s) (\<lambda>(v, r). q v r))"
proof (rule stable_onI)
  fix s assume s: "P s"
  show "seq (p s) (\<lambda>(v, r). q v r) \<noteq> Undefined"
    using stable_on_defined [OF p s] stable_on_defined [OF q] pq [OF s] by (cases "p s") auto
next
  fix s k assume s: "P s" and k: "seq (p s) (\<lambda>(v, r). q v r) = Ret k"
  show "k = - 2 \<or> k = - 1 \<and> (\<forall>x. seq (p (s @ x)) (\<lambda>(v, r). q v r) = Ret (- 1))"
  proof (cases "p s")
    case (Ret j)
    then show ?thesis using k stable_on_Ret [OF p s Ret] by auto
  next
    case (Go w)
    then obtain v r where g: "p s = Go (v, r)" by (cases w) auto
    with k have "q v r = Ret k" by simp
    with stable_on_Ret [OF q pq [OF s g], of k] stable_on_Go [OF p s g] show ?thesis by auto
  qed (use k in simp)
next
  fix s v' r' assume s: "P s" and g': "seq (p s) (\<lambda>(v, r). q v r) = Go (v', r')"
  then obtain v r where g: "p s = Go (v, r)" "q v r = Go (v', r')" by (cases "p s") auto
  with stable_on_Go [OF q pq [OF s g(1)] g(2)] stable_on_Go [OF p s g(1)]
  show "(\<exists>u. s = u @ r') \<and> (\<forall>x. seq (p (s @ x)) (\<lambda>(v, r). q v r) = Go (v', r' @ x))"
    by (metis (mono_tags, lifting) append.assoc case_prod_conv seq.simps(3))
qed

lemma stable_seq1:
  assumes "stable1_on P p" "\<And>s r. P s \<Longrightarrow> p s = Go r \<Longrightarrow> Q r" "stable_on Q q"
  shows "stable_on P (\<lambda>s. seq (p s) q)"
proof -
  have *: "seq (unit_res (p s)) (\<lambda>(v, r). q r) = seq (p s) q" for s by (cases "p s") auto
  have "p s = Go r" if "unit_res (p s) = Go (v, r)" for s v r using that by (cases "p s") auto
  with stable_seq [OF assms(1), of "\<lambda>_. Q" "\<lambda>_. q"] assms(2,3) show ?thesis unfolding * by blast
qed

lemma stable_Ret: "stable_on P (\<lambda>s. Ret (-1))"
  by (rule stable_onI) auto

lemma stable_Go: "stable_on P (\<lambda>s. Go (v, s))"
  by (rule stable_onI) auto

lemma stable_if: "(b \<Longrightarrow> stable_on P p) \<Longrightarrow> (\<not> b \<Longrightarrow> stable_on P q) \<Longrightarrow> stable_on P (\<lambda>s. if b then p s else q s)"
  by (cases b) simp_all

text \<open>A test of the first byte, which stays the first when more input follows.\<close>

lemma stable_if_hd:
  assumes "\<And>s. P s \<Longrightarrow> s \<noteq> []" "stable_on (\<lambda>s. P s \<and> f (hd s)) p" "stable_on (\<lambda>s. P s \<and> \<not> f (hd s)) q"
  shows "stable_on P (\<lambda>s. if f (hd s) then p s else q s)"
  unfolding stable_on_def
proof (intro allI impI)
  fix s assume s: "P s"
  show "stable_at (\<lambda>s. if f (hd s) then p s else q s) s"
  proof (cases "f (hd s)")
    case True
    then have "stable_at (\<lambda>s. if f (hd s) then p s else q s) s = stable_at p s"
      by (intro stable_at_cong) (simp add: assms(1) [OF s])
    with assms(2) s True show ?thesis by (simp add: stable_on_def)
  next
    case False
    then have "stable_at (\<lambda>s. if f (hd s) then p s else q s) s = stable_at q s"
      by (intro stable_at_cong) (simp add: assms(1) [OF s])
    with assms(3) s False show ?thesis by (simp add: stable_on_def)
  qed
qed

lemma stable_tl: 
  assumes "stable_on any p" "\<And>s. P s \<Longrightarrow> s \<noteq> []"
  shows "stable_on P (\<lambda>s. p (tl s))"
proof (rule stable_onI)
  fix s assume "P s"
  then show "p (tl s) \<noteq> Undefined" using stable_on_defined [OF assms(1)] by simp
next
  fix s k assume s: "P s" and k: "p (tl s) = Ret k"
  then show "k = - 2 \<or> k = - 1 \<and> (\<forall>x. p (tl (s @ x)) = Ret (- 1))"
    using stable_on_Ret [OF assms(1) TrueI k] assms(2) [OF s] by auto
next
  fix s v r assume s: "P s" and g: "p (tl s) = Go (v, r)"
  from stable_on_Go [OF assms(1) TrueI g] obtain u where "tl s = u @ r" "\<And>x. p (tl s @ x) = Go (v, r @ x)" by blast
  with assms(2) [OF s] show "(\<exists>u. s = u @ r) \<and> (\<forall>x. p (tl (s @ x)) = Go (v, r @ x))"
    by (metis append_Cons list.exhaust_sel tl_append2)
qed

lemma stable_CHECK_EOF:
  assumes "stable_on ne p"
  shows "stable_on any (\<lambda>s. seq (CHECK_EOF s) (\<lambda>_. p s))"
  unfolding stable_on_def
proof (intro allI impI)
  fix s
  show "stable_at (\<lambda>s. seq (CHECK_EOF s) (\<lambda>_. p s)) s"
  proof (cases "s = []")
    case False
    then have "stable_at (\<lambda>s. seq (CHECK_EOF s) (\<lambda>_. p s)) s = stable_at p s"
      by (intro stable_at_cong) (simp add: CHECK_EOF_def)
    with assms False show ?thesis by (simp add: stable_on_def)
  qed (simp add: stable_at_def CHECK_EOF_def)
qed

lemma stable_EXPECT_NO_CHECK: "stable1_on ne (EXPECT_CHAR_NO_CHECK ch)"
  by (rule stable_onI) (auto simp: EXPECT_CHAR_NO_CHECK_def split: list.splits if_splits)

lemma stable_EXPECT: "stable1_on any (EXPECT_CHAR ch)"
  by (rule stable_onI) (auto simp: EXPECT_CHAR_def CHECK_EOF_def EXPECT_CHAR_NO_CHECK_def split: list.splits if_splits)

section \<open>Stability of the parts\<close>

lemma advance_loop_end: "s \<noteq> [] \<Longrightarrow> advance_loop s = Go b \<Longrightarrow> b \<noteq> [] \<and> (\<exists>u. s = u @ b \<and> (\<forall>x. advance_loop (s @ x) = Go (b @ x)))"
proof (induction s)
  case (Cons c s)
  show ?case
  proof (cases "c = SP")
    case False
    with Cons.prems have s: "s \<noteq> []" "advance_loop s = Go b" by (auto simp: CHECK_EOF_def split: if_splits)
    from Cons.IH [OF this] obtain u where "b \<noteq> []" "s = u @ b" "\<forall>x. advance_loop (s @ x) = Go (b @ x)" by blast
    with False Cons.prems s show ?thesis by (auto simp: CHECK_EOF_def split: if_splits)
  qed (use Cons.prems in auto)
qed simp

lemma advance_loop_fail: "s \<noteq> [] \<Longrightarrow> advance_loop s \<noteq> Undefined"
  "s \<noteq> [] \<Longrightarrow> advance_loop s = Ret k \<Longrightarrow> k = -2 \<or> k = -1 \<and> (\<forall>x. advance_loop (s @ x) = Ret (-1))"
  by (induction s) (auto simp: CHECK_EOF_def split: if_splits)

lemma token_loop_end: "s \<noteq> [] \<Longrightarrow> token_loop ch s = Go b \<Longrightarrow>
  b \<noteq> [] \<and> hd b = ch \<and> (\<exists>u. s = u @ b \<and> (\<forall>x. token_loop ch (s @ x) = Go (b @ x)))"
proof (induction s)
  case (Cons c s)
  show ?case
  proof (cases "c = ch")
    case False
    with Cons.prems have s: "s \<noteq> []" "token_loop ch s = Go b" by (auto simp: CHECK_EOF_def split: if_splits)
    from Cons.IH [OF this] obtain u where "b \<noteq> []" "hd b = ch" "s = u @ b" "\<forall>x. token_loop ch (s @ x) = Go (b @ x)" by blast
    with False Cons.prems s show ?thesis by (auto simp: CHECK_EOF_def split: if_splits)
  qed (use Cons.prems in auto)
qed simp

lemma token_loop_fail: "s \<noteq> [] \<Longrightarrow> token_loop ch s \<noteq> Undefined"
  "s \<noteq> [] \<Longrightarrow> token_loop ch s = Ret k \<Longrightarrow> k = -2 \<or> k = -1 \<and> (\<forall>x. token_loop ch (s @ x) = Ret (-1))"
  by (induction s) (auto simp: CHECK_EOF_def split: if_splits)

lemma token_append [simp]: "token (u @ b) b = u"
  by (simp add: token_def)

text \<open>Both token parsers have this shape.\<close>

lemma stable_token:
  fixes l :: "string \<Rightarrow> string phr"
  assumes "\<And>s. s \<noteq> [] \<Longrightarrow> l s \<noteq> Undefined"
    "\<And>s k. s \<noteq> [] \<Longrightarrow> l s = Ret k \<Longrightarrow> k = -2 \<or> k = -1 \<and> (\<forall>x. l (s @ x) = Ret (-1))"
    "\<And>s b. s \<noteq> [] \<Longrightarrow> l s = Go b \<Longrightarrow> \<exists>u. s = u @ b \<and> (\<forall>x. l (s @ x) = Go (b @ x))"
  shows "stable_on any (\<lambda>s. seq (CHECK_EOF s) (\<lambda>_. seq (l s) (\<lambda>b. Go (token s b, b))))"
proof (rule stable_CHECK_EOF, rule stable_onI)
  fix s :: string assume "s \<noteq> []"
  with assms(1) show "seq (l s) (\<lambda>b. Go (token s b, b)) \<noteq> Undefined" by (cases "l s") auto
next
  fix s k assume "s \<noteq> []" "seq (l s) (\<lambda>b. Go (token s b, b)) = Ret k"
  with assms(2) [of s k] show "k = - 2 \<or> k = - 1 \<and> (\<forall>x. seq (l (s @ x)) (\<lambda>b. Go (token (s @ x) b, b)) = Ret (- 1))"
    by (cases "l s") auto
next
  fix s v r assume s: "s \<noteq> []" "seq (l s) (\<lambda>b. Go (token s b, b)) = Go (v, r)"
  then have g: "l s = Go r" "v = token s r" by (cases "l s"; simp)+
  from assms(3) [OF s(1) g(1)] obtain u where u: "s = u @ r" "\<And>x. l (s @ x) = Go (r @ x)" by blast
  then have "token (s @ x) (r @ x) = v" for x using g(2) token_append [of u "r @ x"] by simp
  with u show "(\<exists>u. s = u @ r) \<and> (\<forall>x. seq (l (s @ x)) (\<lambda>b. Go (token (s @ x) b, b)) = Go (v, r @ x))" by simp
qed

lemma stable_ADVANCE_TOKEN: "stable_on any (ADVANCE_TOKEN sse)"
  unfolding ADVANCE_TOKEN_slow by (rule stable_token) (use advance_loop_fail advance_loop_end in blast)+

lemma stable_parse_token: "ch = SP \<or> ch = CHR '':'' \<Longrightarrow> stable_on any (parse_token sse ch)"
proof -
  assume ch: "ch = SP \<or> ch = CHR '':''"
  have "stable_on any (\<lambda>s. seq (CHECK_EOF s) (\<lambda>_. seq (token_loop ch s) (\<lambda>b. Go (token s b, b))))"
    by (rule stable_token) (use token_loop_fail token_loop_end in blast)+
  then show ?thesis using parse_token_slow [OF ch, of sse] by presburger
qed

lemma parse_token_end:
  "ch = SP \<or> ch = CHR '':'' \<Longrightarrow> parse_token sse ch s = Go (v, b) \<Longrightarrow> b \<noteq> [] \<and> hd b = ch \<and> s = v @ b"
  using token_loop_end [of s ch b]
  by (cases "s = []"; cases "token_loop ch s") (auto simp: parse_token_slow)

lemma ADVANCE_TOKEN_end: "ADVANCE_TOKEN sse s = Go (v, b) \<Longrightarrow> b \<noteq> [] \<and> s = v @ b"
  using advance_loop_end [of s b]
  by (cases "s = []"; cases "advance_loop s") (auto simp: ADVANCE_TOKEN_slow)

lemma eol_loop_end: "eol_loop s = Go b \<Longrightarrow> b \<noteq> [] \<and> ctl (hd b) \<and> (\<exists>u. s = u @ b \<and> (\<forall>c \<in> set u. \<not> ctl c) \<and> (\<forall>x. eol_loop (s @ x) = Go (b @ x)))"
proof (induction s)
  case (Cons c s)
  show ?case
  proof (cases "ctl c")
    case False
    with Cons.prems have "eol_loop s = Go b" by (auto split: if_splits)
    from Cons.IH [OF this] obtain u where "b \<noteq> []" "ctl (hd b)" "s = u @ b" "\<forall>c \<in> set u. \<not> ctl c" "\<forall>x. eol_loop (s @ x) = Go (b @ x)" by blast
    with False show ?thesis by (intro conjI exI [of _ "c # u"]) auto
  qed (use Cons.prems ctl_not_printable in auto)
qed simp

lemma eol_loop_fail: "eol_loop s \<noteq> Undefined" "eol_loop s = Ret k \<Longrightarrow> k = -2"
  by (induction s) (auto split: if_splits)

lemma found_ctl_end:
  assumes "b \<noteq> []"
  shows "found_ctl (u @ b) b \<noteq> Undefined"
    "found_ctl (u @ b) b = Ret k \<Longrightarrow> k = -2 \<or> k = -1 \<and> found_ctl (u @ b @ x) (b @ x) = Ret (-1)"
    "found_ctl (u @ b) b = Go (v, r) \<Longrightarrow> v = u \<and> (\<exists>e. b = e @ r \<and> (e = [LF] \<or> e = [CR, LF])) \<and> found_ctl (u @ b @ x) (b @ x) = Go (v, r @ x)"
  using assms
  by (auto simp: found_ctl_def EXPECT_CHAR_def EXPECT_CHAR_NO_CHECK_def CHECK_EOF_def token_def split: list.splits if_splits)

lemma get_token_to_eol_end:
  "get_token_to_eol sse s = Go (v, r) \<Longrightarrow> (\<exists>e. s = v @ e @ r \<and> (e = [LF] \<or> e = [CR, LF])) \<and> (\<forall>c \<in> set v. \<not> ctl c)"
proof -
  assume "get_token_to_eol sse s = Go (v, r)"
  then obtain b where b: "eol_loop s = Go b" "found_ctl s b = Go (v, r)"
    by (cases "eol_loop s") (auto simp: get_token_to_eol_slow)
  from eol_loop_end [OF b(1)] obtain u where "b \<noteq> []" "s = u @ b" "\<forall>c \<in> set u. \<not> ctl c" by blast
  with found_ctl_end(3) [of b u v r "[]"] b(2) show ?thesis by auto
qed

lemma stable_get_token_to_eol: "stable_on any (get_token_to_eol sse)"
proof (rule stable_onI)
  fix s
  show "get_token_to_eol sse s \<noteq> Undefined"
    using eol_loop_fail(1) [of s] eol_loop_end [of s] found_ctl_end(1) by (cases "eol_loop s") (auto simp: get_token_to_eol_slow)
next
  fix s k assume k: "get_token_to_eol sse s = Ret k"
  show "k = - 2 \<or> k = - 1 \<and> (\<forall>x. get_token_to_eol sse (s @ x) = Ret (- 1))"
  proof (cases "eol_loop s")
    case (Go b)
    from eol_loop_end [OF this] obtain u where u: "b \<noteq> []" "s = u @ b" "\<forall>x. eol_loop (s @ x) = Go (b @ x)" by blast
    with found_ctl_end(2) [of b u k] k Go show ?thesis by (auto simp: get_token_to_eol_slow)
  qed (use k eol_loop_fail [of s] in \<open>auto simp: get_token_to_eol_slow\<close>)
next
  fix s v r assume "get_token_to_eol sse s = Go (v, r)"
  then obtain b where b: "eol_loop s = Go b" "found_ctl s b = Go (v, r)"
    by (cases "eol_loop s") (auto simp: get_token_to_eol_slow)
  from eol_loop_end [OF b(1)] obtain u where "b \<noteq> []" "s = u @ b" "\<forall>x. eol_loop (s @ x) = Go (b @ x)" by blast
  with found_ctl_end(3) [of b u v r] b(2)
  show "(\<exists>u. s = u @ r) \<and> (\<forall>x. get_token_to_eol sse (s @ x) = Go (v, r @ x))"
    by (auto simp: get_token_to_eol_slow) (metis append_assoc)
qed

lemma stable_min:
  assumes "stable_on (\<lambda>s. n \<le> length s) p"
  shows "stable_on any (\<lambda>s. if length s < n then Ret (-2) else p s)"
  unfolding stable_on_def
proof (intro allI impI)
  fix s
  show "stable_at (\<lambda>s. if length s < n then Ret (-2) else p s) s"
  proof (cases "length s < n")
    case False
    then have "stable_at (\<lambda>s. if length s < n then Ret (-2) else p s) s = stable_at p s"
      by (intro stable_at_cong) simp
    with assms False show ?thesis by (simp add: stable_on_def)
  qed (simp add: stable_at_def)
qed

lemma expect_all_Go: "expect_all p s = Go r \<longleftrightarrow> s = p @ r"
  by (induction p arbitrary: s) (auto simp: EXPECT_CHAR_NO_CHECK_def split: list.splits)

lemma expect_all_length: "length p \<le> length s \<Longrightarrow> expect_all p s \<noteq> Undefined"
  "length p \<le> length s \<Longrightarrow> expect_all p s = Ret k \<Longrightarrow> k = -1 \<and> expect_all p (s @ x) = Ret (-1)"
  by (induction p arbitrary: s) (auto simp: EXPECT_CHAR_NO_CHECK_def split: list.splits if_splits)

lemma stable_expect_all: "(\<And>s. P s \<Longrightarrow> length p \<le> length s) \<Longrightarrow> stable1_on P (expect_all p)"
proof (rule stable_onI)
  fix s assume "\<And>s. P s \<Longrightarrow> length p \<le> length s" "P s"
  then show "unit_res (expect_all p s) \<noteq> Undefined" using expect_all_length(1) [of p s] by (cases "expect_all p s") auto
next
  fix s k assume "\<And>s. P s \<Longrightarrow> length p \<le> length s" "P s" "unit_res (expect_all p s) = Ret k"
  then show "k = - 2 \<or> k = - 1 \<and> (\<forall>x. unit_res (expect_all p (s @ x)) = Ret (- 1))"
    using expect_all_length(2) [of p s] by (cases "expect_all p s") auto
next
  fix s v r assume "unit_res (expect_all p s) = Go (v, r)"
  then have "expect_all p s = Go r" by (cases "expect_all p s") auto
  then have "s = p @ r" by (simp add: expect_all_Go)
  then show "(\<exists>u. s = u @ r) \<and> (\<forall>x. unit_res (expect_all p (s @ x)) = Go (v, r @ x))"
    using expect_all_Go [of p "p @ r @ x" "r @ x" for x] by simp
qed

lemma stable_PARSE_INT: "stable_on ne (PARSE_INT m)"
  by (rule stable_onI) (auto simp: PARSE_INT_def split: list.splits if_splits)

lemma PARSE_INT_end:
  assumes "PARSE_INT m s = Go (v, r)"
  shows "length s = Suc (length r) \<and> (\<exists>d. 0 \<le> d \<and> d \<le> 9 \<and> v = m * d)"
proof (cases s)
  case (Cons c r')
  then have "r' = r" "v = m * (schar c - 48)" "48 \<le> schar c" "schar c \<le> 57"
    using assms by (auto simp: PARSE_INT_def split: if_splits)
  then show ?thesis using Cons by (intro conjI exI [of _ "schar c - 48"]) simp_all
qed (use assms in \<open>simp add: PARSE_INT_def\<close>)

lemma stable_http_version: "stable_on any parse_http_version"
  unfolding parse_http_version_def
proof (rule stable_min, rule stable_seq1 [where Q = ne], rule stable_expect_all)
  fix s r assume "9 \<le> length s" "expect_all ''HTTP/1.'' s = Go r"
  then show "r \<noteq> []" by (simp only: expect_all_Go) auto
qed (simp_all add: stable_PARSE_INT)

lemma http_version_end: "parse_http_version s = Go (v, r) \<Longrightarrow> r \<noteq> [] \<and> 0 \<le> v \<and> v \<le> 9"
proof -
  assume a: "parse_http_version s = Go (v, r)"
  then obtain b where b: "9 \<le> length s" "expect_all ''HTTP/1.'' s = Go b" "PARSE_INT 1 b = Go (v, r)"
    by (cases "expect_all ''HTTP/1.'' s") (auto simp: parse_http_version_def split: if_splits)
  from b(2) have "s = ''HTTP/1.'' @ b" by (simp only: expect_all_Go)
  then have "length s = 7 + length b" by simp
  then show ?thesis using b(1) PARSE_INT_end [OF b(3)] by auto
qed

lemma stable_skip_ws: "stable1_on any skip_ws"
proof (rule stable_onI)
  fix s
  show "unit_res (skip_ws s) \<noteq> Undefined" by (induction s) auto
next
  fix s k assume "unit_res (skip_ws s) = Ret k"
  then show "k = - 2 \<or> k = - 1 \<and> (\<forall>x. unit_res (skip_ws (s @ x)) = Ret (- 1))" by (induction s) (auto split: if_splits)
next
  fix s v r assume "unit_res (skip_ws s) = Go (v, r)"
  then show "(\<exists>u. s = u @ r) \<and> (\<forall>x. unit_res (skip_ws (s @ x)) = Go (v, r @ x))"
  proof (induction s)
    case (Cons c s)
    show ?case
    proof (cases "c = SP \<or> c = TAB")
      case True
      with Cons have "unit_res (skip_ws s) = Go (v, r)" by auto
      with Cons.IH True show ?thesis by (metis append_Cons skip_ws.simps(2))
    qed (use Cons in auto)
  qed simp
qed

lemma skip_ws_Go: "skip_ws s = Go r \<Longrightarrow> \<exists>w. s = w @ r \<and> (\<forall>c \<in> set w. c = SP \<or> c = TAB) \<and> r \<noteq> [] \<and> hd r \<noteq> SP \<and> hd r \<noteq> TAB"
proof (induction s)
  case (Cons c s)
  show ?case
  proof (cases "c = SP \<or> c = TAB")
    case True
    with Cons obtain w where "s = w @ r" "\<forall>c \<in> set w. c = SP \<or> c = TAB" "r \<noteq> [] \<and> hd r \<noteq> SP \<and> hd r \<noteq> TAB" by auto
    with True show ?thesis by (intro exI [of _ "c # w"]) auto
  qed (use Cons in auto)
qed simp

lemma stable_field_name: "stable_on any (field_name sse)"
  unfolding field_name_def
proof (rule stable_seq [where Q = "\<lambda>v. ne"])
  fix v
  show "stable_on ne (\<lambda>r. if v = [] then Ret (-1) else seq (skip_ws (tl r)) (\<lambda>r. Go (Some v, r)))"
    by (intro stable_if stable_Ret stable_tl [where p = "\<lambda>r. seq (skip_ws r) (\<lambda>r. Go (Some v, r))"]
        stable_seq1 [where Q = any] stable_skip_ws stable_Go) auto
next
  show "stable_on any (parse_token sse CHR '':'')" by (rule stable_parse_token) simp
next
  fix s v r assume "parse_token sse CHR '':'' s = Go (v, r)"
  then show "r \<noteq> []" using parse_token_end by blast
qed

lemma stable_parse_field: "stable_on ne (parse_field sse n)"
  unfolding parse_field_def
  by (rule stable_seq [where Q = "\<lambda>v. any"], rule stable_if_hd, simp, rule stable_on_mono [OF stable_field_name], simp,
      rule stable_on_mono [OF stable_Go [where P = any]], simp)
    (auto intro!: stable_seq [where Q = "\<lambda>v. any"] stable_get_token_to_eol stable_Go)

lemma parse_field_length: "buf \<noteq> [] \<Longrightarrow> parse_field sse n buf = Go (h, r) \<Longrightarrow> length r < length buf"
proof -
  assume b: "buf \<noteq> []" and f: "parse_field sse n buf = Go (h, r)"
  let ?p = "if \<not> (n \<noteq> 0 \<and> (hd buf = SP \<or> hd buf = TAB)) then field_name sse buf else Go (None, buf)"
  obtain nm b1 where 1: "?p = Go (nm, b1)" using f by (cases ?p) (auto simp: parse_field_def)
  then obtain v where 2: "get_token_to_eol sse b1 = Go (v, r)"
    using f by (cases "get_token_to_eol sse b1") (auto simp: parse_field_def)
  have "\<exists>u. buf = u @ b1"
    using 1 stable_on_Go [OF stable_field_name [of sse] TrueI, of buf nm b1 "[]"] by (auto split: if_splits)
  with get_token_to_eol_end [OF 2] show ?thesis by auto
qed

section \<open>The parsers\<close>

lemma seq_cong [fundef_cong]: "p = p' \<Longrightarrow> (\<And>x. p' = Go x \<Longrightarrow> f x = g x) \<Longrightarrow> seq p f = seq p' g"
  by (cases p') auto

text \<open>\<open>hs\<close> are the fields stored so far: \<open>*num_headers\<close> is their number.\<close>

function parse_headers :: "bool \<Rightarrow> nat \<Rightarrow> phr_header list \<Rightarrow> string \<Rightarrow> (phr_header list \<times> string) phr" where
  "parse_headers sse max_headers hs buf =
     seq (CHECK_EOF buf) (\<lambda>_.
     if hd buf = CR then seq (EXPECT_CHAR LF (tl buf)) (\<lambda>buf. Go (hs, buf))
     else if hd buf = LF then Go (hs, tl buf)
     else if length hs = max_headers then Ret (-1)
     else seq (parse_field sse (length hs) buf) (\<lambda>(h, buf). parse_headers sse max_headers (hs @ [h]) buf))"
  by pat_completeness auto
termination
  by (relation "measure (\<lambda>(sse, max_headers, hs, buf). length buf)")
    (auto simp: CHECK_EOF_def split: if_splits intro: parse_field_length)

declare parse_headers.simps [simp del]

text \<open>The loop over spaces: \<open>do { ++buf; CHECK_EOF(); } while (*buf == ' ')\<close>.\<close>

fun skip_sp :: "string \<Rightarrow> string phr" where
  "skip_sp [] = Undefined"
| "skip_sp (c # r) = seq (CHECK_EOF r) (\<lambda>_. if hd r = SP then skip_sp r else Go r)"

text \<open>An optional empty line; and the end of the request line.\<close>

definition skip_line :: "string \<Rightarrow> string phr" where
  "skip_line buf = (if hd buf = CR then EXPECT_CHAR LF (tl buf) else if hd buf = LF then Go (tl buf) else Go buf)"

definition end_line :: "string \<Rightarrow> string phr" where
  "end_line buf =
     (case buf of
        [] \<Rightarrow> Undefined
      | c # r \<Rightarrow> if c = CR then EXPECT_CHAR LF r else if c = LF then Go r else Ret (-1))"

record phr_request =
  q_method :: string
  q_path :: string
  q_minor_version :: int
  q_headers :: "phr_header list"

definition parse_request :: "bool \<Rightarrow> nat \<Rightarrow> string \<Rightarrow> (phr_request \<times> string) phr" where
  "parse_request sse max_headers buf =
     seq (CHECK_EOF buf) (\<lambda>_.
     seq (skip_line buf) (\<lambda>buf.
     seq (parse_token sse SP buf) (\<lambda>(method, buf).
     seq (skip_sp buf) (\<lambda>buf.
     seq (ADVANCE_TOKEN sse buf) (\<lambda>(path, buf).
     seq (skip_sp buf) (\<lambda>buf.
     if method = [] \<or> path = [] then Ret (-1)
     else seq (parse_http_version buf) (\<lambda>(minor_version, buf).
     seq (end_line buf) (\<lambda>buf.
     seq (parse_headers sse max_headers [] buf) (\<lambda>(hs, buf).
     Go (\<lparr>q_method = method, q_path = path, q_minor_version = minor_version, q_headers = hs\<rparr>, buf))))))))))"

text \<open>The three entry points. Besides the outputs they return the number of bytes that were read.\<close>

definition check_complete :: "string \<Rightarrow> nat \<Rightarrow> unit phr" where
  "check_complete buf last_len = (if last_len \<noteq> 0 then seq (is_complete buf last_len) (\<lambda>_. Go ()) else Go ())"

definition phr_parse_request :: "bool \<Rightarrow> string \<Rightarrow> nat \<Rightarrow> nat \<Rightarrow> (int \<times> phr_request) phr" where
  "phr_parse_request sse buf_start max_headers last_len =
     seq (check_complete buf_start last_len) (\<lambda>_.
     seq (parse_request sse max_headers buf_start) (\<lambda>(q, buf).
     Go (c_int (int (length buf_start - length buf)), q)))"

record phr_response =
  p_minor_version :: int
  p_status :: int
  p_msg :: string
  p_headers :: "phr_header list"

text \<open>The loop over the spaces in front of the message: \<open>do { ++*msg; --*msg_len; } while (**msg == ' ')\<close>.
  It reads at the pointer \<open>msg\<close>, which it only bounds by the length afterwards.\<close>

fun skip_msg :: "string \<Rightarrow> nat \<Rightarrow> string phr" where
  "skip_msg [] msg_len = Undefined"
| "skip_msg [c] msg_len = Undefined"
| "skip_msg (c # d # r) msg_len =
     (if d = SP then skip_msg (d # r) (sz_sub msg_len 1) else Go (take (sz_sub msg_len 1) (d # r)))"

definition parse_msg :: "bool \<Rightarrow> string \<Rightarrow> (string \<times> string) phr" where
  "parse_msg sse msg_start =
     seq (get_token_to_eol sse msg_start) (\<lambda>(msg, buf).
     if length msg = 0 then Go ([], buf)
     else if hd msg_start = SP then seq (skip_msg msg_start (length msg)) (\<lambda>msg. Go (msg, buf))
     else Ret (-1))"

definition parse_response :: "bool \<Rightarrow> nat \<Rightarrow> string \<Rightarrow> (phr_response \<times> string) phr" where
  "parse_response sse max_headers buf =
     seq (parse_http_version buf) (\<lambda>(minor_version, buf).
     if hd buf \<noteq> SP then Ret (-1)
     else seq (skip_sp buf) (\<lambda>buf.
     if length buf < 4 then Ret (-2)
     else seq (PARSE_INT_3 buf) (\<lambda>(status, buf).
     seq (parse_msg sse buf) (\<lambda>(msg, buf).
     seq (parse_headers sse max_headers [] buf) (\<lambda>(hs, buf).
     Go (\<lparr>p_minor_version = minor_version, p_status = status, p_msg = msg, p_headers = hs\<rparr>, buf))))))"

definition phr_parse_response :: "bool \<Rightarrow> string \<Rightarrow> nat \<Rightarrow> nat \<Rightarrow> (int \<times> phr_response) phr" where
  "phr_parse_response sse buf_start max_headers last_len =
     seq (check_complete buf_start last_len) (\<lambda>_.
     seq (parse_response sse max_headers buf_start) (\<lambda>(p, buf).
     Go (c_int (int (length buf_start - length buf)), p)))"

definition phr_parse_headers :: "bool \<Rightarrow> string \<Rightarrow> nat \<Rightarrow> nat \<Rightarrow> (int \<times> phr_header list) phr" where
  "phr_parse_headers sse buf_start max_headers last_len =
     seq (check_complete buf_start last_len) (\<lambda>_.
     seq (parse_headers sse max_headers [] buf_start) (\<lambda>(hs, buf).
     Go (c_int (int (length buf_start - length buf)), hs)))"

section \<open>Stability of the parsers\<close>

lemma stable_CHECK_EOF_on:
  assumes "stable_on (\<lambda>s. P s \<and> s \<noteq> []) p"
  shows "stable_on P (\<lambda>s. seq (CHECK_EOF s) (\<lambda>_. p s))"
proof -
  have "stable_at (\<lambda>s. seq (CHECK_EOF s) (\<lambda>_. p s)) s" if s: "P s" for s
  proof (cases "s = []")
    case False
    then have "stable_at (\<lambda>s. seq (CHECK_EOF s) (\<lambda>_. p s)) s = stable_at p s"
      by (intro stable_at_cong) (simp add: CHECK_EOF_def)
    with assms s False show ?thesis by (simp add: stable_on_def)
  qed (simp add: stable_at_def CHECK_EOF_def)
  then show ?thesis by (simp add: stable_on_def)
qed

lemma stable_any: "stable_on any p \<Longrightarrow> stable_on P p"
  by (erule stable_on_mono) simp

lemma stable_EXPECT_tl: "(\<And>s. P s \<Longrightarrow> s \<noteq> []) \<Longrightarrow> stable_on any q \<Longrightarrow> stable_on P (\<lambda>s. seq (EXPECT_CHAR ch (tl s)) q)"
  by (rule stable_tl [where p = "\<lambda>b. seq (EXPECT_CHAR ch b) q"], rule stable_seq1 [OF stable_EXPECT, where Q = any]) auto

lemma stable_parse_headers_n: "stable_on (\<lambda>s. length s < n) (parse_headers sse mx hs)"
proof (induction n arbitrary: hs)
  case (Suc n)
  have f: "stable_on (\<lambda>s. length s < Suc n \<and> s \<noteq> []) (\<lambda>buf. seq (parse_field sse (length hs) buf) (\<lambda>(h, buf). parse_headers sse mx (hs @ [h]) buf))"
  proof (rule stable_seq [where Q = "\<lambda>_ s. length s < n"])
    show "stable_on (\<lambda>s. length s < Suc n \<and> s \<noteq> []) (parse_field sse (length hs))"
      by (rule stable_on_mono [OF stable_parse_field]) simp
  next
    fix s h r assume "length s < Suc n \<and> s \<noteq> []" "parse_field sse (length hs) s = Go (h, r)"
    with parse_field_length [of s sse "length hs" h r] show "length r < n" by simp
  qed (rule Suc.IH)
  have "stable_on (\<lambda>s. length s < Suc n) (\<lambda>buf. seq (CHECK_EOF buf) (\<lambda>_.
     if hd buf = CR then seq (EXPECT_CHAR LF (tl buf)) (\<lambda>buf. Go (hs, buf))
     else if hd buf = LF then Go (hs, tl buf)
     else if length hs = mx then Ret (-1)
     else seq (parse_field sse (length hs) buf) (\<lambda>(h, buf). parse_headers sse mx (hs @ [h]) buf)))" (is "stable_on _ ?R")
    apply (rule stable_CHECK_EOF_on)
    apply (rule stable_if_hd, simp)
     apply (rule stable_EXPECT_tl, simp, rule stable_Go)
    apply (rule stable_if_hd, simp)
     apply (rule stable_tl [where p = "\<lambda>b. Go (hs, b)"], rule stable_Go, simp)
    apply (rule stable_if, rule stable_Ret)
    apply (rule stable_on_mono [OF f], simp)
    done
  moreover have "parse_headers sse mx hs = ?R" by (intro ext) (rule parse_headers.simps)
  ultimately show ?case by (rule ssubst [rotated])
qed (simp add: stable_on_def)

lemma stable_parse_headers: "stable_on any (parse_headers sse mx hs)"
  using stable_parse_headers_n unfolding stable_on_def by blast

lemma stable_skip_sp: "stable1_on ne skip_sp"
proof -
  have "stable_at (\<lambda>s. unit_res (skip_sp s)) s" if "s \<noteq> []" for s
    using that
  proof (induction s)
    case (Cons c s)
    show ?case
    proof (cases "s = []")
      case False
      show ?thesis
      proof (cases "hd s = SP")
        case True
        with Cons.IH [OF False] False show ?thesis
          by (auto simp: stable_at_def split: phr.splits)
      next
        case f: False
        with False show ?thesis by (auto simp: stable_at_def)
      qed
    qed (simp add: stable_at_def)
  qed simp
  then show ?thesis by (simp add: stable_on_def)
qed

lemma skip_sp_end: "skip_sp s = Go r \<Longrightarrow> r \<noteq> [] \<and> hd r \<noteq> SP"
  by (induction s) (auto simp: CHECK_EOF_def split: if_splits)

lemma stable_skip_line: "stable1_on ne skip_line"
proof -
  have e: "(\<lambda>s. unit_res (skip_line s)) = (\<lambda>s. if hd s = CR then seq (EXPECT_CHAR LF (tl s)) (\<lambda>b. Go ((), b))
     else if hd s = LF then Go ((), tl s) else Go ((), s))"
    by (simp add: skip_line_def unit_res_def fun_eq_iff)
  show ?thesis unfolding e
    apply (rule stable_if_hd, simp)
     apply (rule stable_EXPECT_tl, simp, rule stable_Go)
    apply (rule stable_if_hd, simp)
     apply (rule stable_tl [where p = "\<lambda>b. Go ((), b)"], rule stable_Go, simp)
    apply (rule stable_Go)
    done
qed

lemma stable_end_line: "stable1_on ne end_line"
  by (rule stable_onI)
    (auto simp: end_line_def EXPECT_CHAR_def CHECK_EOF_def EXPECT_CHAR_NO_CHECK_def split: list.splits if_splits)

lemma stable_parse_request: "stable_on any (parse_request sse mx)"
  unfolding parse_request_def
  apply (rule stable_CHECK_EOF)
  apply (rule stable_seq1 [OF stable_skip_line, where Q = any], simp)
  apply (rule stable_seq [OF stable_parse_token, where Q = "\<lambda>_. ne"], simp, use parse_token_end in blast)
  apply (rule stable_seq1 [OF stable_skip_sp, where Q = any], simp)
  apply (rule stable_seq [OF stable_ADVANCE_TOKEN, where Q = "\<lambda>_. ne"], use ADVANCE_TOKEN_end in blast)
  apply (rule stable_seq1 [OF stable_skip_sp, where Q = any], simp)
  apply (rule stable_if, rule stable_Ret)
  apply (rule stable_seq [OF stable_http_version, where Q = "\<lambda>_. ne"], use http_version_end in blast)
  apply (rule stable_seq1 [OF stable_end_line, where Q = any], simp)
  apply (rule stable_seq [OF stable_parse_headers, where Q = "\<lambda>_. any"], simp)
  apply (rule stable_Go)
  done

lemma skip_msg_end: "s \<noteq> [] \<Longrightarrow> s = w @ b \<Longrightarrow> w \<noteq> [] \<Longrightarrow> b \<noteq> [] \<Longrightarrow> hd b \<noteq> SP \<Longrightarrow> 
  skip_msg s (length w) = Go (dropWhile (\<lambda>c. c = SP) (tl w))"
proof (induction s arbitrary: w rule: induct_list012)
  case (2 c)
  then show ?case by (cases w) auto
next
  case (3 c d r)
  obtain w' where w: "w = c # w'" using 3(4,5) by (cases w) auto
  show ?case
  proof (cases "d = SP")
    case True
    then have "w' \<noteq> []" using 3 w by (cases w') auto
    with True show ?thesis using 3(2) [of w'] 3 w by (cases w') auto
  next
    case False
    have "take (length w') (d # r) = w'" using 3(4) w by (metis append_eq_conv_conj list.inject append_Cons)
    with False show ?thesis using 3(4) w by (cases w') auto
  qed
qed simp

lemma parse_msg_eq: "parse_msg sse s = seq (get_token_to_eol sse s) (\<lambda>(msg, buf).
    if msg = [] then Go ([], buf) else if hd msg = SP then Go (dropWhile (\<lambda>c. c = SP) (tl msg), buf) else Ret (-1))"
proof (cases "get_token_to_eol sse s")
  case (Go w)
  obtain v r where w: "w = (v, r)" by (cases w)
  from get_token_to_eol_end [OF Go [unfolded w]] obtain e where e: "s = v @ e @ r" "e = [LF] \<or> e = [CR, LF]" by blast
  show ?thesis
  proof (cases "v = []")
    case False
    then have "hd s = hd v" using e by simp
    moreover have "skip_msg s (length v) = Go (dropWhile (\<lambda>c. c = SP) (tl v))"
      by (rule skip_msg_end [of _ _ "e @ r"]) (use e False in auto)
    ultimately show ?thesis using False by (simp add: parse_msg_def Go w)
  qed (simp add: parse_msg_def Go w)
qed (simp_all add: parse_msg_def)

lemma stable_parse_msg: "stable_on any (parse_msg sse)"
proof -
  have "stable_on any (\<lambda>s. seq (get_token_to_eol sse s) (\<lambda>(msg, buf).
    if msg = [] then Go ([], buf) else if hd msg = SP then Go (dropWhile (\<lambda>c. c = SP) (tl msg), buf) else Ret (-1)))"
    by (rule stable_seq [OF stable_get_token_to_eol, where Q = "\<lambda>_. any"], simp) (intro stable_if stable_Go stable_Ret)
  moreover have "parse_msg sse = (\<lambda>s. seq (get_token_to_eol sse s) (\<lambda>(msg, buf).
    if msg = [] then Go ([], buf) else if hd msg = SP then Go (dropWhile (\<lambda>c. c = SP) (tl msg), buf) else Ret (-1)))"
    by (intro ext) (rule parse_msg_eq)
  ultimately show ?thesis by simp
qed

lemma PARSE_INT_longer: "PARSE_INT m s = Go (v, r) \<Longrightarrow> Suc n \<le> length s \<Longrightarrow> n \<le> length r"
  using PARSE_INT_end by fastforce

lemma stable_PARSE_INT_3: "stable_on (\<lambda>s. 4 \<le> length s) PARSE_INT_3"
proof -
  have i: "stable_on (\<lambda>s. Suc n \<le> length s) (PARSE_INT m)" for n m
    by (rule stable_on_mono [OF stable_PARSE_INT]) auto
  have "stable_on (\<lambda>s. Suc 3 \<le> length s) PARSE_INT_3"
    unfolding PARSE_INT_3_def
    apply (rule stable_seq [OF i, where Q = "\<lambda>_ s. Suc 2 \<le> length s"], drule PARSE_INT_longer, assumption, simp)
    apply (rule stable_seq [OF i, where Q = "\<lambda>_ s. Suc 1 \<le> length s"], drule PARSE_INT_longer, assumption, simp)
    apply (rule stable_seq [OF i, where Q = "\<lambda>_. any"], simp)
    apply (rule stable_Go)
    done
  then show ?thesis by simp
qed

lemma stable_parse_response: "stable_on any (parse_response sse mx)"
  unfolding parse_response_def
  apply (rule stable_seq [OF stable_http_version, where Q = "\<lambda>_. ne"], use http_version_end in blast)
  apply (rule stable_if_hd [where f = "\<lambda>c. c \<noteq> SP"], simp, rule stable_Ret)
  apply (rule stable_on_mono [where Q = ne])
   apply (rule stable_seq1 [OF stable_skip_sp, where Q = any], simp)
   apply (rule stable_min)
   apply (rule stable_seq [OF stable_PARSE_INT_3, where Q = "\<lambda>_. any"], simp)
   apply (rule stable_seq [OF stable_parse_msg, where Q = "\<lambda>_. any"], simp)
   apply (rule stable_seq [OF stable_parse_headers, where Q = "\<lambda>_. any"], simp)
   apply (rule stable_Go, simp)
  done

section \<open>Properties of the parsers\<close>

text \<open>Both parsers of messages and the one of header fields have this shape.\<close>

definition whole :: "(string \<Rightarrow> ('a \<times> string) phr) \<Rightarrow> string \<Rightarrow> (int \<times> 'a) phr" where
  "whole p s = seq (p s) (\<lambda>(v, r). Go (c_int (int (length s - length r)), v))"

lemma whole_parsers:
  "phr_parse_request sse s mx 0 = whole (parse_request sse mx) s"
  "phr_parse_response sse s mx 0 = whole (parse_response sse mx) s"
  "phr_parse_headers sse s mx 0 = whole (parse_headers sse mx []) s"
  by (simp_all add: phr_parse_request_def phr_parse_response_def phr_parse_headers_def whole_def check_complete_def)

definition incremental :: "(string \<Rightarrow> (int \<times> 'a) phr) \<Rightarrow> bool" where
  "incremental p \<longleftrightarrow> (\<forall>s x. (case p s of
     Undefined \<Rightarrow> False
   | Ret k \<Rightarrow> k = -2 \<or> k = -1 \<and> p (s @ x) = Ret (-1)
   | Go (n, v) \<Rightarrow> p (s @ x) = Go (n, v) \<and> (int (length s) \<le> int_max \<longrightarrow> 0 \<le> n \<and> n \<le> int (length s))))"

lemma whole_incremental:
  assumes "stable_on any p"
  shows "incremental (whole p)"
  unfolding incremental_def
proof (intro allI)
  fix s x
  show "case whole p s of Undefined \<Rightarrow> False
     | Ret k \<Rightarrow> k = -2 \<or> k = -1 \<and> whole p (s @ x) = Ret (-1)
     | Go (n, v) \<Rightarrow> whole p (s @ x) = Go (n, v) \<and> (int (length s) \<le> int_max \<longrightarrow> 0 \<le> n \<and> n \<le> int (length s))"
  proof (cases "p s")
    case Undefined
    with stable_on_defined [OF assms] show ?thesis by blast
  next
    case (Ret k)
    with stable_on_Ret [OF assms TrueI Ret, of x] show ?thesis by (auto simp: whole_def)
  next
    case (Go w)
    obtain v r where w: "w = (v, r)" by (cases w)
    from stable_on_Go [OF assms TrueI Go [unfolded w], of x] obtain u where u: "s = u @ r" "p (s @ x) = Go (v, r @ x)" by blast
    have "c_int (int (length s - length r)) = int (length u)" if "int (length s) \<le> int_max"
      using that u(1) by (intro trans [OF c_int_id]) simp_all
    then show ?thesis using u Go w by (auto simp: whole_def)
  qed
qed

text \<open>C1. The parsers stay within every input; they fail with -1 or ask for more with -2; and they never
  change their mind: what failed or succeeded on some bytes does so, with the same result, when more
  bytes follow.\<close>

theorem pico_incremental:
  "incremental (\<lambda>s. phr_parse_request sse s max_headers 0) \<and>
   incremental (\<lambda>s. phr_parse_response sse s max_headers 0) \<and>
   incremental (\<lambda>s. phr_parse_headers sse s max_headers 0)"
  unfolding whole_parsers
  by (intro conjI whole_incremental stable_parse_request stable_parse_response stable_parse_headers)

section \<open>The two builds\<close>

lemma parse_token_sse: "ch = SP \<or> ch = CHR '':'' \<Longrightarrow> parse_token sse ch = parse_token False ch"
  by (rule ext) (simp only: parse_token_slow)

lemma ADVANCE_TOKEN_sse: "ADVANCE_TOKEN sse = ADVANCE_TOKEN False"
  by (rule ext) (simp only: ADVANCE_TOKEN_slow)

lemma get_token_to_eol_sse: "get_token_to_eol sse = get_token_to_eol False"
  by (rule ext) (simp only: get_token_to_eol_slow)

lemma parse_field_sse: "parse_field sse = parse_field False"
  unfolding parse_field_def field_name_def get_token_to_eol_sse [of sse] parse_token_sse [of _ sse, OF disjI2 [OF refl]] ..

lemma parse_headers_sse: "parse_headers sse mx hs s = parse_headers False mx hs s"
proof (induction "length s" arbitrary: hs s rule: less_induct)
  case less
  show ?case
    unfolding parse_headers.simps [of _ _ hs s] parse_field_sse [of sse]
    by (intro seq_cong refl if_cong) (use less parse_field_length in \<open>force simp: CHECK_EOF_def split: if_splits\<close>)
qed

text \<open>C12. Compiled with the SSE4.2 instructions or without them, the parsers compute the same results.\<close>

theorem pico_sse_equivalent:
  "phr_parse_request True = phr_parse_request False \<and> phr_parse_response True = phr_parse_response False \<and>
   phr_parse_headers True = phr_parse_headers False"
proof -
  have h: "parse_headers True = parse_headers False" by (intro ext) (rule parse_headers_sse)
  have "parse_request True = parse_request False"
    by (intro ext) (simp only: parse_request_def h parse_token_sse [of SP True] ADVANCE_TOKEN_sse [of True] simp_thms)
  moreover have "parse_response True = parse_response False"
    by (intro ext) (simp only: parse_response_def parse_msg_def h get_token_to_eol_sse [of True])
  ultimately show ?thesis
    by (intro conjI ext) (simp_all only: phr_parse_request_def phr_parse_response_def phr_parse_headers_def h)
qed

section \<open>Well-formed messages\<close>

abbreviation is_token :: "string \<Rightarrow> bool" where "is_token n \<equiv> n \<noteq> [] \<and> (\<forall>c \<in> set n. tchar (uchar c))"

definition blank :: "char \<Rightarrow> bool" where "blank c \<longleftrightarrow> c = SP \<or> c = TAB"

definition plain :: "string \<Rightarrow> bool" where
  "plain v \<longleftrightarrow> (\<forall>c \<in> set v. \<not> ctl c) \<and> (v \<noteq> [] \<longrightarrow> \<not> blank (hd v) \<and> \<not> blank (last v))"

definition phr_field :: "string \<times> string \<times> string \<Rightarrow> string" where
  "phr_field = (\<lambda>(n, w, v). n @ CHR '':'' # w @ v @ [CR, LF])"

definition good_phr_field :: "string \<times> string \<times> string \<Rightarrow> bool" where
  "good_phr_field = (\<lambda>(n, w, v). is_token n \<and> (\<forall>c \<in> set w. blank c) \<and> plain v)"

definition field_header :: "string \<times> string \<times> string \<Rightarrow> phr_header" where
  "field_header = (\<lambda>(n, w, v). \<lparr>phr_name = Some n, phr_value = v\<rparr>)"

lemma tchar_facts: "tchar (uchar c) \<Longrightarrow> c \<noteq> CR \<and> c \<noteq> LF \<and> c \<noteq> SP \<and> c \<noteq> TAB \<and> c \<noteq> CHR '':''"
  by (auto simp: tchar_def uchar_def)

lemma token_hd: "is_token n \<Longrightarrow> hd (n @ s) \<noteq> CR \<and> hd (n @ s) \<noteq> LF \<and> hd (n @ s) \<noteq> SP \<and> hd (n @ s) \<noteq> TAB"
  using tchar_facts [of "hd n"] by (cases n) auto

lemma token_loop_token:
  "\<forall>c \<in> set n. tchar (uchar c) \<Longrightarrow> ch = SP \<or> ch = CHR '':'' \<Longrightarrow> token_loop ch (n @ ch # r) = Go (ch # r)"
proof (induction n)
  case (Cons c n)
  then have "c \<noteq> ch" using tchar_facts [of c] by auto
  with Cons show ?case by (cases n) (auto simp: phr_table)
qed simp

lemma parse_token_token:
  "\<forall>c \<in> set n. tchar (uchar c) \<Longrightarrow> ch = SP \<or> ch = CHR '':'' \<Longrightarrow> parse_token sse ch (n @ ch # r) = Go (n, ch # r)"
  by (simp add: parse_token_slow token_loop_token CHECK_EOF_def)

lemma skip_ws_blanks: "\<forall>c \<in> set w. blank c \<Longrightarrow> s \<noteq> [] \<Longrightarrow> \<not> blank (hd s) \<Longrightarrow> skip_ws (w @ s) = Go s"
  by (induction w) (auto simp: blank_def neq_Nil_conv)

lemma eol_loop_text: "\<forall>c \<in> set v. \<not> ctl c \<Longrightarrow> s \<noteq> [] \<Longrightarrow> ctl (hd s) \<Longrightarrow> eol_loop (v @ s) = Go s"
  by (induction v) (auto simp: eol_loop_ctl)

lemma ctl_eol [simp]: "ctl CR" "ctl LF" "\<not> blank CR" "\<not> blank LF"
  by (simp_all add: ctl_def uchar_def blank_def)

lemma get_token_line: "\<forall>c \<in> set v. \<not> ctl c \<Longrightarrow> get_token_to_eol sse (v @ CR # LF # r) = Go (v, r)"
  by (simp add: get_token_to_eol_slow eol_loop_text found_ctl_def EXPECT_CHAR_def EXPECT_CHAR_NO_CHECK_def)

lemma trim_end_plain: "plain v \<Longrightarrow> trim_end v = v"
  by (cases v rule: rev_cases) (auto simp: trim_end_def plain_def blank_def)

lemma parse_field_good:
  assumes "good_phr_field f"
  shows "parse_field sse k (phr_field f @ r) = Go (field_header f, r)"
proof -
  obtain n w v where f: "f = (n, w, v)" by (cases f)
  have n: "n \<noteq> []" "\<forall>c \<in> set n. tchar (uchar c)" "\<forall>c \<in> set w. blank c" "plain v"
    using assms by (auto simp: good_phr_field_def f)
  have "hd (n @ s) \<noteq> SP \<and> hd (n @ s) \<noteq> TAB" for s
    using token_hd [of n s] n(1,2) by blast
  moreover have "skip_ws (w @ v @ CR # LF # r) = Go (v @ CR # LF # r)"
    by (rule skip_ws_blanks) (use n in \<open>auto simp: plain_def hd_append\<close>)
  moreover have "parse_token sse CHR '':'' (n @ CHR '':'' # w @ v @ CR # LF # r) = Go (n, CHR '':'' # w @ v @ CR # LF # r)"
    by (rule parse_token_token) (use n in auto)
  moreover have "get_token_to_eol sse (v @ CR # LF # r) = Go (v, r)"
    by (rule get_token_line) (use n in \<open>auto simp: plain_def\<close>)
  ultimately show ?thesis using n(1,4)
    by (simp add: parse_field_def f phr_field_def field_header_def field_name_def trim_end_plain)
qed

lemma parse_headers_good:
  "\<forall>f \<in> set fs. good_phr_field f \<Longrightarrow> length hs + length fs \<le> mx \<Longrightarrow>
   parse_headers sse mx hs (concat (map phr_field fs) @ CR # LF # r) = Go (hs @ map field_header fs, r)"
proof (induction fs arbitrary: hs)
  case Nil
  then show ?case by (subst parse_headers.simps) (simp add: EXPECT_CHAR_def EXPECT_CHAR_NO_CHECK_def)
next
  case (Cons f fs)
  have "phr_field f \<noteq> []" "hd (phr_field f @ s) \<noteq> CR" "hd (phr_field f @ s) \<noteq> LF" for s
    using Cons.prems(1) token_hd [of "fst f"] by (auto simp: phr_field_def good_phr_field_def split: prod.splits)
  moreover have "parse_field sse (length hs) (phr_field f @ concat (map phr_field fs) @ CR # LF # r)
      = Go (field_header f, concat (map phr_field fs) @ CR # LF # r)"
    by (rule parse_field_good) (use Cons.prems in simp)
  ultimately show ?case using Cons by (subst parse_headers.simps) simp
qed

text \<open>A request: method, path, the digit of its version, fields.\<close>

definition phr_request_text :: "string \<Rightarrow> string \<Rightarrow> char \<Rightarrow> (string \<times> string \<times> string) list \<Rightarrow> string" where
  "phr_request_text method path d fs =
     method @ SP # path @ SP # ''HTTP/1.'' @ d # CR # LF # concat (map phr_field fs) @ [CR, LF]"

definition good_path :: "string \<Rightarrow> bool" where
  "good_path p \<longleftrightarrow> p \<noteq> [] \<and> (\<forall>c \<in> set p. 32 < uchar c \<and> c \<noteq> DEL)"

lemma advance_loop_path: "\<forall>c \<in> set p. 32 < uchar c \<and> c \<noteq> DEL \<Longrightarrow> advance_loop (p @ SP # r) = Go (SP # r)"
  using advance_loop_skip [of p "SP # r"] by (simp add: clean_def in_ranges2) fastforce

lemma parse_request_text:
  assumes "is_token method" "good_path path" "48 \<le> uchar d" "uchar d \<le> 57" "\<forall>f \<in> set fs. good_phr_field f" "length fs \<le> mx"
  shows "parse_request sse mx (phr_request_text method path d fs @ r) =
    Go (\<lparr>q_method = method, q_path = path, q_minor_version = int (uchar d) - 48, q_headers = map field_header fs\<rparr>, r)"
proof -
  let ?h = "concat (map phr_field fs) @ CR # LF # r"
  let ?v = "''HTTP/1.'' @ d # CR # LF # ?h"
  let ?p = "path @ SP # ?v"
  have p: "path \<noteq> []" "\<forall>c \<in> set path. 32 < uchar c \<and> c \<noteq> DEL" using assms(2) by (simp_all add: good_path_def)
  then have "32 < uchar (hd path)" by simp
  moreover have "uchar SP = 32" by (simp add: uchar_def)
  ultimately have hp: "hd ?p \<noteq> SP" using p(1) by auto
  have m: "hd (method @ s) \<noteq> CR \<and> hd (method @ s) \<noteq> LF" for s
    using token_hd [OF assms(1)] by blast
  have "schar d = int (uchar d)" using assms(4) by (simp add: schar_def)
  then have "PARSE_INT 1 (d # CR # LF # ?h) = Go (int (uchar d) - 48, CR # LF # ?h)"
    using assms(3,4) by (simp add: PARSE_INT_def)
  moreover have "expect_all ''HTTP/1.'' ?v = Go (d # CR # LF # ?h)" by (simp only: expect_all_Go)
  moreover have "\<not> length ?v < 9" by simp
  ultimately have v: "parse_http_version ?v = Go (int (uchar d) - 48, CR # LF # ?h)"
    unfolding parse_http_version_def by (simp only: if_False seq.simps)
  have "phr_request_text method path d fs @ r = method @ SP # ?p" by (simp add: phr_request_text_def)
  moreover have "skip_line (method @ SP # ?p) = Go (method @ SP # ?p)" using m by (simp add: skip_line_def)
  moreover have "parse_token sse SP (method @ SP # ?p) = Go (method, SP # ?p)"
    by (rule parse_token_token) (use assms(1) in auto)
  moreover have "skip_sp (SP # ?p) = Go ?p" using hp by simp
  moreover have "ADVANCE_TOKEN sse ?p = Go (path, SP # ?v)"
    using advance_loop_path [OF p(2), of ?v] p(1) by (simp add: ADVANCE_TOKEN_slow)
  moreover have "skip_sp (SP # ?v) = Go ?v" by simp
  moreover have "end_line (CR # LF # ?h) = Go ?h" by (simp add: end_line_def EXPECT_CHAR_def EXPECT_CHAR_NO_CHECK_def)
  moreover have "parse_headers sse mx [] ?h = Go (map field_header fs, r)"
    using parse_headers_good [OF assms(5), of "[]" mx sse r] assms(6) by simp
  ultimately show ?thesis using assms(1) p(1) v by (simp add: parse_request_def CHECK_EOF_def)
qed

lemma phr_parse_request_text:
  assumes "is_token method" "good_path path" "48 \<le> uchar d" "uchar d \<le> 57" "\<forall>f \<in> set fs. good_phr_field f"
    and "length fs \<le> max_headers" "int (length (phr_request_text method path d fs)) \<le> int_max"
  shows "phr_parse_request sse (phr_request_text method path d fs @ rest) max_headers 0 =
    Go (int (length (phr_request_text method path d fs)),
        \<lparr>q_method = method, q_path = path, q_minor_version = int (uchar d) - 48, q_headers = map field_header fs\<rparr>)"
proof -
  have "c_int (int (length (phr_request_text method path d fs))) = int (length (phr_request_text method path d fs))"
    using assms(7) by (intro c_int_id) simp_all
  then show ?thesis using parse_request_text [OF assms(1-6), of sse rest] by (simp add: whole_parsers whole_def)
qed

text \<open>C13. Round trip: a well-formed request is parsed, to its last byte, into its method, path, version and
  header fields, whatever follows it.\<close>

theorem pico_request_roundtrip:
  assumes "is_token method" "good_path path" "48 \<le> uchar d" "uchar d \<le> 57" "\<forall>f \<in> set fs. good_phr_field f"
    and "length fs \<le> max_headers" "int (length (phr_request_text method path d fs)) \<le> int_max"
  shows "phr_parse_request sse (phr_request_text method path d fs @ rest) max_headers 0 =
    Go (int (length (phr_request_text method path d fs)),
        \<lparr>q_method = method, q_path = path, q_minor_version = int (uchar d) - 48, q_headers = map field_header fs\<rparr>)"
  by (rule phr_parse_request_text [OF assms])

lemma pico_request_roundtrip_witness:
  "phr_parse_request True (''GET /a HTTP/1.1'' @ [CR, LF] @ ''Host: x'' @ [CR, LF, CR, LF] @ ''rest'') 8 0 =
    Go (28, \<lparr>q_method = ''GET'', q_path = ''/a'', q_minor_version = 1, q_headers = [\<lparr>phr_name = Some ''Host'', phr_value = ''x''\<rparr>]\<rparr>)"
  using pico_request_roundtrip [of "''GET''" "''/a''" "CHR ''1''" "[(''Host'', '' '', ''x'')]" 8 True "''rest''"]
  by (simp add: phr_request_text_def phr_field_def good_phr_field_def field_header_def good_path_def plain_def ctl_def blank_def
      tchar_def uchar_def int_max_def)

text \<open>C24. A request of which some bytes are missing at the end is never taken for a complete or a broken
  one: the answer is -2.\<close>

theorem pico_cut_request:
  assumes "is_token method" "good_path path" "48 \<le> uchar d" "uchar d \<le> 57" "\<forall>f \<in> set fs. good_phr_field f"
    and "length fs \<le> max_headers" "phr_request_text method path d fs = s @ t" "t \<noteq> []"
  shows "phr_parse_request sse s max_headers 0 = Ret (-2)"
proof (cases "parse_request sse max_headers s")
  case Undefined
  with stable_on_defined [OF stable_parse_request] show ?thesis by blast
next
  case (Ret k)
  have "parse_request sse max_headers (s @ t) \<noteq> Ret (-1)"
    using parse_request_text [OF assms(1-6), of sse "[]"] assms(7) by simp
  with stable_on_Ret [OF stable_parse_request TrueI Ret, of t] Ret show ?thesis by (auto simp: whole_parsers whole_def)
next
  case (Go w)
  obtain q r where w: "w = (q, r)" by (cases w)
  have "parse_request sse max_headers (s @ t) = Go (q, r @ t)"
    using stable_on_Go [OF stable_parse_request TrueI Go [unfolded w]] by blast
  with parse_request_text [OF assms(1-6), of sse "[]"] assms(7,8) show ?thesis by simp
qed

lemma pico_cut_request_witness: "phr_parse_request False (''GET /a HTTP/1.1'' @ [CR, LF, CR]) 8 0 = Ret (-2)"
  by (rule pico_cut_request [of "''GET''" "''/a''" "CHR ''1''" "[]" _ _ "[LF]"])
    (simp_all add: phr_request_text_def good_path_def tchar_def uchar_def)

section \<open>The check for completeness\<close>

text \<open>What a parser of messages reads: every CR is followed by LF.\<close>

fun lined :: "string \<Rightarrow> bool" where
  "lined [] \<longleftrightarrow> True"
| "lined [c] \<longleftrightarrow> c \<noteq> CR"
| "lined (c # d # r) \<longleftrightarrow> (c = CR \<longrightarrow> d = LF) \<and> lined (d # r)"

lemma lined_append: "lined u \<Longrightarrow> lined v \<Longrightarrow> lined (u @ v)"
proof (induction u rule: lined.induct)
  case (2 c)
  then show ?case by (cases v) auto
qed auto

lemma lined_no_CR: "CR \<notin> set u \<Longrightarrow> lined u"
  by (induction u rule: lined.induct) auto

lemma lined_tl: "lined (c # u) \<Longrightarrow> lined u"
  by (cases u) auto

lemma lined_drop: "lined u \<Longrightarrow> lined (drop k u)"
  by (induction k arbitrary: u) (auto simp: drop_Suc intro: lined_tl split: list.split elim: list.exhaust_sel, metis list.sel(2,3) lined_tl list.exhaust)

definition eol :: "string \<Rightarrow> bool" where "eol e \<longleftrightarrow> e = [LF] \<or> e = [CR, LF]"

lemma complete_loop_lined:
  "lined (t @ LF # e) \<Longrightarrow> eol e \<Longrightarrow> n < 2 \<Longrightarrow> \<exists>b. complete_loop n (t @ LF # e @ r) = Go b"
proof (induction t arbitrary: n rule: length_induct)
  case (1 t)
  have last: "\<exists>b. complete_loop 1 (e @ r) = Go b" using 1(3) by (auto simp: eol_def)
  show ?case
  proof (cases t)
    case Nil
    then show ?thesis using last 1(4) by (auto simp: less_2_cases_iff)
  next
    case (Cons c u)
    have IH: "\<exists>b. complete_loop m (u @ LF # e @ r) = Go b" if "m < 2" for m
      using 1(1) 1(2,3) that Cons lined_tl [of c "u @ LF # e"] by simp
    show ?thesis
    proof (cases "c = CR")
      case True
      show ?thesis
      proof (cases u)
        case Nil
        then show ?thesis using last 1(4) Cons True by (auto simp: less_2_cases_iff)
      next
        case u: (Cons d w)
        then have "d = LF" "lined (w @ LF # e)" using 1(2) Cons True lined_tl [of d "w @ LF # e"] by auto
        moreover have "\<exists>b. complete_loop 1 (w @ LF # e @ r) = Go b"
          using 1(1,3) Cons u \<open>lined (w @ LF # e)\<close> by simp
        ultimately show ?thesis using Cons True u 1(4) by (auto simp: less_2_cases_iff)
      qed
    next
      case False
      then show ?thesis using IH [of 0] IH [of 1] Cons 1(4) by (auto simp: less_2_cases_iff)
    qed
  qed
qed

lemma seq_Go_iff: "seq p f = Go y \<longleftrightarrow> (\<exists>x. p = Go x \<and> f x = Go y)"
  by (cases p) auto

lemma token_loop_chars: "token_loop ch s = Go b \<Longrightarrow> s = v @ b \<Longrightarrow> CR \<notin> set v"
proof (induction s arbitrary: v)
  case (Cons c s)
  show ?case
  proof (cases v)
    case v: (Cons d w)
    then have e: "d = c" "s = w @ b" using Cons.prems(2) by auto
    have "length b \<le> length s" using e by simp
    then have "c \<noteq> ch" using Cons.prems(1) by (auto split: if_splits)
    with Cons.prems(1) have "phr_token_char_map ! uchar c \<noteq> 0" "token_loop ch s = Go b"
      by (auto simp: seq_Go_iff split: if_splits)
    then have "c \<noteq> CR" using tchar_facts by (auto simp: phr_table split: if_splits)
    with Cons.IH [OF \<open>token_loop ch s = Go b\<close> e(2)] v e show ?thesis by auto
  qed simp
qed simp

lemma advance_loop_chars: "advance_loop s = Go b \<Longrightarrow> hd b = SP \<and> (s = v @ b \<longrightarrow> CR \<notin> set v)"
proof (induction s arbitrary: v)
  case (Cons c s)
  show ?case
  proof (cases "c = SP")
    case True
    then show ?thesis using Cons.prems by (cases v) auto
  next
    case False
    with Cons.prems have *: "advance_loop s = Go b" "c \<noteq> CR" by (auto simp: seq_Go_iff printable_iff uchar_def split: if_splits)
    from Cons.IH [OF *(1)] have "hd b = SP" by blast
    show ?thesis
    proof (cases v)
      case (Cons d w)
      with Cons.IH [OF *(1), of w] * \<open>hd b = SP\<close> show ?thesis by auto
    qed (use \<open>hd b = SP\<close> in simp)
  qed
qed simp

lemma parse_token_lined: "ch = SP \<or> ch = CHR '':'' \<Longrightarrow> parse_token sse ch s = Go (v, b) \<Longrightarrow> s = v @ b \<and> lined v \<and> hd b = ch"
  using parse_token_end [of ch sse s v b] token_loop_chars [of ch s b v]
  by (auto simp: parse_token_slow seq_Go_iff lined_no_CR)

lemma ADVANCE_TOKEN_lined: "ADVANCE_TOKEN sse s = Go (v, b) \<Longrightarrow> s = v @ b \<and> lined v \<and> hd b = SP"
  using ADVANCE_TOKEN_end [of sse s v b] advance_loop_chars [of s b v]
  by (auto simp: ADVANCE_TOKEN_slow seq_Go_iff lined_no_CR)

lemma get_token_lined: "get_token_to_eol sse s = Go (v, r) \<Longrightarrow> \<exists>e. s = v @ e @ r \<and> eol e \<and> lined v"
  using get_token_to_eol_end [of sse s v r] by (fastforce simp: eol_def intro: lined_no_CR)

lemma eol_lined: "eol e \<Longrightarrow> lined e" by (auto simp: eol_def)

lemma skip_sp_lined: "skip_sp s = Go r \<Longrightarrow> hd s = SP \<Longrightarrow> \<exists>u. s = u @ r \<and> lined u"
proof (induction s)
  case (Cons c s)
  have c: "lined [SP]" by simp
  show ?case
  proof (cases "hd s = SP")
    case True
    with Cons obtain u where "s = u @ r" "lined u" by (auto simp: seq_Go_iff)
    with lined_append [OF c, of u] Cons.prems(2) show ?thesis by (intro exI [of _ "SP # u"]) simp
  next
    case False
    with Cons.prems c show ?thesis by (intro exI [of _ "[SP]"]) (auto simp: seq_Go_iff)
  qed
qed simp

lemma EXPECT_Go: "EXPECT_CHAR ch s = Go r \<longleftrightarrow> s = ch # r"
  by (auto simp: EXPECT_CHAR_def EXPECT_CHAR_NO_CHECK_def seq_Go_iff CHECK_EOF_def split: list.splits if_splits)

lemma end_line_eol: "end_line s = Go r \<Longrightarrow> \<exists>e. s = e @ r \<and> eol e"
  by (auto simp: end_line_def EXPECT_Go eol_def split: list.splits if_splits)

lemma skip_line_lined: "skip_line s = Go r \<Longrightarrow> s \<noteq> [] \<Longrightarrow> \<exists>u. s = u @ r \<and> lined u"
  by (cases s) (auto simp: skip_line_def EXPECT_Go split: if_splits intro: exI [of _ "[]"] exI [of _ "[CR, LF]"] exI [of _ "[LF]"])

lemma http_version_lined: "parse_http_version s = Go (v, r) \<Longrightarrow> \<exists>u. s = u @ r \<and> lined u"
proof -
  assume "parse_http_version s = Go (v, r)"
  then obtain b where b: "expect_all ''HTTP/1.'' s = Go b" "PARSE_INT 1 b = Go (v, r)"
    by (auto simp: parse_http_version_def seq_Go_iff split: if_splits)
  from b(1) have s: "s = ''HTTP/1.'' @ b" by (simp only: expect_all_Go)
  from b(2) obtain c where c: "b = c # r" "48 \<le> schar c" by (auto simp: PARSE_INT_def split: list.splits if_splits)
  then have "c \<noteq> CR" by (auto simp: schar_def uchar_def)
  have "lined (''HTTP/1.'' @ [c])" by (rule lined_no_CR) (use \<open>c \<noteq> CR\<close> in auto)
  then show ?thesis using s c(1) by (intro exI [of _ "''HTTP/1.'' @ [c]"]) simp
qed

lemma parse_field_lined:
  assumes "parse_field sse n s = Go (h, r)"
  shows "\<exists>u e. s = u @ e @ r \<and> lined u \<and> eol e"
proof -
  obtain nm b v where b: "(if \<not> (n \<noteq> 0 \<and> (hd s = SP \<or> hd s = TAB)) then field_name sse s else Go (None, s)) = Go (nm, b)"
    "get_token_to_eol sse b = Go (v, r)"
    using assms by (auto simp: parse_field_def seq_Go_iff)
  have "\<exists>u. s = u @ b \<and> lined u"
  proof (cases "n \<noteq> 0 \<and> (hd s = SP \<or> hd s = TAB)")
    case False
    with b(1) obtain t b1 where t: "parse_token sse CHR '':'' s = Go (t, b1)" "skip_ws (tl b1) = Go b"
      by (auto simp: field_name_def seq_Go_iff split: if_splits)
    have "b1 \<noteq> []" using parse_token_end [OF disjI2 [OF refl] t(1)] by blast
    from parse_token_lined [OF disjI2 [OF refl] t(1)] have s: "s = t @ b1" "lined t" "hd b1 = CHR '':''" by blast+
    from skip_ws_Go [OF t(2)] obtain w where w: "tl b1 = w @ b" "\<forall>c \<in> set w. c = SP \<or> c = TAB" by blast
    have "CR \<noteq> SP" "CR \<noteq> TAB" by simp_all
    with w(2) have "CR \<notin> set w" by metis
    then have "lined (CHR '':'' # w)" by (intro lined_no_CR) simp
    from lined_append [OF s(2) this] have "lined (t @ CHR '':'' # w)" .
    moreover have "b1 = CHR '':'' # w @ b" using s(3) w(1) \<open>b1 \<noteq> []\<close> by (cases b1) simp_all
    then have "s = (t @ CHR '':'' # w) @ b" using s(1) by simp
    ultimately show ?thesis by blast
  qed (use b(1) in \<open>auto intro: exI [of _ "[]"]\<close>)
  with get_token_lined [OF b(2)] lined_append show ?thesis by (metis append_assoc)
qed

lemma parse_headers_lined:
  "parse_headers sse mx hs s = Go (hs', r) \<Longrightarrow> \<exists>w e. s = w @ e @ r \<and> lined w \<and> eol e \<and> (w = [] \<or> last w = LF)"
proof (induction "length s" arbitrary: hs s rule: less_induct)
  case less
  have s: "s \<noteq> []" using less.prems by (subst (asm) parse_headers.simps) (auto simp: CHECK_EOF_def)
  consider "hd s = CR" | "hd s = LF" | "hd s \<noteq> CR" "hd s \<noteq> LF" by blast
  then show ?case
  proof cases
    case 1
    then have "s = [CR, LF] @ r" using less.prems s
      by (subst (asm) parse_headers.simps) (auto simp: seq_Go_iff EXPECT_Go, metis list.exhaust_sel)
    then show ?thesis by (intro exI [of _ "[]"] exI [of _ "[CR, LF]"]) (simp add: eol_def)
  next
    case 2
    then have "s = [LF] @ r" using less.prems s
      by (subst (asm) parse_headers.simps) (auto simp: seq_Go_iff, metis list.exhaust_sel)
    then show ?thesis by (intro exI [of _ "[]"] exI [of _ "[LF]"]) (simp add: eol_def)
  next
    case 3
    with less.prems s obtain h b where b: "parse_field sse (length hs) s = Go (h, b)" "parse_headers sse mx (hs @ [h]) b = Go (hs', r)"
      by (subst (asm) parse_headers.simps) (auto simp: seq_Go_iff split: if_splits)
    from less.hyps [OF parse_field_length [OF s b(1)] b(2)] obtain w e where
      w: "b = w @ e @ r" "lined w" "eol e" "w = [] \<or> last w = LF" by blast
    from parse_field_lined [OF b(1)] obtain u e' where u: "s = u @ e' @ b" "lined u" "eol e'" by blast
    have "lined (u @ e' @ w)" using u(2) eol_lined [OF u(3)] w(2) by (intro lined_append)
    moreover have "last (u @ e' @ w) = LF" using u(3) w(4) by (auto simp: eol_def)
    ultimately show ?thesis using u(1) w(1,3) by (intro exI [of _ "u @ e' @ w"] exI [of _ e]) simp
  qed
qed

lemma parse_request_lined:
  assumes "parse_request sse mx s = Go (q, r)"
  shows "\<exists>t e. s = t @ LF # e @ r \<and> lined (t @ LF # e) \<and> eol e"
proof -
  obtain b1 m b2 b3 p b4 b5 v b6 b7 hs where *: "s \<noteq> []" "skip_line s = Go b1" "parse_token sse SP b1 = Go (m, b2)"
    "skip_sp b2 = Go b3" "ADVANCE_TOKEN sse b3 = Go (p, b4)" "skip_sp b4 = Go b5" "parse_http_version b5 = Go (v, b6)"
    "end_line b6 = Go b7" "parse_headers sse mx [] b7 = Go (hs, r)"
    using assms by (auto simp: parse_request_def seq_Go_iff CHECK_EOF_def split: if_splits)
  note t = parse_token_lined [OF disjI1 [OF refl] *(3)] and a = ADVANCE_TOKEN_lined [OF *(5)]
  obtain u1 where u1: "s = u1 @ b1" "lined u1" using skip_line_lined [OF *(2,1)] by blast
  obtain u3 where u3: "b2 = u3 @ b3" "lined u3" using skip_sp_lined [OF *(4)] t by blast
  obtain u5 where u5: "b4 = u5 @ b5" "lined u5" using skip_sp_lined [OF *(6)] a by blast
  obtain u6 where u6: "b5 = u6 @ b6" "lined u6" using http_version_lined [OF *(7)] by blast
  obtain e' where e': "b6 = e' @ b7" "eol e'" using end_line_eol [OF *(8)] by blast
  obtain w e where w: "b7 = w @ e @ r" "lined w" "eol e" "w = [] \<or> last w = LF" using parse_headers_lined [OF *(9)] by blast
  define u where "u = u1 @ m @ u3 @ p @ u5 @ u6 @ e' @ w"
  have s: "s = u @ e @ r" using u1 t u3 a u5 u6 e' w by (simp add: u_def)
  have l: "lined u" unfolding u_def using u1 t u3 a u5 u6 eol_lined [OF e'(2)] w by (intro lined_append) blast+
  have "u \<noteq> []" "last u = LF" using e'(2) w(4) by (auto simp: u_def eol_def)
  then obtain t0 where u: "u = t0 @ [LF]" by (metis append_butlast_last_id)
  have "lined (u @ e)" using l eol_lined [OF w(3)] by (rule lined_append)
  with s u w(3) show ?thesis by auto
qed

text \<open>The check with \<open>last_len\<close> only saves work: a request that parses still does, with the same result,
  when the caller says that so many bytes, fewer than the request has, were not enough before.\<close>

lemma pico_last_len:
  assumes "phr_parse_request sse s max_headers 0 = Go (n, q)" "int (length s) \<le> int_max" "int last_len < n"
  shows "phr_parse_request sse s max_headers last_len = Go (n, q)"
proof -
  obtain r where p: "parse_request sse max_headers s = Go (q, r)" "n = c_int (int (length s - length r))"
    using assms(1) by (auto simp: whole_parsers whole_def seq_Go_iff)
  from parse_request_lined [OF p(1)] obtain t e where t: "s = t @ LF # e @ r" "lined (t @ LF # e)" "eol e" by blast
  have "n = int (length s - length r)" using p(2) assms(2) by (simp add: t(1))
  then have len: "last_len < length t + 1 + length e" using assms(3) t(1) by simp
  have e: "length e \<le> 2" using t(3) by (auto simp: eol_def)
  define k where "k = last_len - 3"
  have k: "k \<le> length t" "k \<le> length s" using len e t(1) by (simp_all add: k_def)
  have "lined (drop k t @ LF # e)" using lined_drop [OF t(2), of k] k(1) by simp
  from complete_loop_lined [OF this t(3), of 0 r] obtain b where b: "complete_loop 0 (drop k t @ LF # e @ r) = Go b" by auto
  have "drop k s = drop k t @ LF # e @ r" using k(1) t(1) by simp
  with b k(2) have "\<exists>b. is_complete s last_len = Go b" by (auto simp: is_complete_def k_def)
  then have "check_complete s last_len = Go ()" by (auto simp: check_complete_def)
  then show ?thesis using assms(1) by (simp add: phr_parse_request_def check_complete_def)
qed

lemma pico_last_len_witness:
  "phr_parse_request True (''GET /a HTTP/1.1'' @ [CR, LF] @ ''Host: x'' @ [CR, LF, CR, LF]) 8 20 =
    Go (28, \<lparr>q_method = ''GET'', q_path = ''/a'', q_minor_version = 1, q_headers = [\<lparr>phr_name = Some ''Host'', phr_value = ''x''\<rparr>]\<rparr>)"
  by (rule pico_last_len) (code_simp, simp_all add: int_max_def)

end
