(* ===== verification/PicoChunked.thy ===== *)
theory PicoChunked
  imports Prelude
begin

text \<open>
  \<open>phr_decode_chunked\<close> of \<open>server/pico/picohttpparser.c\<close>: the decoder of chunked bodies, which rewrites the
  received bytes in place and keeps its state from call to call in a \<open>struct phr_chunked_decoder\<close>.

  The buffer is the list of its \<open>bufsz\<close> bytes, \<open>src\<close> and \<open>dst\<close> are offsets into it. \<^term>\<open>None\<close> is
  undefined behaviour. The specification is an automaton that takes one byte at a time; the code
  refines it, whatever pieces the bytes come in.
\<close>

section \<open>The decoder\<close>

datatype chunked_state = CHUNKED_IN_CHUNK_SIZE | CHUNKED_IN_CHUNK_EXT | CHUNKED_IN_CHUNK_DATA | CHUNKED_IN_CHUNK_CRLF
  | CHUNKED_IN_TRAILERS_LINE_HEAD | CHUNKED_IN_TRAILERS_LINE_MIDDLE

record phr_chunked_decoder =
  bytes_left_in_chunk :: nat
  consume_trailer :: bool
  hex_count :: nat
  dec_state :: chunked_state

definition decode_hex :: "int \<Rightarrow> int" where
  "decode_hex ch =
     (if 48 \<le> ch \<and> ch \<le> 57 then ch - 48
      else if 65 \<le> ch \<and> ch \<le> 70 then ch - 65 + 10
      else if 97 \<le> ch \<and> ch \<le> 102 then ch - 97 + 10
      else -1)"

definition push_digit :: "int \<Rightarrow> phr_chunked_decoder \<Rightarrow> phr_chunked_decoder" where
  "push_digit v d = d\<lparr>bytes_left_in_chunk := (bytes_left_in_chunk d * 16 + nat v) mod 2 ^ 64, hex_count := hex_count d + 1\<rparr>"

text \<open>The local variables.\<close>

record phr_run =
  run_dec :: phr_chunked_decoder
  run_buf :: string
  run_dst :: nat
  run_src :: nat

text \<open>How a case of the switch ends: \<open>goto Exit\<close> with a result, \<open>goto Complete\<close>, or \<open>break\<close>.\<close>

datatype chunked_flow = Exit int | Complete | Break

type_synonym chunked_case = "phr_run \<Rightarrow> (phr_run \<times> chunked_flow) option"

definition set_state :: "chunked_state \<Rightarrow> phr_run \<Rightarrow> phr_run" where
  "set_state q r = r\<lparr>run_dec := (run_dec r)\<lparr>dec_state := q\<rparr>\<rparr>"

text \<open>The loops \<open>for (;; ++src)\<close> that leave at the end of the buffer or at a byte that \<open>stop\<close> accepts; the
  flag tells which.\<close>

function scan_src :: "(char \<Rightarrow> bool) \<Rightarrow> string \<Rightarrow> nat \<Rightarrow> (nat \<times> bool) option" where
  "scan_src stop buf src =
     (if src = length buf then Some (src, False)
      else case rd buf src of
        None \<Rightarrow> None
      | Some c \<Rightarrow> if stop c then Some (src, True) else scan_src stop buf (src + 1))"
  by pat_completeness auto
termination
  by (relation "measure (\<lambda>(stop, buf, src). length buf - src)") (auto simp: rd_Some)

declare scan_src.simps [simp del]

text \<open>The loop over the digits of a size; the last component is the result at an exit.\<close>

function size_loop :: "string \<Rightarrow> nat \<Rightarrow> phr_chunked_decoder \<Rightarrow> (nat \<times> phr_chunked_decoder \<times> int option) option" where
  "size_loop buf src d =
     (if src = length buf then Some (src, d, Some (-2))
      else case rd buf src of
        None \<Rightarrow> None
      | Some c \<Rightarrow>
          let v = decode_hex (schar c) in
          if v = -1 then Some (src, d, if hex_count d = 0 then Some (-1) else None)
          else if hex_count d = 16 then Some (src, d, Some (-1))
          else size_loop buf (src + 1) (push_digit v d))"
  by pat_completeness auto
termination
  by (relation "measure (\<lambda>(buf, src, d). length buf - src)") (auto simp: rd_Some)

declare size_loop.simps [simp del]

definition in_chunk_crlf :: chunked_case where
  "in_chunk_crlf r = do {
     (src, stopped) \<leftarrow> scan_src (\<lambda>c. c \<noteq> CR) (run_buf r) (run_src r);
     let r = r\<lparr>run_src := src\<rparr>;
     if \<not> stopped then Some (r, Exit (-2))
     else do {
       c \<leftarrow> rd (run_buf r) src;
       if c \<noteq> LF then Some (r, Exit (-1))
       else Some (set_state CHUNKED_IN_CHUNK_SIZE (r\<lparr>run_src := src + 1\<rparr>), Break)
     }
   }"

definition move_data :: "nat \<Rightarrow> phr_run \<Rightarrow> phr_run option" where
  "move_data n r = do {
     buf \<leftarrow> (if run_dst r \<noteq> run_src r then memmove (run_buf r) (run_dst r) (run_src r) n else Some (run_buf r));
     Some (r\<lparr>run_buf := buf, run_src := run_src r + n, run_dst := run_dst r + n,
            run_dec := (run_dec r)\<lparr>bytes_left_in_chunk := bytes_left_in_chunk (run_dec r) - n\<rparr>\<rparr>)
   }"

definition in_chunk_data :: chunked_case where
  "in_chunk_data r =
     (let avail = sz_sub (length (run_buf r)) (run_src r); left = bytes_left_in_chunk (run_dec r) in
      if avail < left then do { r \<leftarrow> move_data avail r; Some (r, Exit (-2)) }
      else do { r \<leftarrow> move_data left r; in_chunk_crlf (set_state CHUNKED_IN_CHUNK_CRLF r) })"

definition in_chunk_ext :: chunked_case where
  "in_chunk_ext r = do {
     (src, stopped) \<leftarrow> scan_src (\<lambda>c. c = LF) (run_buf r) (run_src r);
     if \<not> stopped then Some (r\<lparr>run_src := src\<rparr>, Exit (-2))
     else do {
       let r = r\<lparr>run_src := src + 1\<rparr>;
       if bytes_left_in_chunk (run_dec r) = 0 then
         Some (if consume_trailer (run_dec r) then (set_state CHUNKED_IN_TRAILERS_LINE_HEAD r, Break) else (r, Complete))
       else in_chunk_data (set_state CHUNKED_IN_CHUNK_DATA r)
     }
   }"

definition in_chunk_size :: chunked_case where
  "in_chunk_size r = do {
     (src, d, ret) \<leftarrow> size_loop (run_buf r) (run_src r) (run_dec r);
     let r = r\<lparr>run_src := src, run_dec := d\<rparr>;
     case ret of
       Some k \<Rightarrow> Some (r, Exit k)
     | None \<Rightarrow> in_chunk_ext (r\<lparr>run_dec := d\<lparr>hex_count := 0, dec_state := CHUNKED_IN_CHUNK_EXT\<rparr>\<rparr>)
   }"

definition in_trailers_middle :: chunked_case where
  "in_trailers_middle r = do {
     (src, stopped) \<leftarrow> scan_src (\<lambda>c. c = LF) (run_buf r) (run_src r);
     if \<not> stopped then Some (r\<lparr>run_src := src\<rparr>, Exit (-2))
     else Some (set_state CHUNKED_IN_TRAILERS_LINE_HEAD (r\<lparr>run_src := src + 1\<rparr>), Break)
   }"

definition in_trailers_head :: chunked_case where
  "in_trailers_head r = do {
     (src, stopped) \<leftarrow> scan_src (\<lambda>c. c \<noteq> CR) (run_buf r) (run_src r);
     if \<not> stopped then Some (r\<lparr>run_src := src\<rparr>, Exit (-2))
     else do {
       c \<leftarrow> rd (run_buf r) src;
       let r = r\<lparr>run_src := src + 1\<rparr>;
       if c = LF then Some (r, Complete)
       else in_trailers_middle (set_state CHUNKED_IN_TRAILERS_LINE_MIDDLE r)
     }
   }"

definition chunked_switch :: chunked_case where
  "chunked_switch r =
     (case dec_state (run_dec r) of
        CHUNKED_IN_CHUNK_SIZE \<Rightarrow> in_chunk_size r
      | CHUNKED_IN_CHUNK_EXT \<Rightarrow> in_chunk_ext r
      | CHUNKED_IN_CHUNK_DATA \<Rightarrow> in_chunk_data r
      | CHUNKED_IN_CHUNK_CRLF \<Rightarrow> in_chunk_crlf r
      | CHUNKED_IN_TRAILERS_LINE_HEAD \<Rightarrow> in_trailers_head r
      | CHUNKED_IN_TRAILERS_LINE_MIDDLE \<Rightarrow> in_trailers_middle r)"

lemma scan_src_bounds: "scan_src stop buf src = Some (k, b) \<Longrightarrow> src \<le> k \<and> k \<le> length buf \<and> (b \<longrightarrow> k < length buf)"
  by (induction stop buf src rule: scan_src.induct)
    (force simp: scan_src.simps [of _ buf src for buf src] rd_Some split: if_splits option.splits)

lemma size_loop_bounds: "size_loop buf src d = Some (k, d', x) \<Longrightarrow> src \<le> k \<and> k \<le> length buf"
  by (induction buf src d rule: size_loop.induct)
    (force simp: size_loop.simps [of buf src for buf src] rd_Some Let_def split: if_splits option.splits)

text \<open>Progress: a case that ends in \<open>break\<close> has read at least one byte, and stays within the buffer.\<close>

definition advances :: "phr_run \<Rightarrow> phr_run \<Rightarrow> bool" where
  "advances r r' \<longleftrightarrow> run_src r < run_src r' \<and> run_src r' \<le> length (run_buf r') \<and> length (run_buf r') = length (run_buf r)"

lemma set_state_simps [simp]:
  "run_buf (set_state q r) = run_buf r" "run_src (set_state q r) = run_src r" "run_dst (set_state q r) = run_dst r"
  "run_dec (set_state q r) = (run_dec r)\<lparr>dec_state := q\<rparr>"
  by (simp_all add: set_state_def)

lemma crlf_advances: "in_chunk_crlf r = Some (r', Break) \<Longrightarrow> advances r r'"
  by (auto simp: in_chunk_crlf_def advances_def Let_def rd_Some split: Option.bind_splits if_splits dest!: scan_src_bounds)

lemma move_data_bounds: "move_data n r = Some r' \<Longrightarrow> run_src r' = run_src r + n \<and> length (run_buf r') = length (run_buf r)"
  by (auto simp: move_data_def split: Option.bind_splits if_splits dest: memmove_length)

lemma data_advances: "in_chunk_data r = Some (r', Break) \<Longrightarrow> advances r r'"
  by (auto simp: in_chunk_data_def Let_def advances_def split: Option.bind_splits if_splits dest!: crlf_advances move_data_bounds)

lemma ext_advances: "in_chunk_ext r = Some (r', Break) \<Longrightarrow> advances r r'"
  by (auto simp: in_chunk_ext_def Let_def advances_def split: Option.bind_splits if_splits dest!: data_advances scan_src_bounds)

lemma size_advances: "in_chunk_size r = Some (r', Break) \<Longrightarrow> advances r r'"
  by (auto simp: in_chunk_size_def Let_def advances_def split: Option.bind_splits option.splits dest!: ext_advances size_loop_bounds)

lemma middle_advances: "in_trailers_middle r = Some (r', Break) \<Longrightarrow> advances r r'"
  by (auto simp: in_trailers_middle_def Let_def advances_def split: Option.bind_splits if_splits dest!: scan_src_bounds)

lemma head_advances: "in_trailers_head r = Some (r', Break) \<Longrightarrow> advances r r'"
  by (auto simp: in_trailers_head_def Let_def advances_def split: Option.bind_splits if_splits dest!: middle_advances scan_src_bounds)

lemma switch_advances: "chunked_switch r = Some (r', Break) \<Longrightarrow> advances r r'"
  by (auto simp: chunked_switch_def split: chunked_state.splits
      dest: crlf_advances data_advances ext_advances size_advances middle_advances head_advances)

text \<open>The loop around the switch; the last component is \<open>ret\<close>.\<close>

function chunked_loop :: "phr_run \<Rightarrow> (phr_run \<times> int) option" where
  "chunked_loop r =
     (case chunked_switch r of
        None \<Rightarrow> None
      | Some (r', Exit ret) \<Rightarrow> Some (r', ret)
      | Some (r', Complete) \<Rightarrow> Some (r', int (sz_sub (length (run_buf r')) (run_src r')))
      | Some (r', Break) \<Rightarrow> chunked_loop r')"
  by pat_completeness auto
termination
  by (relation "measure (\<lambda>r. length (run_buf r) - run_src r)") (auto dest!: switch_advances simp: advances_def)

declare chunked_loop.simps [simp del]

text \<open>The whole function: result, decoder, buffer and the new \<open>*bufsz\<close>.\<close>

definition phr_decode_chunked ::
    "phr_chunked_decoder \<Rightarrow> string \<Rightarrow> (int \<times> phr_chunked_decoder \<times> string \<times> nat) option" where
  "phr_decode_chunked decoder buf = do {
     (r, ret) \<leftarrow> chunked_loop \<lparr>run_dec = decoder, run_buf = buf, run_dst = 0, run_src = 0\<rparr>;
     buf' \<leftarrow> (if run_dst r \<noteq> run_src r
        then memmove (run_buf r) (run_dst r) (run_src r) (sz_sub (length (run_buf r)) (run_src r)) else Some (run_buf r));
     Some (ret, run_dec r, buf', run_dst r)
   }"

definition phr_decode_chunked_is_in_data :: "phr_chunked_decoder \<Rightarrow> bool" where
  "phr_decode_chunked_is_in_data decoder \<longleftrightarrow> dec_state decoder = CHUNKED_IN_CHUNK_DATA"

section \<open>The specification: one byte at a time\<close>

datatype chunked_event = More phr_chunked_decoder string | Broken | Ended

definition chunked_ext_byte :: "phr_chunked_decoder \<Rightarrow> char \<Rightarrow> chunked_event" where
  "chunked_ext_byte d c =
     (if c \<noteq> LF then More (d\<lparr>dec_state := CHUNKED_IN_CHUNK_EXT\<rparr>) []
      else if bytes_left_in_chunk d \<noteq> 0 then More (d\<lparr>dec_state := CHUNKED_IN_CHUNK_DATA\<rparr>) []
      else if consume_trailer d then More (d\<lparr>dec_state := CHUNKED_IN_TRAILERS_LINE_HEAD\<rparr>) []
      else Ended)"

definition chunked_byte :: "phr_chunked_decoder \<Rightarrow> char \<Rightarrow> chunked_event" where
  "chunked_byte d c =
     (case dec_state d of
        CHUNKED_IN_CHUNK_SIZE \<Rightarrow>
          (let v = decode_hex (schar c) in
           if v = -1 then (if hex_count d = 0 then Broken else chunked_ext_byte (d\<lparr>hex_count := 0\<rparr>) c)
           else if hex_count d = 16 then Broken
           else More (push_digit v d) [])
      | CHUNKED_IN_CHUNK_EXT \<Rightarrow> chunked_ext_byte d c
      | CHUNKED_IN_CHUNK_DATA \<Rightarrow>
          More (d\<lparr>bytes_left_in_chunk := bytes_left_in_chunk d - 1,
             dec_state := if bytes_left_in_chunk d = 1 then CHUNKED_IN_CHUNK_CRLF else CHUNKED_IN_CHUNK_DATA\<rparr>) [c]
      | CHUNKED_IN_CHUNK_CRLF \<Rightarrow>
          (if c = CR then More d [] else if c = LF then More (d\<lparr>dec_state := CHUNKED_IN_CHUNK_SIZE\<rparr>) [] else Broken)
      | CHUNKED_IN_TRAILERS_LINE_HEAD \<Rightarrow>
          (if c = CR then More d [] else if c = LF then Ended else More (d\<lparr>dec_state := CHUNKED_IN_TRAILERS_LINE_MIDDLE\<rparr>) [])
      | CHUNKED_IN_TRAILERS_LINE_MIDDLE \<Rightarrow>
          (if c = LF then More (d\<lparr>dec_state := CHUNKED_IN_TRAILERS_LINE_HEAD\<rparr>) [] else More d []))"

text \<open>What comes of a sequence of bytes: the decoder that wants more of them, a broken encoding, or the end
  with the bytes behind it.\<close>

datatype chunked_verdict = Wants phr_chunked_decoder | Invalid | Done string

fun chunked_feed :: "phr_chunked_decoder \<Rightarrow> string \<Rightarrow> chunked_verdict \<times> string" where
  "chunked_feed d [] = (Wants d, [])"
| "chunked_feed d (c # s) =
     (case chunked_byte d c of
        More d' out \<Rightarrow> apsnd ((@) out) (chunked_feed d' s)
      | Broken \<Rightarrow> (Invalid, [])
      | Ended \<Rightarrow> (Done s, []))"

text \<open>In the data of a chunk there is something left to read.\<close>

definition decoder_ok :: "phr_chunked_decoder \<Rightarrow> bool" where
  "decoder_ok d \<longleftrightarrow> (dec_state d = CHUNKED_IN_CHUNK_DATA \<longrightarrow> bytes_left_in_chunk d \<noteq> 0)"

section \<open>The automaton in larger steps\<close>

lemma same_state [simp]: "dec_state d = q \<Longrightarrow> d\<lparr>dec_state := q\<rparr> = d"
  by (cases d) simp

lemma chunked_feed_append:
  "chunked_feed d (a @ b) =
     (case chunked_feed d a of
        (Wants d', out) \<Rightarrow> apsnd ((@) out) (chunked_feed d' b)
      | (Invalid, out) \<Rightarrow> (Invalid, out)
      | (Done s, out) \<Rightarrow> (Done (s @ b), out))"
proof (induction a arbitrary: d)
  case (Cons c a)
  show ?case
  proof (cases "chunked_byte d c")
    case (More d' out)
    with Cons.IH [of d'] show ?thesis
      by (auto simp: apsnd_def map_prod_def split_beta split: chunked_verdict.split prod.split)
  qed simp_all
qed (simp add: apsnd_def map_prod_def split_beta)

lemma feed_crlf:
  "dec_state d = CHUNKED_IN_CHUNK_CRLF \<Longrightarrow>
   chunked_feed d s = (case dropWhile (\<lambda>c. c = CR) s of
     [] \<Rightarrow> (Wants d, [])
   | c # t \<Rightarrow> if c = LF then chunked_feed (d\<lparr>dec_state := CHUNKED_IN_CHUNK_SIZE\<rparr>) t else (Invalid, []))"
  by (induction s) (auto simp: chunked_byte_def apsnd_def map_prod_def split_beta)

lemma feed_head:
  "dec_state d = CHUNKED_IN_TRAILERS_LINE_HEAD \<Longrightarrow>
   chunked_feed d s = (case dropWhile (\<lambda>c. c = CR) s of
     [] \<Rightarrow> (Wants d, [])
   | c # t \<Rightarrow> if c = LF then (Done t, []) else chunked_feed (d\<lparr>dec_state := CHUNKED_IN_TRAILERS_LINE_MIDDLE\<rparr>) t)"
  by (induction s) (auto simp: chunked_byte_def apsnd_def map_prod_def split_beta)

lemma feed_middle:
  "dec_state d = CHUNKED_IN_TRAILERS_LINE_MIDDLE \<Longrightarrow>
   chunked_feed d s = (case dropWhile (\<lambda>c. c \<noteq> LF) s of
     [] \<Rightarrow> (Wants d, [])
   | c # t \<Rightarrow> chunked_feed (d\<lparr>dec_state := CHUNKED_IN_TRAILERS_LINE_HEAD\<rparr>) t)"
  by (induction s) (auto simp: chunked_byte_def apsnd_def map_prod_def split_beta)

lemma feed_ext:
  "dec_state d = CHUNKED_IN_CHUNK_EXT \<Longrightarrow>
   chunked_feed d s = (case dropWhile (\<lambda>c. c \<noteq> LF) s of
     [] \<Rightarrow> (Wants d, [])
   | c # t \<Rightarrow>
       if bytes_left_in_chunk d \<noteq> 0 then chunked_feed (d\<lparr>dec_state := CHUNKED_IN_CHUNK_DATA\<rparr>) t
       else if consume_trailer d then chunked_feed (d\<lparr>dec_state := CHUNKED_IN_TRAILERS_LINE_HEAD\<rparr>) t
       else (Done t, []))"
  by (induction s) (auto simp: chunked_byte_def chunked_ext_byte_def apsnd_def map_prod_def split_beta)

lemma feed_data:
  assumes "dec_state d = CHUNKED_IN_CHUNK_DATA" "bytes_left_in_chunk d \<noteq> 0"
  shows "length s < bytes_left_in_chunk d \<Longrightarrow>
      chunked_feed d s = (Wants (d\<lparr>bytes_left_in_chunk := bytes_left_in_chunk d - length s\<rparr>), s)"
    "bytes_left_in_chunk d \<le> length s \<Longrightarrow> chunked_feed d s = apsnd ((@) (take (bytes_left_in_chunk d) s))
      (chunked_feed (d\<lparr>bytes_left_in_chunk := 0, dec_state := CHUNKED_IN_CHUNK_CRLF\<rparr>) (drop (bytes_left_in_chunk d) s))"
proof -
  have *: "(length s < bytes_left_in_chunk d \<longrightarrow>
      chunked_feed d s = (Wants (d\<lparr>bytes_left_in_chunk := bytes_left_in_chunk d - length s\<rparr>), s)) \<and>
    (bytes_left_in_chunk d \<le> length s \<longrightarrow> chunked_feed d s = apsnd ((@) (take (bytes_left_in_chunk d) s))
      (chunked_feed (d\<lparr>bytes_left_in_chunk := 0, dec_state := CHUNKED_IN_CHUNK_CRLF\<rparr>) (drop (bytes_left_in_chunk d) s)))"
    using assms
  proof (induction s arbitrary: d)
    case Nil
    then show ?case by (cases d) simp
  next
    case (Cons c s)
    obtain n where n: "bytes_left_in_chunk d = Suc n" using Cons.prems(2) by (cases "bytes_left_in_chunk d") auto
    show ?case
    proof (cases n)
      case 0
      then show ?thesis using n Cons.prems by (simp add: chunked_byte_def)
    next
      case (Suc m)
      have d: "d\<lparr>bytes_left_in_chunk := n, dec_state := CHUNKED_IN_CHUNK_DATA\<rparr> = d\<lparr>bytes_left_in_chunk := n\<rparr>"
        using Cons.prems(1) by (cases d) simp
      show ?thesis using Cons.IH [of "d\<lparr>bytes_left_in_chunk := n\<rparr>"] Cons.prems n Suc
        by (auto simp: chunked_byte_def d apsnd_def map_prod_def split_beta)
    qed
  qed
  show "length s < bytes_left_in_chunk d \<Longrightarrow>
      chunked_feed d s = (Wants (d\<lparr>bytes_left_in_chunk := bytes_left_in_chunk d - length s\<rparr>), s)"
    "bytes_left_in_chunk d \<le> length s \<Longrightarrow> chunked_feed d s = apsnd ((@) (take (bytes_left_in_chunk d) s))
      (chunked_feed (d\<lparr>bytes_left_in_chunk := 0, dec_state := CHUNKED_IN_CHUNK_CRLF\<rparr>) (drop (bytes_left_in_chunk d) s))"
    using * by blast+
qed

lemma feed_size:
  assumes "dec_state d = CHUNKED_IN_CHUNK_SIZE" "src \<le> length buf"
  shows "\<exists>k d' x. size_loop buf src d = Some (k, d', x) \<and> src \<le> k \<and> k \<le> length buf \<and> dec_state d' = CHUNKED_IN_CHUNK_SIZE \<and>
    (case x of
       Some e \<Rightarrow> e = -2 \<and> k = length buf \<and> chunked_feed d (drop src buf) = (Wants d', []) \<or>
                e = -1 \<and> chunked_feed d (drop src buf) = (Invalid, [])
     | None \<Rightarrow> chunked_feed d (drop src buf) = chunked_feed (d'\<lparr>hex_count := 0, dec_state := CHUNKED_IN_CHUNK_EXT\<rparr>) (drop k buf))"
  using assms
proof (induction buf src d rule: size_loop.induct)
  case (1 buf src d)
  show ?case
  proof (cases "src = length buf")
    case True
    then show ?thesis using 1(2) by (subst size_loop.simps) simp
  next
    case False
    then have s: "rd buf src = Some (buf ! src)" "drop src buf = buf ! src # drop (Suc src) buf"
      using 1(3) by (simp_all add: Cons_nth_drop_Suc)
    let ?v = "decode_hex (schar (buf ! src))"
    show ?thesis
    proof (cases "?v = -1 \<or> hex_count d = 16")
      case True
      then show ?thesis using False s 1(2,3)
        by (subst size_loop.simps) (auto simp: Let_def chunked_byte_def chunked_ext_byte_def)
    next
      case n: False
      have "dec_state (push_digit ?v d) = CHUNKED_IN_CHUNK_SIZE" using 1(2) by (simp add: push_digit_def)
      from 1(1) [OF False s(1) refl _ _ this] n False 1(3) obtain k d' x where *:
        "size_loop buf (src + 1) (push_digit ?v d) = Some (k, d', x)" "src + 1 \<le> k" "k \<le> length buf" "dec_state d' = CHUNKED_IN_CHUNK_SIZE"
        "case x of
           Some e \<Rightarrow> e = -2 \<and> k = length buf \<and> chunked_feed (push_digit ?v d) (drop (src + 1) buf) = (Wants d', []) \<or>
                e = -1 \<and> chunked_feed (push_digit ?v d) (drop (src + 1) buf) = (Invalid, [])
         | None \<Rightarrow> chunked_feed (push_digit ?v d) (drop (src + 1) buf) =
             chunked_feed (d'\<lparr>hex_count := 0, dec_state := CHUNKED_IN_CHUNK_EXT\<rparr>) (drop k buf)"
        by auto
      have e1: "chunked_feed d (drop src buf) = chunked_feed (push_digit ?v d) (drop (src + 1) buf)"
        using n s 1(2) by (simp add: chunked_byte_def apsnd_def map_prod_def split_beta)
      have e2: "size_loop buf src d = size_loop buf (src + 1) (push_digit ?v d)"
        using n False s by (subst size_loop.simps) (simp add: Let_def)
      show ?thesis unfolding e1 e2 using * by (intro exI [of _ k] exI [of _ d'] exI [of _ x] conjI) simp_all
    qed
  qed
qed

lemma scan_src_eq:
  "src \<le> length buf \<Longrightarrow> scan_src stop buf src =
     Some (src + length (takeWhile (\<lambda>c. \<not> stop c) (drop src buf)), dropWhile (\<lambda>c. \<not> stop c) (drop src buf) \<noteq> [])"
proof (induction stop buf src rule: scan_src.induct)
  case (1 stop buf src)
  show ?case
  proof (cases "src = length buf")
    case False
    then have s: "rd buf src = Some (buf ! src)" "drop src buf = buf ! src # drop (Suc src) buf"
      using 1(2) by (simp_all add: Cons_nth_drop_Suc)
    then show ?thesis using 1(1) [OF False s(1)] 1(2) False by (subst scan_src.simps) auto
  qed (subst scan_src.simps, simp)
qed

section \<open>The code refines the automaton\<close>

definition unread :: "phr_run \<Rightarrow> string" where "unread r = drop (run_src r) (run_buf r)"
definition written :: "phr_run \<Rightarrow> string" where "written r = take (run_dst r) (run_buf r)"

definition run_ok :: "phr_run \<Rightarrow> bool" where
  "run_ok r \<longleftrightarrow> run_dst r \<le> run_src r \<and> run_src r \<le> length (run_buf r)"

lemma run_at:
  "run_ok r \<Longrightarrow> run_src r \<le> k \<Longrightarrow> k \<le> length (run_buf r) \<Longrightarrow> run_ok (r\<lparr>run_src := k\<rparr>)"
  "unread (r\<lparr>run_src := k\<rparr>) = drop k (run_buf r)"
  by (simp_all add: run_ok_def unread_def)

lemma set_state_views [simp]:
  "unread (set_state q r) = unread r" "written (set_state q r) = written r" "run_ok (set_state q r) = run_ok r"
  by (simp_all add: unread_def written_def run_ok_def)

text \<open>\<open>accounts r' flow out f\<close>: with the run in state \<open>r'\<close> after a case that ended in \<open>flow\<close> and wrote \<open>out\<close>,
  the automaton's account of the bytes is \<open>f\<close>.\<close>

fun accounts :: "phr_run \<Rightarrow> chunked_flow \<Rightarrow> string \<Rightarrow> chunked_verdict \<times> string \<Rightarrow> bool" where
  "accounts r Break out f \<longleftrightarrow> decoder_ok (run_dec r) \<and> f = apsnd ((@) out) (chunked_feed (run_dec r) (unread r))"
| "accounts r Complete out f \<longleftrightarrow> f = (Done (unread r), out)"
| "accounts r (Exit k) out f \<longleftrightarrow> k = -2 \<and> unread r = [] \<and> f = (Wants (run_dec r), out) \<or> k = -1 \<and> f = (Invalid, out)"

definition meets :: "phr_run \<Rightarrow> (phr_run \<times> chunked_flow) option \<Rightarrow> chunked_verdict \<times> string \<Rightarrow> bool" where
  "meets r res f \<longleftrightarrow> (\<exists>r' flow out. res = Some (r', flow) \<and> run_ok r' \<and> length (run_buf r') = length (run_buf r) \<and>
     written r' = written r @ out \<and> accounts r' flow out f)"

lemma apsnd_append_Nil [simp]: "apsnd ((@) []) f = f"
  by (cases f) simp

lemma meets_from:
  assumes "meets r1 res f1" "length (run_buf r1) = length (run_buf r)" "written r1 = written r @ out1" "f = apsnd ((@) out1) f1"
  shows "meets r res f"
proof -
  obtain r' flow out where *: "res = Some (r', flow)" "run_ok r'" "length (run_buf r') = length (run_buf r1)"
    "written r' = written r1 @ out" "accounts r' flow out f1" using assms(1) by (auto simp: meets_def)
  have "accounts r' flow (out1 @ out) f"
    using *(5) assms(4) by (cases flow) (auto simp: apsnd_def map_prod_def split_beta)
  then show ?thesis using * assms(2,3) by (auto simp: meets_def)
qed

lemma meets_same:
  "meets r1 res f \<Longrightarrow> run_buf r1 = run_buf r \<Longrightarrow> run_dst r1 = run_dst r \<Longrightarrow> meets r res f"
  using meets_from [of r1 res f r "[]" f] by (simp add: written_def)

lemma meets_stop:
  "run_ok r' \<Longrightarrow> run_buf r' = run_buf r \<Longrightarrow> run_dst r' = run_dst r \<Longrightarrow> accounts r' flow [] f \<Longrightarrow> meets r (Some (r', flow)) f"
  by (auto simp: meets_def written_def)

text \<open>Where a scan stops.\<close>

lemma scan_src_unread:
  assumes "run_ok r"
  shows "\<exists>k. scan_src stop (run_buf r) (run_src r) = Some (k, dropWhile (\<lambda>c. \<not> stop c) (unread r) \<noteq> []) \<and>
    run_src r \<le> k \<and> k \<le> length (run_buf r) \<and> drop k (run_buf r) = dropWhile (\<lambda>c. \<not> stop c) (unread r)"
proof -
  have "length (takeWhile (\<lambda>c. \<not> stop c) (unread r)) \<le> length (unread r)" by (rule length_takeWhile_le)
  then show ?thesis using assms scan_src_eq [of "run_src r" "run_buf r" stop]
    by (auto simp: run_ok_def unread_def dropWhile_eq_drop add.commute)
qed

lemma drop_Cons_facts: "drop k b = c # t \<Longrightarrow> k < length b \<and> b ! k = c \<and> drop (Suc k) b = t"
  by (metis Cons_nth_drop_Suc drop_all list.inject list.discI not_le)

lemma meets_crlf:
  assumes "run_ok r" "dec_state (run_dec r) = CHUNKED_IN_CHUNK_CRLF"
  shows "meets r (in_chunk_crlf r) (chunked_feed (run_dec r) (unread r))"
proof -
  obtain k where k: "scan_src (\<lambda>c. c \<noteq> CR) (run_buf r) (run_src r) = Some (k, dropWhile (\<lambda>c. c = CR) (unread r) \<noteq> [])"
    "run_src r \<le> k" "k \<le> length (run_buf r)" "drop k (run_buf r) = dropWhile (\<lambda>c. c = CR) (unread r)"
    using scan_src_unread [OF assms(1), of "\<lambda>c. c \<noteq> CR"] by auto
  have ok: "run_ok (r\<lparr>run_src := k\<rparr>)" using k assms(1) by (simp add: run_ok_def)
  show ?thesis
  proof (cases "dropWhile (\<lambda>c. c = CR) (unread r)")
    case Nil
    have "in_chunk_crlf r = Some (r\<lparr>run_src := k\<rparr>, Exit (-2))" using k Nil by (simp add: in_chunk_crlf_def)
    moreover have "unread (r\<lparr>run_src := k\<rparr>) = []" "run_ok (r\<lparr>run_src := k\<rparr>)"
      using run_at(1) [OF assms(1) k(2,3)] run_at(2) [of k r] k(4) Nil by simp_all
    ultimately show ?thesis using Nil assms(2) by (simp add: feed_crlf meets_stop del: dropWhile_eq_Nil_conv)
  next
    case (Cons c t)
    note d = drop_Cons_facts [OF k(4) [unfolded Cons]]
    show ?thesis
    proof (cases "c = LF")
      case True
      have "in_chunk_crlf r = Some (set_state CHUNKED_IN_CHUNK_SIZE (r\<lparr>run_src := k + 1\<rparr>), Break)"
        using k Cons d True by (simp add: in_chunk_crlf_def Let_def)
      moreover have "unread (r\<lparr>run_src := k + 1\<rparr>) = t" "run_ok (r\<lparr>run_src := k + 1\<rparr>)" using d k assms(1) by (simp_all add: unread_def run_ok_def)
      ultimately show ?thesis using Cons True assms(2)
        by (simp add: feed_crlf meets_stop decoder_ok_def)
    next
      case False
      have "in_chunk_crlf r = Some (r\<lparr>run_src := k\<rparr>, Exit (-1))"
        using k Cons d False by (simp add: in_chunk_crlf_def Let_def)
      then show ?thesis using Cons False assms ok by (auto intro!: meets_stop simp: feed_crlf)
    qed
  qed
qed

lemma meets_middle:
  assumes "run_ok r" "dec_state (run_dec r) = CHUNKED_IN_TRAILERS_LINE_MIDDLE"
  shows "meets r (in_trailers_middle r) (chunked_feed (run_dec r) (unread r))"
proof -
  obtain k where k: "scan_src (\<lambda>c. c = LF) (run_buf r) (run_src r) = Some (k, dropWhile (\<lambda>c. c \<noteq> LF) (unread r) \<noteq> [])"
    "run_src r \<le> k" "k \<le> length (run_buf r)" "drop k (run_buf r) = dropWhile (\<lambda>c. c \<noteq> LF) (unread r)"
    using scan_src_unread [OF assms(1), of "\<lambda>c. c = LF"] by auto
  show ?thesis
  proof (cases "dropWhile (\<lambda>c. c \<noteq> LF) (unread r)")
    case Nil
    have "in_trailers_middle r = Some (r\<lparr>run_src := k\<rparr>, Exit (-2))" using k Nil by (simp add: in_trailers_middle_def)
    moreover have "unread (r\<lparr>run_src := k\<rparr>) = []" "run_ok (r\<lparr>run_src := k\<rparr>)"
      using run_at(1) [OF assms(1) k(2,3)] run_at(2) [of k r] k(4) Nil by simp_all
    ultimately show ?thesis using Nil assms(2) by (simp add: feed_middle meets_stop del: dropWhile_eq_Nil_conv)
  next
    case (Cons c t)
    note d = drop_Cons_facts [OF k(4) [unfolded Cons]]
    have "in_trailers_middle r = Some (set_state CHUNKED_IN_TRAILERS_LINE_HEAD (r\<lparr>run_src := k + 1\<rparr>), Break)"
      using k Cons by (simp add: in_trailers_middle_def)
    moreover have "unread (r\<lparr>run_src := k + 1\<rparr>) = t" "run_ok (r\<lparr>run_src := k + 1\<rparr>)" using d k assms(1) by (simp_all add: unread_def run_ok_def)
    ultimately show ?thesis using Cons assms(2)
      by (simp add: feed_middle meets_stop decoder_ok_def)
  qed
qed

lemma meets_head:
  assumes "run_ok r" "dec_state (run_dec r) = CHUNKED_IN_TRAILERS_LINE_HEAD"
  shows "meets r (in_trailers_head r) (chunked_feed (run_dec r) (unread r))"
proof -
  obtain k where k: "scan_src (\<lambda>c. c \<noteq> CR) (run_buf r) (run_src r) = Some (k, dropWhile (\<lambda>c. c = CR) (unread r) \<noteq> [])"
    "run_src r \<le> k" "k \<le> length (run_buf r)" "drop k (run_buf r) = dropWhile (\<lambda>c. c = CR) (unread r)"
    using scan_src_unread [OF assms(1), of "\<lambda>c. c \<noteq> CR"] by auto
  show ?thesis
  proof (cases "dropWhile (\<lambda>c. c = CR) (unread r)")
    case Nil
    have "in_trailers_head r = Some (r\<lparr>run_src := k\<rparr>, Exit (-2))" using k Nil by (simp add: in_trailers_head_def)
    moreover have "unread (r\<lparr>run_src := k\<rparr>) = []" "run_ok (r\<lparr>run_src := k\<rparr>)"
      using run_at(1) [OF assms(1) k(2,3)] run_at(2) [of k r] k(4) Nil by simp_all
    ultimately show ?thesis using Nil assms(2) by (simp add: feed_head meets_stop del: dropWhile_eq_Nil_conv)
  next
    case (Cons c t)
    note d = drop_Cons_facts [OF k(4) [unfolded Cons]]
    let ?r = "r\<lparr>run_src := k + 1\<rparr>" and ?m = "set_state CHUNKED_IN_TRAILERS_LINE_MIDDLE (r\<lparr>run_src := k + 1\<rparr>)"
    have ok: "run_ok ?r" "unread ?r = t" using k assms(1) d by (simp_all add: run_ok_def unread_def)
    show ?thesis
    proof (cases "c = LF")
      case True
      have "in_trailers_head r = Some (?r, Complete)" using k Cons d True by (simp add: in_trailers_head_def Let_def)
      then show ?thesis using Cons True assms(2) ok by (simp add: feed_head meets_stop)
    next
      case False
      have e: "in_trailers_head r = in_trailers_middle ?m" using k Cons d False by (simp add: in_trailers_head_def Let_def)
      have "run_ok ?m" "unread ?m = t" using ok by (simp_all add: run_ok_def unread_def)
      with meets_middle [of ?m] have "meets ?m (in_trailers_head r) (chunked_feed (run_dec ?m) t)" unfolding e by simp
      then have "meets r (in_trailers_head r) (chunked_feed (run_dec ?m) t)" by (rule meets_same) simp_all
      then show ?thesis using Cons False assms(2) by (simp add: feed_head)
    qed
  qed
qed

text \<open>Moving \<open>n\<close> bytes of data: they are appended to what is written; what is unread stays.\<close>

lemma move_data_ok:
  assumes "run_ok r" "n \<le> length (unread r)"
  shows "\<exists>r'. move_data n r = Some r' \<and> run_ok r' \<and> length (run_buf r') = length (run_buf r) \<and>
    written r' = written r @ take n (unread r) \<and> unread r' = drop n (unread r) \<and>
    run_dec r' = (run_dec r)\<lparr>bytes_left_in_chunk := bytes_left_in_chunk (run_dec r) - n\<rparr>"
proof -
  let ?b = "run_buf r" and ?d = "run_dst r" and ?s = "run_src r"
  have l: "?d \<le> ?s" "?s + n \<le> length ?b" using assms by (auto simp: run_ok_def unread_def)
  define b' where "b' = take ?d ?b @ take n (drop ?s ?b) @ drop (?d + n) ?b"
  have lb: "length b' = length ?b" using l by (simp add: b'_def)
  have "(if ?d \<noteq> ?s then memmove ?b ?d ?s n else Some ?b) = Some b'"
    using l by (simp add: memmove_def b'_def add.commute [of n]) (metis append_take_drop_id drop_drop add.commute)
  then have "move_data n r = Some (r\<lparr>run_buf := b', run_src := ?s + n, run_dst := ?d + n,
      run_dec := (run_dec r)\<lparr>bytes_left_in_chunk := bytes_left_in_chunk (run_dec r) - n\<rparr>\<rparr>)" by (simp add: move_data_def)
  moreover have "take (?d + n) b' = take ?d ?b @ take n (drop ?s ?b)" using l by (simp add: b'_def)
  moreover have "drop (?s + n) b' = drop (?s + n) ?b"
  proof -
    have "length (take ?d ?b @ take n (drop ?s ?b)) = ?d + n" using l by simp
    then have "drop (?s + n) b' = drop (?s - ?d) (drop (?d + n) ?b)" using l unfolding b'_def append_assoc [symmetric]
      by (subst drop_append) simp
    then show ?thesis using l by simp
  qed
  ultimately show ?thesis using l lb by (auto simp: run_ok_def written_def unread_def add.commute)
qed

lemma meets_data:
  assumes "run_ok r" "dec_state (run_dec r) = CHUNKED_IN_CHUNK_DATA" "bytes_left_in_chunk (run_dec r) \<noteq> 0"
  shows "meets r (in_chunk_data r) (chunked_feed (run_dec r) (unread r))"
proof -
  let ?left = "bytes_left_in_chunk (run_dec r)"
  have avail: "sz_sub (length (run_buf r)) (run_src r) = length (unread r)" using assms(1) by (simp add: run_ok_def unread_def)
  show ?thesis
  proof (cases "length (unread r) < ?left")
    case True
    obtain r' where r': "move_data (length (unread r)) r = Some r'" "run_ok r'" "length (run_buf r') = length (run_buf r)"
      "written r' = written r @ unread r" "unread r' = []"
      "run_dec r' = (run_dec r)\<lparr>bytes_left_in_chunk := ?left - length (unread r)\<rparr>"
      using move_data_ok [OF assms(1), of "length (unread r)"] by auto
    with True have "in_chunk_data r = Some (r', Exit (-2))" by (simp add: in_chunk_data_def avail)
    then show ?thesis using r' feed_data(1) [OF assms(2,3) True] by (auto simp: meets_def)
  next
    case False
    then obtain r' where r': "move_data ?left r = Some r'" "run_ok r'" "length (run_buf r') = length (run_buf r)"
      "written r' = written r @ take ?left (unread r)" "unread r' = drop ?left (unread r)"
      "run_dec r' = (run_dec r)\<lparr>bytes_left_in_chunk := 0\<rparr>"
      using move_data_ok [OF assms(1), of ?left] by auto
    let ?c = "set_state CHUNKED_IN_CHUNK_CRLF r'"
    have e: "in_chunk_data r = in_chunk_crlf ?c" using False r'(1) by (simp add: in_chunk_data_def avail)
    have c: "run_ok ?c" "unread ?c = unread r'" "written ?c = written r'" using r'(2) by (simp_all add: run_ok_def unread_def written_def)
    have "meets ?c (in_chunk_data r) (chunked_feed (run_dec ?c) (unread ?c))" unfolding e by (rule meets_crlf) (use c in simp_all)
    then show ?thesis
      by (rule meets_from) (use r' c False feed_data(2) [OF assms(2,3), of "unread r"] in simp_all)
  qed
qed

lemma meets_ext:
  assumes "run_ok r" "dec_state (run_dec r) = CHUNKED_IN_CHUNK_EXT"
  shows "meets r (in_chunk_ext r) (chunked_feed (run_dec r) (unread r))"
proof -
  obtain k where k: "scan_src (\<lambda>c. c = LF) (run_buf r) (run_src r) = Some (k, dropWhile (\<lambda>c. c \<noteq> LF) (unread r) \<noteq> [])"
    "run_src r \<le> k" "k \<le> length (run_buf r)" "drop k (run_buf r) = dropWhile (\<lambda>c. c \<noteq> LF) (unread r)"
    using scan_src_unread [OF assms(1), of "\<lambda>c. c = LF"] by auto
  show ?thesis
  proof (cases "dropWhile (\<lambda>c. c \<noteq> LF) (unread r)")
    case Nil
    have "in_chunk_ext r = Some (r\<lparr>run_src := k\<rparr>, Exit (-2))" using k Nil by (simp add: in_chunk_ext_def)
    moreover have "unread (r\<lparr>run_src := k\<rparr>) = []" "run_ok (r\<lparr>run_src := k\<rparr>)"
      using run_at(1) [OF assms(1) k(2,3)] run_at(2) [of k r] k(4) Nil by simp_all
    ultimately show ?thesis using Nil assms(2) by (simp add: feed_ext meets_stop del: dropWhile_eq_Nil_conv)
  next
    case (Cons c t)
    note d = drop_Cons_facts [OF k(4) [unfolded Cons]]
    let ?r = "r\<lparr>run_src := k + 1\<rparr>"
    have ok: "run_ok ?r" "unread ?r = t" using k assms(1) d by (simp_all add: run_ok_def unread_def)
    show ?thesis
    proof (cases "bytes_left_in_chunk (run_dec r) = 0")
      case True
      then have "in_chunk_ext r = Some (if consume_trailer (run_dec r) then (set_state CHUNKED_IN_TRAILERS_LINE_HEAD ?r, Break) else (?r, Complete))"
        using k Cons by (simp add: in_chunk_ext_def Let_def)
      then show ?thesis using True Cons ok assms(2)
        by (simp add: feed_ext meets_stop decoder_ok_def)
    next
      case False
      let ?m = "set_state CHUNKED_IN_CHUNK_DATA ?r"
      have e: "in_chunk_ext r = in_chunk_data ?m" using k Cons False by (simp add: in_chunk_ext_def Let_def)
      have m: "run_ok ?m" "unread ?m = t" using ok by (simp_all add: run_ok_def unread_def)
      have "meets ?m (in_chunk_ext r) (chunked_feed (run_dec ?m) (unread ?m))" unfolding e
        by (rule meets_data) (use m False in simp_all)
      then have "meets r (in_chunk_ext r) (chunked_feed (run_dec ?m) t)" unfolding m by (rule meets_same) simp_all
      then show ?thesis using Cons False assms(2) by (simp add: feed_ext)
    qed
  qed
qed

lemma meets_size:
  assumes "run_ok r" "dec_state (run_dec r) = CHUNKED_IN_CHUNK_SIZE"
  shows "meets r (in_chunk_size r) (chunked_feed (run_dec r) (unread r))"
proof -
  obtain k d x where *: "size_loop (run_buf r) (run_src r) (run_dec r) = Some (k, d, x)" "run_src r \<le> k" "k \<le> length (run_buf r)"
    "case x of
       Some e \<Rightarrow> e = -2 \<and> k = length (run_buf r) \<and> chunked_feed (run_dec r) (unread r) = (Wants d, []) \<or>
                e = -1 \<and> chunked_feed (run_dec r) (unread r) = (Invalid, [])
     | None \<Rightarrow> chunked_feed (run_dec r) (unread r) = chunked_feed (d\<lparr>hex_count := 0, dec_state := CHUNKED_IN_CHUNK_EXT\<rparr>) (drop k (run_buf r))"
    using feed_size [OF assms(2), of "run_src r" "run_buf r"] assms(1) unfolding run_ok_def unread_def by blast
  let ?r = "r\<lparr>run_src := k, run_dec := d\<rparr>"
  have ok: "run_ok ?r" using * assms(1) by (simp add: run_ok_def)
  show ?thesis
  proof (cases x)
    case (Some e)
    then have "in_chunk_size r = Some (?r, Exit e)" using * by (simp add: in_chunk_size_def Let_def)
    then show ?thesis using ok *(4) Some by (auto intro!: meets_stop simp: unread_def)
  next
    case None
    let ?m = "?r\<lparr>run_dec := d\<lparr>hex_count := 0, dec_state := CHUNKED_IN_CHUNK_EXT\<rparr>\<rparr>"
    have e: "in_chunk_size r = in_chunk_ext ?m" using None * by (simp add: in_chunk_size_def Let_def)
    have "meets ?m (in_chunk_size r) (chunked_feed (run_dec ?m) (unread ?m))" unfolding e
      by (rule meets_ext) (use ok in \<open>simp_all add: run_ok_def\<close>)
    then have "meets r (in_chunk_size r) (chunked_feed (run_dec ?m) (unread ?m))" by (rule meets_same) simp_all
    then show ?thesis using *(4) None by (simp add: unread_def)
  qed
qed

lemma meets_switch:
  "run_ok r \<Longrightarrow> decoder_ok (run_dec r) \<Longrightarrow> meets r (chunked_switch r) (chunked_feed (run_dec r) (unread r))"
  by (cases "dec_state (run_dec r)")
    (simp_all add: chunked_switch_def decoder_ok_def meets_size meets_ext meets_data meets_crlf meets_head meets_middle)

text \<open>\<open>yields ret d rest out f\<close>: a result, decoder, unread bytes and output that are what the automaton says.\<close>

fun yields :: "int \<Rightarrow> phr_chunked_decoder \<Rightarrow> string \<Rightarrow> string \<Rightarrow> chunked_verdict \<times> string \<Rightarrow> bool" where
  "yields ret d rest out (Wants d', o') \<longleftrightarrow> ret = -2 \<and> d = d' \<and> rest = [] \<and> out = o'"
| "yields ret d rest out (Invalid, o') \<longleftrightarrow> ret = -1 \<and> out = o'"
| "yields ret d rest out (Done s, o') \<longleftrightarrow> ret = int (length s) \<and> rest = s \<and> out = o'"

lemma yields_append: "yields ret d rest out f \<Longrightarrow> yields ret d rest (u @ out) (apsnd ((@) u) f)"
  by (cases f; cases "fst f") auto

lemma chunked_loop_yields:
  "run_ok r \<Longrightarrow> decoder_ok (run_dec r) \<Longrightarrow> \<exists>r' ret out. chunked_loop r = Some (r', ret) \<and> run_ok r' \<and>
     length (run_buf r') = length (run_buf r) \<and> written r' = written r @ out \<and>
     yields ret (run_dec r') (unread r') out (chunked_feed (run_dec r) (unread r))"
proof (induction r rule: chunked_loop.induct)
  case (1 r)
  let ?f = "chunked_feed (run_dec r) (unread r)"
  obtain r' flow out where *: "chunked_switch r = Some (r', flow)" "run_ok r'" "length (run_buf r') = length (run_buf r)"
    "written r' = written r @ out" "accounts r' flow out ?f"
    using meets_switch [OF 1(2,3)] by (auto simp: meets_def)
  have s: "sz_sub (length (run_buf r')) (run_src r') = length (unread r')" using *(2) by (simp add: run_ok_def unread_def)
  show ?case
  proof (cases flow)
    case (Exit k)
    then have "chunked_loop r = Some (r', k)" using *(1) by (subst chunked_loop.simps) simp
    moreover have "yields k (run_dec r') (unread r') out ?f" using *(5) Exit by auto
    ultimately show ?thesis using * by blast
  next
    case Complete
    then have "chunked_loop r = Some (r', int (length (unread r')))" using *(1) s by (subst chunked_loop.simps) simp
    moreover have "yields (int (length (unread r'))) (run_dec r') (unread r') out ?f" using *(5) Complete by auto
    ultimately show ?thesis using * by blast
  next
    case Break
    then have l: "chunked_loop r = chunked_loop r'" using *(1) by (subst chunked_loop.simps) simp
    from *(5) Break have d: "decoder_ok (run_dec r')" "?f = apsnd ((@) out) (chunked_feed (run_dec r') (unread r'))" by auto
    from 1(1) [OF *(1) refl Break *(2) d(1)] obtain r2 ret out2 where "chunked_loop r' = Some (r2, ret)" "run_ok r2"
      "length (run_buf r2) = length (run_buf r')" "written r2 = written r' @ out2"
      "yields ret (run_dec r2) (unread r2) out2 (chunked_feed (run_dec r') (unread r'))" by blast
    with * d(2) yields_append [of ret "run_dec r2" "unread r2" out2 _ out] show ?thesis unfolding l by fastforce
  qed
qed

lemma decode_yields:
  assumes "decoder_ok d"
  shows "\<exists>ret d' buf' n. phr_decode_chunked d buf = Some (ret, d', buf', n) \<and>
    (\<exists>rest. n + length rest \<le> length buf \<and> length buf' = length buf \<and> take (length rest) (drop n buf') = rest \<and>
      yields ret d' rest (take n buf') (chunked_feed d buf))"
proof -
  let ?r = "\<lparr>run_dec = d, run_buf = buf, run_dst = 0, run_src = 0\<rparr>"
  obtain r ret out where r: "chunked_loop ?r = Some (r, ret)" "run_ok r" "length (run_buf r) = length buf"
    "written r = out" "yields ret (run_dec r) (unread r) out (chunked_feed d buf)"
    using chunked_loop_yields [of ?r] assms by (auto simp: run_ok_def written_def unread_def)
  let ?b = "run_buf r" and ?d = "run_dst r" and ?s = "run_src r"
  have l: "?d \<le> ?s" "?s \<le> length ?b" using r(2) by (simp_all add: run_ok_def)
  define b' where "b' = take ?d ?b @ unread r @ drop (?d + length (unread r)) ?b"
  have "(if ?d \<noteq> ?s then memmove ?b ?d ?s (sz_sub (length ?b) ?s) else Some ?b) = Some b'"
    using l by (auto simp: memmove_def b'_def unread_def)
  then have "phr_decode_chunked d buf = Some (ret, run_dec r, b', ?d)" using r(1) by (simp add: phr_decode_chunked_def)
  moreover have "take ?d b' = take ?d ?b" using l by (simp add: b'_def)
  then have "take ?d b' = out" using r(4) by (simp add: written_def)
  moreover have "take (length (unread r)) (drop ?d b') = unread r" using l by (simp add: b'_def)
  moreover have "?d + length (unread r) \<le> length buf" "length b' = length buf" using l r(3) by (simp_all add: unread_def b'_def)
  ultimately show ?thesis using r(5) by blast
qed

lemma feed_decoder_ok: "decoder_ok d \<Longrightarrow> chunked_feed d s = (Wants d', out) \<Longrightarrow> decoder_ok d'"
proof (induction s arbitrary: d out)
  case (Cons c s)
  obtain d1 o1 where b: "chunked_byte d c = More d1 o1" using Cons.prems(2) by (cases "chunked_byte d c") auto
  then obtain o2 where "chunked_feed d1 s = (Wants d', o2)" using Cons.prems(2) by (cases "chunked_feed d1 s") auto
  moreover have "decoder_ok d1"
    using b Cons.prems(1)
    by (auto simp: chunked_byte_def chunked_ext_byte_def decoder_ok_def push_digit_def Let_def split: chunked_state.splits if_splits)
  ultimately show ?case using Cons.IH by blast
qed simp

text \<open>C2. Refinement: on every buffer \<open>phr_decode_chunked\<close> is defined and does what the byte automaton does.
  It leaves the decoded bytes at the front of the buffer and their number in \<open>*bufsz\<close>; it returns -2
  with the automaton's next state when the encoding goes on, -1 when it is invalid, and otherwise the
  number of bytes behind the end of the encoding, which it moves behind the decoded ones.\<close>

theorem chunked_refines_automaton:
  assumes "decoder_ok d"
  shows "\<exists>ret d' buf' n. phr_decode_chunked d buf = Some (ret, d', buf', n) \<and> length buf' = length buf \<and> n \<le> length buf \<and>
    (case chunked_feed d buf of
       (Wants d'', out) \<Rightarrow> ret = -2 \<and> d' = d'' \<and> take n buf' = out
     | (Invalid, out) \<Rightarrow> ret = -1 \<and> take n buf' = out
     | (Done rest, out) \<Rightarrow> ret = int (length rest) \<and> take n buf' = out \<and> take (length rest) (drop n buf') = rest)"
proof -
  obtain ret d' buf' n rest where *: "phr_decode_chunked d buf = Some (ret, d', buf', n)" "n + length rest \<le> length buf"
    "length buf' = length buf" "take (length rest) (drop n buf') = rest" "yields ret d' rest (take n buf') (chunked_feed d buf)"
    using decode_yields [OF assms] by blast
  then show ?thesis by (cases "chunked_feed d buf"; cases "fst (chunked_feed d buf)") auto
qed

definition fresh_decoder :: "bool \<Rightarrow> phr_chunked_decoder" where
  "fresh_decoder trailer =
     \<lparr>bytes_left_in_chunk = 0, consume_trailer = trailer, hex_count = 0, dec_state = CHUNKED_IN_CHUNK_SIZE\<rparr>"

lemma fresh_decoder_ok: "decoder_ok (fresh_decoder t)"
  by (simp add: fresh_decoder_def decoder_ok_def)

lemma chunked_refines_automaton_witness:
  "\<exists>d' buf'. phr_decode_chunked (fresh_decoder False) (''2'' @ [CR, LF] @ ''ab'' @ [CR, LF]) = Some (-2, d', buf', 2) \<and> take 2 buf' = ''ab''"
proof -
  let ?s = "''2'' @ [CR, LF] @ ''ab'' @ [CR, LF]"
  have f: "chunked_feed (fresh_decoder False) ?s = (Wants (fresh_decoder False), ''ab'')"
    by code_simp
  obtain ret d' buf' n where *: "phr_decode_chunked (fresh_decoder False) ?s = Some (ret, d', buf', n)" "length buf' = length ?s"
      "n \<le> length ?s" "ret = -2" "take n buf' = ''ab''"
    using chunked_refines_automaton [OF fresh_decoder_ok [of False], of ?s] unfolding f by auto
  have "n = length (take n buf')" using *(2,3) by simp
  then have "n = 2" unfolding *(5) by simp
  with * show ?thesis by blast
qed

text \<open>C11. Streaming: feeding two pieces one after the other gives the same as feeding them joined.\<close>

theorem chunked_streaming:
  assumes "decoder_ok d" "phr_decode_chunked d a = Some (-2, d1, buf1, n1)"
  shows "\<exists>ret d2 buf2 n2 d3 buf3. phr_decode_chunked d1 b = Some (ret, d2, buf2, n2) \<and>
    phr_decode_chunked d (a @ b) = Some (ret, d3, buf3, n1 + n2) \<and>
    take (n1 + n2) buf3 = take n1 buf1 @ take n2 buf2 \<and> (ret = -2 \<longrightarrow> d3 = d2)"
proof -
  obtain rest where 1: "n1 \<le> length buf1" "yields (-2) d1 rest (take n1 buf1) (chunked_feed d a)"
    using decode_yields [OF assms(1), of a] assms(2) by auto
  then have f: "chunked_feed d a = (Wants d1, take n1 buf1)" by (cases "chunked_feed d a"; cases "fst (chunked_feed d a)") auto
  have ok: "decoder_ok d1" using feed_decoder_ok [OF assms(1) f] .
  obtain ret d2 buf2 n2 rest2 where 2: "phr_decode_chunked d1 b = Some (ret, d2, buf2, n2)" "n2 \<le> length buf2"
    "yields ret d2 rest2 (take n2 buf2) (chunked_feed d1 b)"
    using decode_yields [OF ok, of b] by auto
  obtain ret' d3 buf3 n3 rest3 where 3: "phr_decode_chunked d (a @ b) = Some (ret', d3, buf3, n3)" "n3 \<le> length buf3"
    "yields ret' d3 rest3 (take n3 buf3) (chunked_feed d (a @ b))"
    using decode_yields [OF assms(1), of "a @ b"] by auto
  have "chunked_feed d (a @ b) = apsnd ((@) (take n1 buf1)) (chunked_feed d1 b)" by (simp add: chunked_feed_append f)
  then have t: "take n3 buf3 = take n1 buf1 @ take n2 buf2" "ret' = ret" "ret = -2 \<longrightarrow> d3 = d2"
    using 2(3) 3(3) by (cases "chunked_feed d1 b"; cases "fst (chunked_feed d1 b)"; auto)+
  have "length (take n3 buf3) = length (take n1 buf1) + length (take n2 buf2)" by (simp only: t(1) length_append)
  then have "n3 = n1 + n2" using 1(1) 2(2) 3(2) by simp
  with 2 3 t show ?thesis by blast
qed

lemma chunked_streaming_witness:
  "\<exists>d1 buf1 ret d2 buf2 n2 d3 buf3. phr_decode_chunked (fresh_decoder False) ''2'' = Some (-2, d1, buf1, 0) \<and>
    phr_decode_chunked d1 ([CR, LF] @ ''a'') = Some (ret, d2, buf2, n2) \<and>
    phr_decode_chunked (fresh_decoder False) (''2'' @ [CR, LF] @ ''a'') = Some (ret, d3, buf3, 0 + n2)"
proof -
  have f: "chunked_feed (fresh_decoder False) ''2'' = (Wants (push_digit 2 (fresh_decoder False)), [])" by code_simp
  obtain ret d1 buf1 n1 where "phr_decode_chunked (fresh_decoder False) ''2'' = Some (ret, d1, buf1, n1)" "length buf1 = 1"
    "n1 \<le> 1" "ret = -2" "take n1 buf1 = []"
    using decode_yields [OF fresh_decoder_ok [of False], of "''2''"] unfolding f by force
  then have "phr_decode_chunked (fresh_decoder False) ''2'' = Some (-2, d1, buf1, 0)" by (cases buf1) auto
  from chunked_streaming [OF fresh_decoder_ok this] this show ?thesis by blast
qed

text \<open>A chunk as a sender writes it: digits of its length, an extension, the data.\<close>

definition hex_value :: "string \<Rightarrow> nat" where
  "hex_value ds = foldl (\<lambda>a c. a * 16 + nat (decode_hex (schar c))) 0 ds"

definition hex_digits :: "string \<Rightarrow> bool" where
  "hex_digits ds \<longleftrightarrow> ds \<noteq> [] \<and> length ds \<le> 16 \<and> (\<forall>c \<in> set ds. decode_hex (schar c) \<noteq> -1)"

definition chunk_text :: "string \<times> string \<times> string \<Rightarrow> string" where
  "chunk_text = (\<lambda>(ds, ext, data). ds @ ext @ CR # LF # data @ [CR, LF])"

definition good_ext :: "string \<Rightarrow> bool" where
  "good_ext ext \<longleftrightarrow> LF \<notin> set ext \<and> (ext \<noteq> [] \<longrightarrow> decode_hex (schar (hd ext)) = -1)"

definition good_chunk :: "string \<times> string \<times> string \<Rightarrow> bool" where
  "good_chunk = (\<lambda>(ds, ext, data). hex_digits ds \<and> good_ext ext \<and> hex_value ds = length data \<and> data \<noteq> [])"

lemma decode_hex_range: "- 1 \<le> decode_hex c" "decode_hex c \<le> 15"
  by (simp_all add: decode_hex_def)

text \<open>Reading digits, from \<open>n\<close> digits with value \<open>v\<close> on.\<close>

definition size_state :: "bool \<Rightarrow> nat \<Rightarrow> nat \<Rightarrow> phr_chunked_decoder" where
  "size_state t v n = \<lparr>bytes_left_in_chunk = v, consume_trailer = t, hex_count = n, dec_state = CHUNKED_IN_CHUNK_SIZE\<rparr>"

lemma feed_digits:
  "\<forall>c \<in> set ds. decode_hex (schar c) \<noteq> -1 \<Longrightarrow> n + length ds \<le> 16 \<Longrightarrow> v < 16 ^ n \<Longrightarrow>
   chunked_feed (size_state t v n) (ds @ s) =
     chunked_feed (size_state t (foldl (\<lambda>a c. a * 16 + nat (decode_hex (schar c))) v ds) (n + length ds)) s"
proof (induction ds arbitrary: v n)
  case (Cons c ds)
  let ?v = "v * 16 + nat (decode_hex (schar c))"
  have "nat (decode_hex (schar c)) \<le> 15" using decode_hex_range(2) [of "schar c"] by simp
  then have v: "?v < 16 ^ Suc n" using Cons.prems(3) by simp
  have "(16 :: nat) ^ Suc n \<le> 16 ^ 16" by (rule power_increasing) (use Cons.prems(2) in simp_all)
  with v have "?v < 2 ^ 64" by simp
  then have "chunked_byte (size_state t v n) c = More (size_state t ?v (Suc n)) []"
    using Cons.prems(1,2) by (simp add: chunked_byte_def size_state_def push_digit_def Let_def)
  with Cons.IH [of "Suc n" ?v] Cons.prems(1,2) v show ?case by (simp add: add.commute)
qed simp

lemma feed_ext_line:
  assumes "good_ext ext" "n \<noteq> 0"
  shows "chunked_feed (size_state t v n) (ext @ CR # LF # s) =
    (if v \<noteq> 0 then chunked_feed ((size_state t v 0)\<lparr>dec_state := CHUNKED_IN_CHUNK_DATA\<rparr>) s
     else if t then chunked_feed ((size_state t v 0)\<lparr>dec_state := CHUNKED_IN_TRAILERS_LINE_HEAD\<rparr>) s else (Done s, []))"
proof -
  let ?e = "(size_state t v 0)\<lparr>dec_state := CHUNKED_IN_CHUNK_EXT\<rparr>"
  have dw: "LF \<notin> set u \<Longrightarrow> dropWhile (\<lambda>c. c \<noteq> LF) (u @ LF # s) = LF # s" for u by (induction u) auto
  have feed: "LF \<notin> set u \<Longrightarrow> chunked_feed ?e (u @ LF # s) =
    (if v \<noteq> 0 then chunked_feed ((size_state t v 0)\<lparr>dec_state := CHUNKED_IN_CHUNK_DATA\<rparr>) s
     else if t then chunked_feed ((size_state t v 0)\<lparr>dec_state := CHUNKED_IN_TRAILERS_LINE_HEAD\<rparr>) s else (Done s, []))" for u
    by (subst feed_ext) (auto simp: dw size_state_def)
  obtain c u where cu: "ext @ [CR] = c # u" by (cases "ext @ [CR]") auto
  then have "c \<noteq> LF" "LF \<notin> set u" "decode_hex (schar c) = -1"
    using assms(1) by (cases ext; auto simp: good_ext_def decode_hex_def schar_def uchar_def)+
  then have "chunked_byte (size_state t v n) c = More ?e []"
    using assms(2) by (simp add: chunked_byte_def chunked_ext_byte_def size_state_def Let_def)
  then have step: "chunked_feed (size_state t v n) (c # u @ LF # s) = chunked_feed ?e (u @ LF # s)" by simp
  have "ext @ CR # LF # s = c # u @ LF # s" using arg_cong [OF cu, of "\<lambda>x. x @ LF # s"] by simp
  then show ?thesis by (simp only: step feed [OF \<open>LF \<notin> set u\<close>])
qed

lemma feed_chunk:
  assumes "good_chunk (ds, ext, data)"
  shows "chunked_feed (fresh_decoder t) (chunk_text (ds, ext, data) @ s) = apsnd ((@) data) (chunked_feed (fresh_decoder t) s)"
proof -
  have g: "ds \<noteq> []" "length ds \<le> 16" "\<forall>c \<in> set ds. decode_hex (schar c) \<noteq> -1" "good_ext ext" "hex_value ds = length data" "data \<noteq> []"
    using assms by (simp_all add: good_chunk_def hex_digits_def)
  have f: "fresh_decoder t = size_state t 0 0" by (simp add: fresh_decoder_def size_state_def)
  have "chunked_feed (fresh_decoder t) (chunk_text (ds, ext, data) @ s) =
      chunked_feed (size_state t (length data) (length ds)) (ext @ CR # LF # data @ CR # LF # s)"
    using feed_digits [OF g(3), of 0 0 t] g(2,5) by (simp add: f chunk_text_def hex_value_def)
  also have "\<dots> = chunked_feed ((size_state t (length data) 0)\<lparr>dec_state := CHUNKED_IN_CHUNK_DATA\<rparr>) (data @ CR # LF # s)"
    using feed_ext_line [OF g(4), of "length ds" t "length data"] g(1,6) by simp
  also have "\<dots> = apsnd ((@) data) (chunked_feed ((size_state t 0 0)\<lparr>dec_state := CHUNKED_IN_CHUNK_CRLF\<rparr>) (CR # LF # s))"
    using g(6) by (subst feed_data(2)) (simp_all add: size_state_def)
  also have "\<dots> = apsnd ((@) data) (chunked_feed (fresh_decoder t) s)"
    by (subst feed_crlf) (simp_all add: size_state_def fresh_decoder_def)
  finally show ?thesis .
qed

lemma feed_chunks:
  "\<forall>c \<in> set cs. good_chunk c \<Longrightarrow> chunked_feed (fresh_decoder t) (concat (map chunk_text cs) @ s) =
     apsnd ((@) (concat (map (\<lambda>(ds, ext, data). data) cs))) (chunked_feed (fresh_decoder t) s)"
proof (induction cs)
  case (Cons c cs)
  obtain ds ext data where c: "c = (ds, ext, data)" by (cases c)
  have "good_chunk (ds, ext, data)" using Cons.prems c by simp
  from feed_chunk [OF this, of t "concat (map chunk_text cs) @ s"] Cons show ?case
    by (simp add: c apsnd_def map_prod_def split_beta)
qed simp

text \<open>C10. Round trip: the chunks of a body, with any extensions, and the last chunk with its empty line are
  decoded in place into the body; what follows is counted and kept behind it.\<close>

theorem chunked_body_roundtrip:
  assumes "\<forall>c \<in> set cs. good_chunk c" "hex_digits zs" "hex_value zs = 0" "good_ext ext"
    and "body = concat (map (\<lambda>(ds, ext, data). data) cs)"
    and "buf = concat (map chunk_text cs) @ zs @ ext @ [CR, LF, CR, LF] @ rest"
  shows "\<exists>d' buf'. phr_decode_chunked (fresh_decoder True) buf = Some (int (length rest), d', buf', length body) \<and>
    take (length body + length rest) buf' = body @ rest"
proof -
  have z: "zs \<noteq> []" "length zs \<le> 16" "\<forall>c \<in> set zs. decode_hex (schar c) \<noteq> -1" using assms(2) by (simp_all add: hex_digits_def)
  have "chunked_feed (fresh_decoder True) (zs @ ext @ CR # LF # CR # LF # rest) =
      chunked_feed (size_state True 0 (length zs)) (ext @ CR # LF # CR # LF # rest)"
    using feed_digits [OF z(3), of 0 0 True] z(2) assms(3) by (simp add: fresh_decoder_def size_state_def hex_value_def)
  also have "\<dots> = chunked_feed ((size_state True 0 0)\<lparr>dec_state := CHUNKED_IN_TRAILERS_LINE_HEAD\<rparr>) (CR # LF # rest)"
    using feed_ext_line [OF assms(4), of "length zs" True 0 "CR # LF # rest"] z(1) by simp
  also have "\<dots> = (Done rest, [])" by (subst feed_head) simp_all
  finally have f: "chunked_feed (fresh_decoder True) buf = (Done rest, body)"
    using feed_chunks [OF assms(1), of True] assms(5,6) by simp
  obtain ret d' buf' n rest' where *: "phr_decode_chunked (fresh_decoder True) buf = Some (ret, d', buf', n)"
    "n + length rest' \<le> length buf" "length buf' = length buf" "take (length rest') (drop n buf') = rest'"
    "yields ret d' rest' (take n buf') (chunked_feed (fresh_decoder True) buf)"
    using decode_yields [OF fresh_decoder_ok [of True], of buf] by blast
  then have y: "ret = int (length rest)" "rest' = rest" "take n buf' = body" by (simp_all add: f)
  have n: "n = length body" using arg_cong [OF y(3), of length] *(2,3) by simp
  have "take (length body + length rest) buf' = take n buf' @ take (length rest') (drop n buf')" by (simp add: n y(2) take_add)
  then show ?thesis using * y n by auto
qed

lemma chunked_body_roundtrip_witness:
  "\<exists>d' buf'. phr_decode_chunked (fresh_decoder True)
      (''5'' @ [CR, LF] @ ''hello'' @ [CR, LF] @ ''1;x=y'' @ [CR, LF] @ ''!'' @ [CR, LF] @ ''00'' @ [CR, LF, CR, LF] @ ''GET'')
    = Some (3, d', buf', 6) \<and> take 9 buf' = ''hello!GET''"
  using chunked_body_roundtrip [of "[(''5'', [], ''hello''), (''1'', '';x=y'', ''!'')]" "''00''" "[]" "''hello!''" _ "''GET''", OF _ _ _ _ _ refl]
  by (simp add: good_chunk_def chunk_text_def hex_digits_def good_ext_def hex_value_def decode_hex_def schar_def uchar_def eval_nat_numeral)

end
