(* ===== verification/HttpServer.thy ===== *)
theory HttpServer
  imports HttpParser ListH "HOL-Library.State_Monad"
begin

text \<open>
  \<open>src/http/http_server.c\<close> with the structures of \<open>http_server.h\<close> and \<open>include/common.h\<close>: creating the
  listening socket, and the beginnings of a request.

  The operating system is an oracle that answers the n-th call; the calls made are logged. What is
  printed to \<open>stderr\<close> is left out.
\<close>

unbundle bit_operations_syntax

section \<open>System calls\<close>

datatype sysc =
    Sys_socket int int int
  | Sys_setsockopt int int int int
  | Sys_getfl int
  | Sys_setfl int int
  | Sys_close int
  | Sys_inet_pton int string
  | Sys_bind int int int string
  | Sys_listen int int
  | Sys_fork
  | Sys_epoll_create1
  | Sys_epoll_create int
  | Sys_epoll_add int int int
  | Sys_epoll_mod int int int

record world =
  w_answer :: "nat \<Rightarrow> sysc \<Rightarrow> int"
  w_log :: "sysc list"
  w_links :: links

definition sys :: "sysc \<Rightarrow> (world, int) state" where
  "sys c = State (\<lambda>w. (w_answer w (length (w_log w)) c, w\<lparr>w_log := w_log w @ [c]\<rparr>))"

definition on_links :: "(links \<Rightarrow> links) \<Rightarrow> (world, unit) state" where
  "on_links f = State (\<lambda>w. ((), w\<lparr>w_links := f (w_links w)\<rparr>))"

text \<open>The constants, as Linux on x86-64 defines them.\<close>

definition AF_INET :: int where "AF_INET = 2"
definition SOCK_STREAM :: int where "SOCK_STREAM = 1"
definition SOL_SOCKET :: int where "SOL_SOCKET = 1"
definition SO_REUSEADDR :: int where "SO_REUSEADDR = 2"
definition SO_KEEPALIVE :: int where "SO_KEEPALIVE = 9"
definition SO_REUSEPORT :: int where "SO_REUSEPORT = 15"
definition IPPROTO_TCP :: int where "IPPROTO_TCP = 6"
definition TCP_NODELAY :: int where "TCP_NODELAY = 1"
definition O_NONBLOCK :: int where "O_NONBLOCK = 2048"

section \<open>Structures\<close>

text \<open>A list head or entry inside a structure is its address.\<close>

record linked_buffer =
  lb_data :: string
  lb_length :: nat
  lb_capacity :: nat
  lb_entry :: addr

record http_server =
  srv_fd :: int
  srv_sock_af :: int
  srv_sock_type :: int
  srv_backlog :: int
  srv_so_reuseaddr :: int
  srv_so_reuseport :: int
  srv_so_keepalive :: int
  srv_tcp_nodelay :: int
  srv_keepalive_timeout :: int
  srv_keepalive_max :: int
  srv_min_header_size :: int
  srv_max_header_size :: int
  srv_port :: int
  srv_host :: string
  srv_request_list :: addr

text \<open>\<open>rq_line\<close> stands for \<open>method\<close>, \<open>method_len\<close>, \<open>path\<close> and \<open>path_len\<close>, pointers into a receive buffer, once the
  request line is parsed.\<close>

record http_request =
  rq_fd :: int
  rq_line :: "(addr \<times> req_line) option"
  rq_minor_version :: int
  rq_headers :: "http_header option list"
  rq_header_len :: int
  rq_parse_status :: int
  rq_body_offset :: nat
  rq_is_chunked :: int
  rq_is_keepalive :: int
  rq_content_length :: int
  rq_keepalive_endtime :: int
  rq_keepalive_request :: int
  rq_sndbuf_list :: addr
  rq_rcvbuf_list :: addr
  rq_entry :: addr

section \<open>Requests\<close>

definition http_request_init :: "http_request \<Rightarrow> links \<Rightarrow> http_request \<times> links" where
  "http_request_init request h =
     (request\<lparr>rq_header_len := 64, rq_headers := replicate 64 None, rq_minor_version := 1, rq_parse_status := 0,
        rq_is_chunked := 0, rq_is_keepalive := 1, rq_content_length := -1, rq_keepalive_request := 0\<rparr>,
      LIST_INIT (rq_rcvbuf_list request) (LIST_INIT (rq_sndbuf_list request) h))"

definition store_line :: "addr \<Rightarrow> req_line option \<Rightarrow> http_request \<Rightarrow> http_request" where
  "store_line entry rl request =
     (case rl of
        None \<Rightarrow> request
      | Some l \<Rightarrow> request\<lparr>rq_line := Some (entry, l), rq_minor_version := rl_minor l\<rparr>)"

text \<open>The loop, for at most \<open>fuel\<close> turns: \<^term>\<open>None\<close> is undefined behaviour, \<^term>\<open>Some None\<close> that it is still
  running. The function ends without a \<open>return\<close>, so it has no value besides the request. \<open>bufs\<close> finds
  the structure around an entry.\<close>

fun http_request_parse :: "nat \<Rightarrow> (addr \<Rightarrow> linked_buffer) \<Rightarrow> links \<Rightarrow> http_request \<Rightarrow> http_request option option" where
  "http_request_parse 0 bufs h request =
     Some (if LIST_EMPTY (rq_rcvbuf_list request) h then Some request else None)"
| "http_request_parse (Suc fuel) bufs h request =
     (if LIST_EMPTY (rq_rcvbuf_list request) h then Some (Some request)
      else do {
        entry \<leftarrow> next_of h (rq_rcvbuf_list request);
        (ret, rl) \<leftarrow> http_parse_request_line (lb_data (bufs entry)) (lb_length (bufs entry));
        http_request_parse fuel bufs h (store_line entry rl request)
      })"

section \<open>The listening socket\<close>

text \<open>After a \<open>break\<close>: \<open>close(fd); return -1\<close>.\<close>

definition give_up :: "int \<Rightarrow> http_server \<Rightarrow> (world, int \<times> http_server) state" where
  "give_up fd server = do { r \<leftarrow> sys (Sys_close fd); State_Monad.return (-1, server) }"

definition http_server_init :: "http_server \<Rightarrow> (world, int \<times> http_server) state" where
  "http_server_init server = do {
     fd \<leftarrow> sys (Sys_socket (srv_sock_af server) (srv_sock_type server) 0);
     if fd < 0 then State_Monad.return (-1, server) else do {
     r \<leftarrow> sys (Sys_setsockopt fd SOL_SOCKET SO_REUSEADDR (srv_so_reuseaddr server));
     if r \<noteq> 0 then give_up fd server else do {
     r \<leftarrow> sys (Sys_setsockopt fd SOL_SOCKET SO_REUSEPORT (srv_so_reuseport server));
     if r \<noteq> 0 then give_up fd server else do {
     r \<leftarrow> sys (Sys_setsockopt fd SOL_SOCKET SO_KEEPALIVE (srv_so_keepalive server));
     if r \<noteq> 0 then give_up fd server else do {
     r \<leftarrow> sys (Sys_setsockopt fd IPPROTO_TCP TCP_NODELAY (srv_tcp_nodelay server));
     if r \<noteq> 0 then give_up fd server else do {
     flag \<leftarrow> sys (Sys_getfl fd);
     if flag < 0 then give_up fd server else do {
     r \<leftarrow> sys (Sys_setfl fd (flag OR O_NONBLOCK));
     if r < 0 then give_up fd server else do {
     u \<leftarrow> on_links (LIST_INIT (srv_request_list server));
     State_Monad.return (0, server\<lparr>srv_fd := fd\<rparr>)
     }}}}}}}
   }"

text \<open>\<open>htons\<close>.\<close>

definition htons :: "int \<Rightarrow> int" where
  "htons p = (let n = p mod 2 ^ 16 in n mod 2 ^ 8 * 2 ^ 8 + n div 2 ^ 8)"

definition http_server_listen :: "http_server \<Rightarrow> (world, int) state" where
  "http_server_listen server = do {
     ret \<leftarrow> sys (Sys_inet_pton (srv_sock_type server) (srv_host server));
     let fail = do { r \<leftarrow> sys (Sys_close (srv_fd server)); State_Monad.return (-1) };
     if ret = 0 then fail
     else if ret < 0 then fail
     else do {
       r \<leftarrow> sys (Sys_bind (srv_fd server) (srv_sock_af server) (htons (srv_port server)) (srv_host server));
       if r \<noteq> 0 then fail else do {
       r \<leftarrow> sys (Sys_listen (srv_fd server) (srv_backlog server));
       if r \<noteq> 0 then fail else State_Monad.return 0 }
     }
   }"

section \<open>What they do\<close>

lemma run_sys [simp]:
  "run_state (sys c) w = (w_answer w (length (w_log w)) c, w\<lparr>w_log := w_log w @ [c]\<rparr>)"
  by (simp add: sys_def)

lemma run_on_links [simp]: "run_state (on_links f) w = ((), w\<lparr>w_links := f (w_links w)\<rparr>)"
  by (simp add: on_links_def)

lemma run_bind [simp]: "run_state (State_Monad.bind m f) w = (case run_state m w of (x, w') \<Rightarrow> run_state (f x) w')"
  by (cases m) (simp add: State_Monad.bind_def)

lemma run_return [simp]: "run_state (State_Monad.return x) w = (x, w)"
  by (simp add: State_Monad.return_def)

lemma run_if [simp]: "run_state (if b then m else n) w = (if b then run_state m w else run_state n w)"
  by simp

lemma run_give_up [simp]: "run_state (give_up fd server) w = ((-1, server), w\<lparr>w_log := w_log w @ [Sys_close fd]\<rparr>)"
  by (simp add: give_up_def)

text \<open>The calls that must succeed, in order, for the socket \<open>fd\<close>, when \<open>F_GETFL\<close> returns \<open>flag\<close>; and when a call has
  succeeded.\<close>

definition options_of :: "int \<Rightarrow> int \<Rightarrow> http_server \<Rightarrow> sysc list" where
  "options_of fd flag server =
     [Sys_setsockopt fd SOL_SOCKET SO_REUSEADDR (srv_so_reuseaddr server),
      Sys_setsockopt fd SOL_SOCKET SO_REUSEPORT (srv_so_reuseport server),
      Sys_setsockopt fd SOL_SOCKET SO_KEEPALIVE (srv_so_keepalive server),
      Sys_setsockopt fd IPPROTO_TCP TCP_NODELAY (srv_tcp_nodelay server),
      Sys_getfl fd,
      Sys_setfl fd (flag OR O_NONBLOCK)]"

definition succeeded :: "sysc \<Rightarrow> int \<Rightarrow> bool" where
  "succeeded c r = (case c of Sys_setsockopt _ _ _ _ \<Rightarrow> r = 0 | _ \<Rightarrow> 0 \<le> r)"

lemma first_failure: "\<not> (\<forall>i < n. P i) \<Longrightarrow> \<exists>k < n. \<not> P k \<and> (\<forall>i < k. P i)" for n :: nat
  by (metis exists_least_iff [of "\<lambda>k. \<not> P k"] less_trans linorder_neqE_nat)

text \<open>C15. \<open>http_server_init\<close> makes a socket and then the six calls that set its options and make it non-blocking, the
  flags being those that \<open>F_GETFL\<close> returned with \<open>O_NONBLOCK\<close>. If all succeed it returns 0, with the socket stored in
  the server and the request list empty. With the first that fails it closes the socket, makes no other
  call, returns -1 and leaves the server as it was; when there is no socket nothing else is called. (\<open>os\<close>
  answers the calls: \<open>os n c\<close> is what call \<open>n\<close> returns if it is \<open>c\<close>.)\<close>

theorem http_server_init_outcome:
  assumes "run_state (http_server_init server) \<lparr>w_answer = os, w_log = [], w_links = h\<rparr> = ((ret, server'), w')"
  defines "socket \<equiv> Sys_socket (srv_sock_af server) (srv_sock_type server) 0"
  defines "fd \<equiv> os 0 socket"
  defines "calls \<equiv> options_of fd (os 5 (Sys_getfl fd)) server"
  defines "ok \<equiv> \<lambda>i. succeeded (calls ! i) (os (Suc i) (calls ! i))"
  shows "if 0 \<le> fd \<and> (\<forall>i < 6. ok i)
    then ret = 0 \<and> server' = server\<lparr>srv_fd := fd\<rparr> \<and> repr (w_links w') (srv_request_list server) [] \<and> w_log w' = socket # calls
    else ret = -1 \<and> server' = server \<and> w_links w' = h \<and>
      (if fd < 0 then w_log w' = [socket]
       else (\<exists>k < 6. \<not> ok k \<and> (\<forall>i < k. ok i) \<and> w_log w' = socket # take (Suc k) calls @ [Sys_close fd]))"
proof -
  note run = assms(1) [unfolded http_server_init_def]
  note names = socket_def fd_def calls_def ok_def
  consider "fd < 0" | "0 \<le> fd" "\<forall>i < 6. ok i" | k where "0 \<le> fd" "k < 6" "\<not> ok k" "\<forall>i < k. ok i"
    using first_failure [of 6 ok] by (cases "fd < 0") auto
  then show ?thesis
  proof cases
    case 1
    with run show ?thesis by (auto simp: names)
  next
    case 2
    then have "ok 0" "ok (Suc 0)" "ok 2" "ok 3" "ok 4" "ok 5" by simp_all
    then have "run_state (http_server_init server) \<lparr>w_answer = os, w_log = [], w_links = h\<rparr> = ((0, server\<lparr>srv_fd := fd\<rparr>),
        \<lparr>w_answer = os, w_log = socket # calls, w_links = LIST_INIT (srv_request_list server) h\<rparr>)"
      using 2(1) by (simp add: http_server_init_def names succeeded_def options_of_def eval_nat_numeral del: fun_upd_apply)
    with assms(1) have "ret = 0 \<and> server' = server\<lparr>srv_fd := fd\<rparr> \<and> w_links w' = LIST_INIT (srv_request_list server) h \<and>
        w_log w' = socket # calls"
      by auto
    then show ?thesis using 2 by (simp add: repr_def LIST_INIT_def)
  next
    case 3
    then have "k \<in> {0, Suc 0, 2, 3, 4, 5}" by auto
    then have "run_state (http_server_init server) \<lparr>w_answer = os, w_log = [], w_links = h\<rparr> = ((-1, server),
        \<lparr>w_answer = os, w_log = socket # take (Suc k) calls @ [Sys_close fd], w_links = h\<rparr>)"
      using 3 by (elim insertE) (simp_all add: http_server_init_def names succeeded_def options_of_def eval_nat_numeral All_less_Suc)
    with assms(1) have "ret = -1 \<and> server' = server \<and> w_links w' = h \<and> w_log w' = socket # take (Suc k) calls @ [Sys_close fd]"
      by auto
    with 3 show ?thesis by auto
  qed
qed

definition os_ok :: "nat \<Rightarrow> sysc \<Rightarrow> int" where
  "os_ok n c = (case c of Sys_socket _ _ _ \<Rightarrow> 3 | Sys_getfl _ \<Rightarrow> 2 | Sys_inet_pton af _ \<Rightarrow> if af = AF_INET \<or> af = 10 then 1 else -1 | _ \<Rightarrow> 0)"

definition a_server :: http_server where
  "a_server = \<lparr>srv_fd = 0, srv_sock_af = AF_INET, srv_sock_type = SOCK_STREAM, srv_backlog = 511, srv_so_reuseaddr = 1,
     srv_so_reuseport = 1, srv_so_keepalive = 1, srv_tcp_nodelay = 1, srv_keepalive_timeout = 0, srv_keepalive_max = 0,
     srv_min_header_size = 0, srv_max_header_size = 0, srv_port = 9797, srv_host = ''127.0.0.1'', srv_request_list = 1\<rparr>"

lemma http_server_init_outcome_witness:
  "\<exists>ret server' w'. run_state (http_server_init a_server) \<lparr>w_answer = os_ok, w_log = [],
      w_links = \<lparr>prev_of = \<lambda>_. None, next_of = \<lambda>_. None\<rparr>\<rparr> = ((ret, server'), w') \<and>
    ret = 0 \<and> server' = a_server\<lparr>srv_fd := 3\<rparr> \<and> repr (w_links w') 1 [] \<and> length (w_log w') = 7"
proof -
  obtain ret server' w' where r: "run_state (http_server_init a_server) \<lparr>w_answer = os_ok, w_log = [],
      w_links = \<lparr>prev_of = \<lambda>_. None, next_of = \<lambda>_. None\<rparr>\<rparr> = ((ret, server'), w')"
    by (metis prod.exhaust)
  have "\<forall>i < 6. succeeded (options_of fd flag a_server ! i) (os_ok (Suc i) (options_of fd flag a_server ! i))" for fd flag
    by (simp add: succeeded_def os_ok_def options_of_def nth_Cons split: nat.split)
  with http_server_init_outcome [OF r] r show ?thesis by (simp add: a_server_def os_ok_def options_of_def)
qed

text \<open>\<open>http_server_listen\<close> hands the socket's type to \<open>inet_pton\<close> where it expects an address family. For a
  stream socket that is not one, so listening always fails, and the server's socket is closed.\<close>

lemma http_server_listen_never_works:
  assumes "\<And>n af host. af \<noteq> AF_INET \<Longrightarrow> af \<noteq> 10 \<Longrightarrow> w_answer w n (Sys_inet_pton af host) = -1"
    and "srv_sock_type server = SOCK_STREAM"
  shows "fst (run_state (http_server_listen server) w) = -1 \<and>
    w_log (snd (run_state (http_server_listen server) w)) =
      w_log w @ [Sys_inet_pton SOCK_STREAM (srv_host server), Sys_close (srv_fd server)]"
  using assms(1) [of SOCK_STREAM] assms(2) by (simp add: http_server_listen_def SOCK_STREAM_def AF_INET_def Let_def)

lemma http_server_listen_never_works_witness:
  "fst (run_state (http_server_listen a_server) \<lparr>w_answer = os_ok, w_log = [], w_links = \<lparr>prev_of = \<lambda>_. None, next_of = \<lambda>_. None\<rparr>\<rparr>) = -1"
proof -
  have "fst (run_state (http_server_listen a_server) \<lparr>w_answer = os_ok, w_log = [], w_links = \<lparr>prev_of = \<lambda>_. None, next_of = \<lambda>_. None\<rparr>\<rparr>) = -1 \<and>
    w_log (snd (run_state (http_server_listen a_server) \<lparr>w_answer = os_ok, w_log = [], w_links = \<lparr>prev_of = \<lambda>_. None, next_of = \<lambda>_. None\<rparr>\<rparr>)) =
      w_log \<lparr>w_answer = os_ok, w_log = [], w_links = \<lparr>prev_of = \<lambda>_. None, next_of = \<lambda>_. None\<rparr>\<rparr> @ [Sys_inet_pton SOCK_STREAM (srv_host a_server), Sys_close (srv_fd a_server)]"
    by (rule http_server_listen_never_works) (simp_all add: os_ok_def a_server_def)
  then show ?thesis by blast
qed

text \<open>With an address family the same code binds and listens, and closes the socket on any failure.\<close>

lemma http_server_listen_family:
  assumes "w_answer w (length (w_log w)) (Sys_inet_pton (srv_sock_type server) (srv_host server)) = 1"
  shows "fst (run_state (http_server_listen server) w) = 0 \<or>
    fst (run_state (http_server_listen server) w) = -1 \<and>
    last (w_log (snd (run_state (http_server_listen server) w))) = Sys_close (srv_fd server)"
  using assms by (simp add: http_server_listen_def Let_def)

section \<open>Parsing a request\<close>

lemma http_request_init_lists:
  assumes "rq_sndbuf_list request \<noteq> rq_rcvbuf_list request" "http_request_init request h = (request', h')"
  shows "repr h' (rq_sndbuf_list request') [] \<and> repr h' (rq_rcvbuf_list request') []"
  using assms by (auto simp: http_request_init_def repr_def LIST_INIT_def)

lemma store_line_list [simp]: "rq_rcvbuf_list (store_line e rl request) = rq_rcvbuf_list request"
  by (simp add: store_line_def split: option.split)

lemma http_request_parse_nothing:
  "LIST_EMPTY (rq_rcvbuf_list request) h \<Longrightarrow> http_request_parse fuel bufs h request = Some (Some request)"
  by (cases fuel) simp_all

text \<open>Once something was received, \<open>http_request_parse\<close> never returns: it parses the first buffer again and
  again, since nothing takes it off the list.\<close>

lemma http_request_parse_never_returns:
  assumes "\<not> LIST_EMPTY (rq_rcvbuf_list request) h"
  shows "http_request_parse fuel bufs h request \<in> {None, Some None}"
  using assms by (induction fuel arbitrary: request) (auto split: Option.bind_splits)

definition a_request :: http_request where
  "a_request = \<lparr>rq_fd = 4, rq_line = None, rq_minor_version = 1, rq_headers = [], rq_header_len = 64, rq_parse_status = 0,
     rq_body_offset = 0, rq_is_chunked = 0, rq_is_keepalive = 1, rq_content_length = -1, rq_keepalive_endtime = 0,
     rq_keepalive_request = 0, rq_sndbuf_list = 1, rq_rcvbuf_list = 2, rq_entry = 3\<rparr>"

lemma http_request_parse_never_returns_witness:
  "http_request_parse 2 (\<lambda>a. \<lparr>lb_data = ''GET / HTTP/1.1'' @ [CR, LF], lb_length = 16, lb_capacity = 16, lb_entry = a\<rparr>)
     \<lparr>prev_of = (\<lambda>_. Some 5), next_of = (\<lambda>_. Some 5)\<rparr> a_request \<in> {None, Some None}"
  by (rule http_request_parse_never_returns) (simp add: a_request_def LIST_EMPTY_def)

end
