(* ===== verification/ServerMain.thy ===== *)
theory ServerMain
  imports HttpServer
begin

text \<open>
  \<open>server/main.c\<close> (the same text as \<open>src/http/main.c\<close>): the event loop of the HTTP server, its accept loop
  and its callbacks for reading and writing.

  Results of the operating system that a function consumes in a loop are an argument: the list of
  what its successive \<open>accept\<close>, \<open>read\<close> or \<open>write\<close> calls return; when the list is used up the call would
  block. A result of \<open>write\<close> above the number of bytes it was given, which the kernel never returns, is read as all of
  them. A send queue is the list of its buffers in ring order (theory \<open>ListH\<close> relates the two).
  The callbacks of the source use names that it does not declare; they are read as the parameters
  they stand for (\<open>req->list\<close> as \<open>snd_list\<close>, \<open>rwbuf\<close> as an \<open>ev_buffer\<close>).
\<close>

unbundle bit_operations_syntax

section \<open>Structures and constants\<close>

record ev_buffer =
  eb_offset :: nat
  eb_length :: nat
  eb_data :: string

definition EPOLLIN :: int where "EPOLLIN = 1"
definition EPOLLOUT :: int where "EPOLLOUT = 4"
definition EPOLLERR :: int where "EPOLLERR = 8"
definition EPOLLHUP :: int where "EPOLLHUP = 16"
definition EPOLLET :: int where "EPOLLET = 2 ^ 31"
definition MAX_EVENT_SIZE :: nat where "MAX_EVENT_SIZE = 1024"
definition PORT :: int where "PORT = 9797"
definition BACKLOG_SIZE :: int where "BACKLOG_SIZE = 511"
definition HEADER_SIZE :: nat where "HEADER_SIZE = 4096"

definition EINTR :: int where "EINTR = 4"
definition EBADF :: int where "EBADF = 9"
definition EAGAIN :: int where "EAGAIN = 11"

section \<open>Starting up\<close>

definition set_nonblock :: "int \<Rightarrow> (world, int) state" where
  "set_nonblock fd = do {
     flag \<leftarrow> sys (Sys_getfl fd);
     sys (Sys_setfl fd (flag OR O_NONBLOCK))
   }"

text \<open>Up to the event loop: the listening socket and the epoll descriptor, in the child of the fork; the
  parent, or a process that cannot fork, returns.\<close>

definition main_setup :: "(world, (int \<times> int) option) state" where
  "main_setup = do {
     pid \<leftarrow> sys Sys_fork;
     if pid \<noteq> 0 then State_Monad.return None else do {
     listenfd \<leftarrow> sys (Sys_socket AF_INET SOCK_STREAM 0);
     r \<leftarrow> sys (Sys_setsockopt listenfd SOL_SOCKET SO_REUSEADDR 1);
     r \<leftarrow> sys (Sys_setsockopt listenfd SOL_SOCKET SO_REUSEPORT 1);
     r \<leftarrow> set_nonblock listenfd;
     r \<leftarrow> sys (Sys_bind listenfd AF_INET (htons PORT) ''0.0.0.0'');
     r \<leftarrow> sys (Sys_listen listenfd BACKLOG_SIZE);
     epfd \<leftarrow> sys Sys_epoll_create1;
     r \<leftarrow> sys (Sys_epoll_add epfd listenfd EPOLLIN);
     State_Monad.return (Some (listenfd, epfd)) }
   }"

section \<open>The event loop\<close>

text \<open>The accept loop: every accepted connection is watched for reading, edge-triggered. The result is what
  the last \<open>accept\<close> returned.\<close>

fun accept_loop :: "int \<Rightarrow> int list \<Rightarrow> (world, int) state" where
  "accept_loop epfd [] = State_Monad.return (-1)"
| "accept_loop epfd (connfd # accepts) =
     (if connfd > 0 then do {
        r \<leftarrow> set_nonblock connfd;
        r \<leftarrow> sys (Sys_epoll_add epfd connfd (EPOLLIN OR EPOLLET));
        accept_loop epfd accepts
      }
      else State_Monad.return connfd)"

datatype ev_action = Closed | Accepted int | On_read | On_write | Ignored

text \<open>The body of the loop over the events. \<open>!events & EPOLLIN\<close> negates before it masks.\<close>

definition not_in :: "int \<Rightarrow> bool" where
  "not_in events \<longleftrightarrow> (if events = 0 then 1 else 0) AND EPOLLIN \<noteq> 0"

definition handle_event :: "int \<Rightarrow> int \<Rightarrow> int \<Rightarrow> int \<Rightarrow> int list \<Rightarrow> (world, ev_action) state" where
  "handle_event epfd listenfd fd events accepts =
     (if events AND EPOLLERR \<noteq> 0 \<or> events AND EPOLLHUP \<noteq> 0 \<or> not_in events then
        do { r \<leftarrow> sys (Sys_close fd); State_Monad.return Closed }
      else if fd = listenfd then do { connfd \<leftarrow> accept_loop epfd accepts; State_Monad.return (Accepted connfd) }
      else if events AND EPOLLIN \<noteq> 0 then State_Monad.return On_read
      else if events AND EPOLLOUT \<noteq> 0 then State_Monad.return On_write
      else State_Monad.return Ignored)"

text \<open>One round: the events that \<open>epoll_wait\<close> delivered, with the accepts that each would find.\<close>

fun handle_events :: "int \<Rightarrow> int \<Rightarrow> (int \<times> int \<times> int list) list \<Rightarrow> (world, ev_action list) state" where
  "handle_events epfd listenfd [] = State_Monad.return []"
| "handle_events epfd listenfd ((fd, events, accepts) # evs) = do {
     a \<leftarrow> handle_event epfd listenfd fd events accepts;
     as \<leftarrow> handle_events epfd listenfd evs;
     State_Monad.return (a # as)
   }"

text \<open>The loop and the end of \<open>main\<close>: what each \<open>epoll_wait\<close> returns is given, and the loop ends with the first negative
  result. The second part of the result: whether it has ended.\<close>

fun event_loop :: "int \<Rightarrow> int \<Rightarrow> (int \<times> (int \<times> int \<times> int list) list) list \<Rightarrow> (world, ev_action list \<times> bool) state" where
  "event_loop epfd listenfd [] = State_Monad.return ([], False)"
| "event_loop epfd listenfd ((nfds, events) # polls) =
     (if nfds < 0 then do { r \<leftarrow> sys (Sys_close epfd); State_Monad.return ([], True) }
      else do {
        as \<leftarrow> handle_events epfd listenfd (take (nat nfds) events);
        (bs, ended) \<leftarrow> event_loop epfd listenfd polls;
        State_Monad.return (as @ bs, ended)
      })"

definition server_main :: "(int \<times> (int \<times> int \<times> int list) list) list \<Rightarrow> (world, ev_action list \<times> bool) state" where
  "server_main polls = do {
     fds \<leftarrow> main_setup;
     (case fds of None \<Rightarrow> State_Monad.return ([], True) | Some (listenfd, epfd) \<Rightarrow> event_loop epfd listenfd polls)
   }"

section \<open>Reading a file\<close>

text \<open>\<open>size\<close> is what \<open>fstat\<close> says, \<open>got\<close> what one \<open>read\<close> delivers; the inner \<^term>\<open>None\<close> is NULL.\<close>

definition read_whole :: "int \<Rightarrow> nat \<Rightarrow> string \<Rightarrow> buf option option" where
  "read_whole fd sz got =
     (if fd < 0 then Some None
      else do {
        buf \<leftarrow> malloc (sz_add sz 1);
        buf \<leftarrow> memcpy buf 0 (map Some (take sz got)) 0 (length (take sz got));
        buf \<leftarrow> wr buf sz (Some NUL);
        Some (Some buf)
      })"

section \<open>Sending\<close>

definition http_res_write :: "ev_buffer list \<Rightarrow> string \<Rightarrow> nat \<Rightarrow> ev_buffer list" where
  "http_res_write snd_list data len = snd_list @ [\<lparr>eb_offset = 0, eb_length = len, eb_data = data\<rparr>]"

text \<open>The loop over one buffer: \<open>is_full\<close>, the buffer, the bytes sent, the results left.\<close>

fun write_buffer :: "int list \<Rightarrow> ev_buffer \<Rightarrow> bool \<times> ev_buffer \<times> string \<times> int list" where
  "write_buffer [] b = (eb_offset b < sz_sub (eb_length b) 1, b, [], [])"
| "write_buffer (n # ns) b =
     (if eb_offset b < sz_sub (eb_length b) 1 then
        (if n > 0 then
           (let (full, b', sent, ns') = write_buffer ns (b\<lparr>eb_offset := eb_offset b + nat n\<rparr>)
            in (full, b', take (nat n) (drop (eb_offset b) (eb_data b)) @ sent, ns'))
         else (True, b, [], ns))
      else (False, b, [], n # ns))"

fun write_queue :: "int list \<Rightarrow> ev_buffer list \<Rightarrow> ev_buffer list \<times> string" where
  "write_queue ns [] = ([], [])"
| "write_queue ns (b # q) =
     (let (full, b', sent, ns') = write_buffer ns b in
      if full then (b' # q, sent)
      else (let (q', sent') = write_queue ns' q in (q', sent @ sent')))"

text \<open>The whole callback: the queue, the bytes sent, and whether the connection was closed.\<close>

definition http_on_write :: "int list \<Rightarrow> ev_buffer list \<Rightarrow> ev_buffer list \<times> string \<times> bool" where
  "http_on_write ns q = (let (q', sent) = write_queue ns q in (q', sent, q' = []))"

section \<open>Receiving\<close>

text \<open>A result of \<open>read\<close> with the \<open>errno\<close> it sets. What the callback does: buffers it allocated and lost, how
  often it closed the connection, the response it queued.\<close>

record on_read =
  or_leaked :: nat
  or_closes :: nat
  or_response :: "string option"

definition read_error :: "int \<Rightarrow> bool" where
  "read_error errno \<longleftrightarrow> errno \<noteq> EAGAIN \<and> errno \<noteq> EINTR"

text \<open>The first loop reads until there is nothing; it keeps no data and frees only its last buffer.\<close>

fun drain_loop :: "(int \<times> int) list \<Rightarrow> on_read \<Rightarrow> on_read \<times> (int \<times> int) list" where
  "drain_loop [] st = (st, [])"
| "drain_loop ((len, errno) # rs) st =
     (if len > 0 then drain_loop rs (st\<lparr>or_leaked := or_leaked st + 1\<rparr>)
      else if len < 0 then (if read_error errno then (st\<lparr>or_closes := or_closes st + 1\<rparr>, rs) else (st, rs))
      else (st\<lparr>or_closes := or_closes st + 1\<rparr>, rs))"

text \<open>What one more \<open>read\<close> returns: the connection may be closed by now.\<close>

definition next_read :: "on_read \<Rightarrow> (int \<times> int) list \<Rightarrow> int \<times> int" where
  "next_read st rs = (if or_closes st > 0 then (-1, EBADF) else case rs of [] \<Rightarrow> (-1, EAGAIN) | r # _ \<Rightarrow> r)"

definition http_on_read :: "(int \<times> int) list \<Rightarrow> string \<Rightarrow> on_read" where
  "http_on_read rs content =
     (let (st, rs') = drain_loop rs \<lparr>or_leaked = 0, or_closes = 0, or_response = None\<rparr>;
          (n, errno) = next_read st rs'
      in if n = -1 \<and> read_error errno then st\<lparr>or_closes := or_closes st + 1\<rparr>
         else if n > 0 then st\<lparr>or_response := Some (''HTTP/1.1 200 OK'' @ [CR, LF, CR, LF, CR, LF] @ content)\<rparr>
         else st\<lparr>or_closes := or_closes st + 1\<rparr>)"

section \<open>What the callbacks do\<close>

lemma not_in_iff: "not_in events \<longleftrightarrow> events = 0"
  by (simp add: not_in_def EPOLLIN_def)

text \<open>An event for writing alone is not closed by the test that was meant to want \<open>EPOLLIN\<close>.\<close>

lemma handle_event_out:
  "fd \<noteq> listenfd \<Longrightarrow> run_state (handle_event epfd listenfd fd EPOLLOUT accepts) w = (On_write, w)"
  by (simp add: handle_event_def not_in_iff EPOLLOUT_def EPOLLERR_def EPOLLHUP_def EPOLLIN_def)

text \<open>Every accepted connection is made non-blocking and watched, in the order of the accepts.\<close>

lemma accept_loop_watches:
  "\<forall>c \<in> set cs. c > 0 \<Longrightarrow>
   [(fd, e) . c \<leftarrow> w_log (snd (run_state (accept_loop epfd (cs @ [-1])) w)), Sys_epoll_add ep fd e \<leftarrow> [c]] =
   [(fd, e) . c \<leftarrow> w_log w, Sys_epoll_add ep fd e \<leftarrow> [c]] @ map (\<lambda>c. (c, EPOLLIN OR EPOLLET)) cs"
  by (induction cs arbitrary: w) (simp_all add: set_nonblock_def)

definition pending :: "ev_buffer \<Rightarrow> string" where
  "pending b = drop (eb_offset b) (eb_data b)"

definition good_buffer :: "ev_buffer \<Rightarrow> bool" where
  "good_buffer b \<longleftrightarrow> eb_data b \<noteq> [] \<and> eb_length b = length (eb_data b)"

text \<open>What the callback is to do, on the unsent bytes of the buffers: \<open>ns\<close> are the results of \<open>write\<close>. The bytes taken
  are the first ones not yet sent; a buffer is finished when at most one byte of it is left, and stays, with
  what is left of it, when a write takes nothing first.\<close>

fun send_one :: "int list \<Rightarrow> string \<Rightarrow> bool \<times> string \<times> string \<times> int list" where
  "send_one [] p = (1 < length p, p, [], [])"
| "send_one (n # ns) p =
     (if length p \<le> 1 then (False, p, [], n # ns)
      else if n \<le> 0 then (True, p, [], ns)
      else (let (stays, p', sent, ns') = send_one ns (drop (nat n) p) in (stays, p', take (nat n) p @ sent, ns')))"

fun send_all :: "int list \<Rightarrow> string list \<Rightarrow> string list \<times> string" where
  "send_all ns [] = ([], [])"
| "send_all ns (p # ps) =
     (let (stays, p', sent, ns') = send_one ns p in
      if stays then (p' # ps, sent) else (let (ps', sent') = send_all ns' ps in (ps', sent @ sent')))"

lemma send_one_rest:
  "send_one ns p = (stays, p', sent, ns') \<Longrightarrow> sent @ p' = p \<and> (stays \<longleftrightarrow> 1 < length p')"
proof (induction ns p arbitrary: stays p' sent ns' rule: send_one.induct)
  case (2 n ns p)
  show ?case
  proof (cases "length p \<le> 1 \<or> n \<le> 0")
    case False
    obtain st p1 s1 ns1 where o: "send_one ns (drop (nat n) p) = (st, p1, s1, ns1)" by (cases "send_one ns (drop (nat n) p)") auto
    from 2(1) [OF _ _ o] False have "s1 @ p1 = drop (nat n) p" "st \<longleftrightarrow> 1 < length p1" by auto
    with 2(2) o False show ?thesis by (auto simp: append_take_drop_id)
  qed (use 2(2) in \<open>auto split: if_splits\<close>)
qed auto

lemma write_buffer_send:
  "good_buffer b \<Longrightarrow> write_buffer ns b = (full, b', sent, ns') \<Longrightarrow> send_one ns (pending b) = (full, pending b', sent, ns')"
proof (induction ns b arbitrary: full b' sent ns' rule: write_buffer.induct)
  case (1 b)
  then have "sz_sub (eb_length b) 1 = length (eb_data b) - 1" by (simp add: good_buffer_def Suc_leI)
  then show ?case using 1 by (auto simp: pending_def)
next
  case (2 n ns b)
  have l: "sz_sub (eb_length b) 1 = length (eb_data b) - 1" using 2(2) by (simp add: good_buffer_def Suc_leI)
  show ?case
  proof (cases "eb_offset b < sz_sub (eb_length b) 1 \<and> n > 0")
    case True
    let ?b = "b\<lparr>eb_offset := eb_offset b + nat n\<rparr>"
    obtain full1 b1 sent1 ns1 where w: "write_buffer ns ?b = (full1, b1, sent1, ns1)"
      by (cases "write_buffer ns ?b") auto
    have g: "good_buffer ?b" using 2(2) by (simp add: good_buffer_def)
    from 2(1) [OF _ _ g w] True have ih: "send_one ns (pending ?b) = (full1, pending b1, sent1, ns1)" by auto
    have "pending ?b = drop (nat n) (pending b)" by (simp add: pending_def add.commute)
    moreover have "\<not> length (pending b) \<le> 1" using True l by (simp add: pending_def) arith
    ultimately show ?thesis using ih True 2(3) w by (auto simp: pending_def)
  next
    case False
    then show ?thesis using 2(2,3) l by (auto simp: pending_def split: if_splits)
  qed
qed

lemma write_queue_send:
  "\<forall>b \<in> set q. good_buffer b \<Longrightarrow> write_queue ns q = (q', sent) \<Longrightarrow> send_all ns (map pending q) = (map pending q', sent)"
proof (induction q arbitrary: ns q' sent)
  case (Cons b q)
  obtain full b' s ns' where w: "write_buffer ns b = (full, b', s, ns')" by (cases "write_buffer ns b") auto
  obtain q1 s1 where q1: "write_queue ns' q = (q1, s1)" by (cases "write_queue ns' q")
  have "send_all ns' (map pending q) = (map pending q1, s1)" using Cons.prems(1) q1 by (intro Cons.IH) auto
  moreover have "send_one ns (pending b) = (full, pending b', s, ns')" using Cons.prems(1) w by (intro write_buffer_send) auto
  ultimately show ?case using Cons.prems(2) w q1 by (auto split: if_splits)
qed simp

lemma write_queue_parts:
  "\<forall>b \<in> set q. good_buffer b \<Longrightarrow> write_queue ns q = (q', sent) \<Longrightarrow>
   \<exists>finished rest outs. q = finished @ rest \<and>
    list_all2 (\<lambda>b out. \<exists>t. pending b = out @ t \<and> length t \<le> 1) finished outs \<and>
    (case rest of
       [] \<Rightarrow> q' = [] \<and> sent = concat outs
     | b # bs \<Rightarrow> \<exists>b' out. q' = b' # bs \<and> sent = concat outs @ out \<and> out @ pending b' = pending b \<and> 1 < length (pending b'))"
proof (induction q arbitrary: ns q' sent)
  case (Cons b q)
  obtain full b' s ns' where w: "write_buffer ns b = (full, b', s, ns')" by (cases "write_buffer ns b") auto
  have b: "s @ pending b' = pending b" "full \<longleftrightarrow> 1 < length (pending b')"
    using send_one_rest [OF write_buffer_send [OF _ w]] Cons.prems(1) by auto
  show ?case
  proof (cases full)
    case True
    then show ?thesis using Cons.prems(2) w b by (intro exI [of _ "[]"] exI [of _ "b # q"]) auto
  next
    case False
    obtain q1 s1 where q1: "write_queue ns' q = (q1, s1)" by (cases "write_queue ns' q")
    with False w Cons.prems have e: "q' = q1" "sent = s @ s1" by auto
    from Cons.IH [OF _ q1] Cons.prems(1) obtain finished rest outs where r: "q = finished @ rest"
      "list_all2 (\<lambda>b out. \<exists>t. pending b = out @ t \<and> length t \<le> 1) finished outs"
      "case rest of
         [] \<Rightarrow> q1 = [] \<and> s1 = concat outs
       | b # bs \<Rightarrow> \<exists>b' out. q1 = b' # bs \<and> s1 = concat outs @ out \<and> out @ pending b' = pending b \<and> 1 < length (pending b')"
      by auto
    have "list_all2 (\<lambda>b out. \<exists>t. pending b = out @ t \<and> length t \<le> 1) (b # finished) (s # outs)"
      using r(2) b False by (auto intro!: exI [of _ "pending b'"])
    moreover have "b # q = (b # finished) @ rest" using r(1) by simp
    ultimately show ?thesis using r(3) e
      by (intro exI [of _ "b # finished"] exI [of _ rest] exI [of _ "s # outs"]) (auto split: list.splits)
  qed
qed (auto intro!: exI [of _ "[]"])

text \<open>C14. Sending: the callback does to the queue what \<open>send_all\<close> says of the unsent bytes of its buffers, and
  closes the connection just when the queue is empty then. So it writes the buffers in order; it drops a
  buffer when at most its last byte is unsent, and keeps the first one of which more is left, its
  offset advanced by what was sent of it. (The buffers are not empty, and their length is that of their data.)\<close>

theorem http_on_write_sends:
  assumes "\<forall>b \<in> set q. good_buffer b" "http_on_write ns q = (q', sent, closed)"
  shows "send_all ns (map pending q) = (map pending q', sent) \<and> (closed \<longleftrightarrow> q' = []) \<and>
    (\<exists>finished rest outs. q = finished @ rest \<and>
      list_all2 (\<lambda>b out. \<exists>t. pending b = out @ t \<and> length t \<le> 1) finished outs \<and>
      (case rest of
         [] \<Rightarrow> q' = [] \<and> sent = concat outs
       | b # bs \<Rightarrow> \<exists>b' out. q' = b' # bs \<and> sent = concat outs @ out \<and> out @ pending b' = pending b \<and> 1 < length (pending b')))"
proof -
  have w: "write_queue ns q = (q', sent)" and c: "closed \<longleftrightarrow> q' = []"
    using assms(2) by (auto simp: http_on_write_def split: prod.splits)
  show ?thesis by (intro conjI write_queue_send [OF assms(1) w] write_queue_parts [OF assms(1) w] c)
qed

definition reply :: "string \<Rightarrow> ev_buffer" where "reply d = \<lparr>eb_offset = 0, eb_length = length d, eb_data = d\<rparr>"

lemma http_on_write_sends_witness:
  "send_all [3, 2, 1, -1] [''hello'', ''you''] = ([''ou''], ''helloy'') \<and>
   (\<exists>finished rest. [reply ''hello'', reply ''you''] = finished @ rest \<and> rest \<noteq> [])"
proof -
  have "http_on_write [3, 2, 1, -1] [reply ''hello'', reply ''you''] = ([reply ''you'' \<lparr>eb_offset := 1\<rparr>], ''helloy'', False)"
    by (simp add: reply_def http_on_write_def)
  from http_on_write_sends [OF _ this] have
    "send_all [3, 2, 1, -1] (map pending [reply ''hello'', reply ''you'']) = (map pending [reply ''you'' \<lparr>eb_offset := 1\<rparr>], ''helloy'')"
    "\<exists>finished rest. [reply ''hello'', reply ''you''] = finished @ rest \<and> rest \<noteq> []"
    by (auto simp: good_buffer_def reply_def split: list.splits)
  then show ?thesis by (simp add: pending_def reply_def)
qed

text \<open>When a write takes all but the last byte of a response, that byte is never sent: the loop ends at
  \<open>length - 1\<close>, the buffer is freed and the connection closed.\<close>

lemma http_on_write_loses_last_byte:
  assumes "2 \<le> length d"
  shows "http_on_write [int (length d) - 1] (http_res_write [] d (length d)) = ([], butlast d, True)"
proof -
  have s: "sz_sub (length d) 1 = length d - 1" "0 < length d - 1" "int (length d) - 1 > 0" "nat (int (length d) - 1) = length d - 1"
    using assms by auto
  then show ?thesis by (simp add: http_on_write_def http_res_write_def butlast_conv_take)
qed

lemma http_on_write_loses_last_byte_witness: "http_on_write [4] (http_res_write [] ''hello'' 5) = ([], ''hell'', True)"
  using http_on_write_loses_last_byte [of "''hello''"] by (simp add: eval_nat_numeral)

lemma drain_loop_data:
  "\<forall>r \<in> set rs. fst r > 0 \<Longrightarrow> drain_loop (rs @ xs) st = drain_loop xs (st\<lparr>or_leaked := or_leaked st + length rs\<rparr>)"
  by (induction rs arbitrary: st) auto

text \<open>Receiving: whatever arrived, when the callback has read it all (\<open>EAGAIN\<close>) it has kept none of it,
  lost one buffer for every read that delivered data, and closes the connection without a response.\<close>

lemma http_on_read_never_answers:
  assumes "\<forall>r \<in> set rs. fst r > 0"
  shows "http_on_read (rs @ [(-1, EAGAIN)]) content = \<lparr>or_leaked = length rs, or_closes = 1, or_response = None\<rparr>"
  by (simp add: http_on_read_def drain_loop_data [OF assms] next_read_def read_error_def)

lemma http_on_read_never_answers_witness:
  "http_on_read ([(57, 0)] @ [(-1, EAGAIN)]) ''file'' = \<lparr>or_leaked = 1, or_closes = 1, or_response = None\<rparr>"
  using http_on_read_never_answers [of "[(57, 0)]" "''file''"] by simp

text \<open>After the peer closed, the descriptor is closed twice.\<close>

lemma http_on_read_closes_twice:
  assumes "\<forall>r \<in> set rs. fst r > 0"
  shows "or_closes (http_on_read (rs @ (0, errno) # xs) content) = 2"
  by (simp add: http_on_read_def drain_loop_data [OF assms] next_read_def read_error_def EBADF_def EAGAIN_def EINTR_def)

lemma read_whole_contents:
  assumes "0 \<le> fd" "length got = sz" "Suc sz < obj_limit"
  shows "read_whole fd sz got = Some (Some (map Some got @ [Some NUL]))"
proof -
  have "sz_add sz 1 = Suc sz" using assms(3) by (simp add: obj_limit_def)
  then show ?thesis using assms by (simp add: read_whole_def memcpy_def list_update_append wr_def)
qed

text \<open>When the loop has ended, the last thing it did was to close the epoll descriptor; connections stay open.\<close>

lemma event_loop_closes:
  "run_state (event_loop epfd listenfd polls) w = ((as, True), w') \<Longrightarrow> last (w_log w') = Sys_close epfd"
proof (induction epfd listenfd polls arbitrary: w "as" rule: event_loop.induct)
  case (2 epfd listenfd nfds events polls)
  show ?case
  proof (cases "nfds < 0")
    case True
    with "2.prems" show ?thesis by auto
  next
    case False
    obtain bs w1 where h: "run_state (handle_events epfd listenfd (take (nat nfds) events)) w = (bs, w1)" by fastforce
    obtain cs e w2 where l: "run_state (event_loop epfd listenfd polls) w1 = ((cs, e), w2)" by (metis prod.exhaust)
    from "2.prems" False h l have e: "e = True" "w2 = w'" by auto
    show ?thesis by (rule "2.IH" [OF False l [unfolded e]])
  qed
qed auto

end
