(* ===== verification/Fs.thy ===== *)
theory Fs
  imports Eio
begin

text \<open>
  The module \<open>fs\<close> of the JavaScript runtime (\<open>xxx/fs/fs.cc\<close>): \<open>open\<close>, \<open>read\<close> and \<open>close\<close> each build a
  request, return a promise and queue the request; a worker runs the operation of \<open>xxx/eio\<close> on it, the
  loop runs its callback, which settles the promise, and disposes of it. One request is followed from
  the call to the end, on top of the memory model of \<open>Eio\<close>; here the contents of plain blocks matter
  too, because callbacks read them as C strings.

  V8 is a parameter: the conversions between JavaScript values of type \<^typ>\<open>'v\<close> and C values. The macros
  \<open>V8_STR\<close> and \<open>V8_INT\<close> are not in the repository; they stand for the conversions of their argument,
  where \<open>V8_STR\<close>, given no length, reads up to the terminator.
\<close>

record 'v v8 =
  utf8_value :: "'v \<Rightarrow> string"
  integer_value :: "'v \<Rightarrow> int"
  V8_STR :: "string \<Rightarrow> 'v"
  V8_INT :: "int \<Rightarrow> 'v"
  V8_ERROR :: "int \<Rightarrow> string \<Rightarrow> 'v"

text \<open>The arguments of a call: their number, and each of them (past the number, the value \<open>undefined\<close>).\<close>

record 'v call_info =
  c_len :: nat
  c_arg :: "nat \<Rightarrow> 'v"

section \<open>The exported object\<close>

datatype fs_member = F_open | F_read | F_close | F_int int

definition O_RDONLY :: int where "O_RDONLY = 0"
definition S_IRUSR :: int where "S_IRUSR = 0x100"
definition S_IWUSR :: int where "S_IWUSR = 0x80"
definition S_IXUSR :: int where "S_IXUSR = 0x40"
definition S_IRGRP :: int where "S_IRGRP = 0x20"
definition S_IWGRP :: int where "S_IWGRP = 0x10"
definition S_IXGRP :: int where "S_IXGRP = 8"
definition S_IROTH :: int where "S_IROTH = 4"
definition S_IWOTH :: int where "S_IWOTH = 2"
definition S_IXOTH :: int where "S_IXOTH = 1"

definition fs_init :: "(string \<times> fs_member) list" where
  "fs_init =
     [(''open'', F_open),
      (''read'', F_read),
      (''close'', F_close),
      (''O_RDONLY'', F_int O_RDONLY),
      (''O_WRONLY'', F_int 1),
      (''O_RDWR'', F_int 2),
      (''O_CREAT'', F_int 0x40),
      (''O_EXCL'', F_int 0x80),
      (''O_APPEND'', F_int 0x400),
      (''O_SYNC'', F_int 0x101000),
      (''O_TRUNC'', F_int 0x200),
      (''S_IRUSR'', F_int S_IRUSR),
      (''S_IWUSR'', F_int S_IWUSR),
      (''S_IXUSR'', F_int S_IXUSR),
      (''S_IRGRP'', F_int S_IRGRP),
      (''S_IWGRP'', F_int S_IWGRP),
      (''S_IXGRP'', F_int S_IXGRP),
      (''S_IROTH'', F_int S_IROTH),
      (''S_IWOTH'', F_int S_IWOTH),
      (''S_IXOTH'', F_int S_IXOTH),
      (''S_IRWXO'', F_int 7),
      (''S_IRWXG'', F_int 0x38),
      (''S_IRWXU'', F_int 0x1C0)]"

section \<open>A request and its promise\<close>

datatype 'v promise = Pending | Fulfilled 'v | Rejected 'v

datatype callback = Callback1 | Callback2 | Callback3

text \<open>A queued request: its memory, the contents of the plain blocks, the block of its resolver, the
  function the worker is to run (with the operating system as its argument) and the callback.\<close>

record 'v job =
  j_eio :: eio
  j_text :: "addr \<Rightarrow> buf"
  j_resolver :: addr
  j_promise :: "'v promise"
  j_work :: "os \<Rightarrow> eio \<Rightarrow> eio option"
  j_callback :: callback

text \<open>Writing a member of the union \<open>args[i]\<close>: an \<open>int\<close> or \<open>mode_t\<close> takes the low 32 bits and leaves the
  others, \<open>size\<close> takes all 64.\<close>

definition set_arg32 :: "nat \<Rightarrow> int \<Rightarrow> eio \<Rightarrow> eio" where
  "set_arg32 i x st = st\<lparr>e_req := (e_req st)\<lparr>r_args := (r_args (e_req st))
     [i := r_args (e_req st) ! i div 2 ^ 32 * 2 ^ 32 + nat (x mod 2 ^ 32)]\<rparr>\<rparr>"

definition set_arg64 :: "nat \<Rightarrow> nat \<Rightarrow> eio \<Rightarrow> eio" where
  "set_arg64 i n st = st\<lparr>e_req := (e_req st)\<lparr>r_args := (r_args (e_req st))[i := n mod 2 ^ 64]\<rparr>\<rparr>"

text \<open>The end of the three functions: a new promise, and a handle on its resolver in the request.\<close>

definition make_job :: "(os \<Rightarrow> eio \<Rightarrow> eio option) \<Rightarrow> callback \<Rightarrow> (addr \<Rightarrow> buf) \<Rightarrow> eio \<Rightarrow> 'v job" where
  "make_job work cb text st =
     \<lparr>j_eio = new_block Bytes st, j_text = text, j_resolver = e_next st, j_promise = Pending,
      j_work = work, j_callback = cb\<rparr>"

text \<open>Where a call starts: the heap, the next free address, the contents of blocks, and what the fresh
  memory of the request happens to hold in its arguments and result.\<close>

record heap =
  h_mem :: "addr \<Rightarrow> block option"
  h_next :: addr
  h_text :: "addr \<Rightarrow> buf"
  h_args :: "nat list"
  h_ret :: int

definition fs_open :: "'v v8 \<Rightarrow> 'v call_info \<Rightarrow> heap \<Rightarrow> 'v job" where
  "fs_open V args h =
     (let str = utf8_value V (c_arg args 0);
          path = h_next h;
          text = (h_text h)(path := map Some str @ [Some NUL]);
          st0 = EIO_REQ_ALLOC ((h_mem h)(path \<mapsto> Bytes)) (path + 1) (h_args h) (h_ret h);
          st1 = set_ptr 0 (Some path) st0;
          st2 = set_arg32 0 O_RDONLY st1;
          st3 = set_arg32 1 (S_IRUSR + S_IWUSR + S_IRGRP + S_IWGRP + S_IROTH) st2;
          len = c_len args;
          st4 = (if 2 \<le> len then set_arg32 0 (integer_value V (c_arg args 1)) st3 else st3);
          st5 = (if 3 \<le> len then set_arg32 1 (integer_value V (c_arg args 2)) st4 else st4)
      in make_job eio_open Callback2 text st5)"

definition fs_read :: "'v v8 \<Rightarrow> 'v call_info \<Rightarrow> heap \<Rightarrow> 'v job" where
  "fs_read V args h =
     (let st0 = EIO_REQ_ALLOC (h_mem h) (h_next h) (h_args h) (h_ret h);
          st1 = set_arg32 0 (integer_value V (c_arg args 0)) st0;
          st2 = set_arg64 1 255 st1;
          buf = e_next st2;
          st3 = set_ptr 0 (Some buf) (new_block Bytes st2);
          text = (h_text h)(buf := replicate 255 None)
      in make_job eio_read Callback3 text st3)"

definition fs_close :: "'v v8 \<Rightarrow> 'v call_info \<Rightarrow> heap \<Rightarrow> 'v job" where
  "fs_close V args h =
     (let st0 = EIO_REQ_ALLOC (h_mem h) (h_next h) (h_args h) (h_ret h);
          st1 = set_arg32 0 (integer_value V (c_arg args 0)) st0
      in make_job eio_close Callback1 (h_text h) st1)"

section \<open>The worker and the callback\<close>

text \<open>The worker: the system call may write bytes to the buffer that the first pointer points to (\<open>data\<close>
  are the bytes the kernel writes), and an error text of at most 127 bytes fills the new error buffer.\<close>

definition put_bytes :: "string \<Rightarrow> buf \<Rightarrow> buf" where
  "put_bytes data b = map Some data @ drop (length data) b"

definition err_text :: "string \<Rightarrow> buf" where
  "err_text t = cstr_mem (take 127 t) @ replicate (127 - length t) None"

definition work :: "os \<Rightarrow> (int \<Rightarrow> string) \<Rightarrow> string \<Rightarrow> 'v job \<Rightarrow> 'v job option" where
  "work os strerror data j =
     (case j_work j os (j_eio j) of
        None \<Rightarrow> None
      | Some st \<Rightarrow>
          (let text1 = (case ptr_at 0 (j_eio j) of
                 None \<Rightarrow> j_text j
               | Some a \<Rightarrow> (j_text j)(a := put_bytes data (j_text j a)));
               text2 = (case r_errbuf (e_req st) of
                 None \<Rightarrow> text1
               | Some a \<Rightarrow> text1(a := err_text (strerror (r_errnum (e_req st)))))
           in Some (j\<lparr>j_eio := st, j_text := text2\<rparr>)))"

text \<open>\<open>V8_STR\<close> of a pointer: undefined for a null pointer, and when no terminator is met before the end of
  the block or an indeterminate byte.\<close>

definition str_of :: "'v v8 \<Rightarrow> (addr \<Rightarrow> buf) \<Rightarrow> addr option \<Rightarrow> 'v option" where
  "str_of V text p = (case p of None \<Rightarrow> None | Some a \<Rightarrow> map_option (V8_STR V) (c_str (text a)))"

definition err_of :: "'v v8 \<Rightarrow> 'v job \<Rightarrow> 'v option" where
  "err_of V j =
     (case r_errbuf (e_req (j_eio j)) of
        None \<Rightarrow> None
      | Some a \<Rightarrow> map_option (V8_ERROR V (r_errnum (e_req (j_eio j)))) (c_str (j_text j a)))"

text \<open>\<open>delete r\<close>, after the promise is settled.\<close>

definition settle :: "'v promise \<Rightarrow> 'v job \<Rightarrow> 'v job option" where
  "settle p j = do {
     st \<leftarrow> free_ptr (Some (j_resolver j)) (j_eio j);
     Some (j\<lparr>j_eio := st, j_promise := p\<rparr>)
   }"

definition eio_req_fs_callback1 :: "'v v8 \<Rightarrow> 'v job \<Rightarrow> 'v job option" where
  "eio_req_fs_callback1 V j =
     (if r_errnum (e_req (j_eio j)) \<noteq> 0
      then do { obj \<leftarrow> err_of V j; settle (Rejected obj) j }
      else settle (Fulfilled (V8_INT V (r_errnum (e_req (j_eio j))))) j)"

definition eio_req_fs_callback2 :: "'v v8 \<Rightarrow> 'v job \<Rightarrow> 'v job option" where
  "eio_req_fs_callback2 V j =
     (if r_errnum (e_req (j_eio j)) \<noteq> 0
      then do { obj \<leftarrow> err_of V j; settle (Rejected obj) j }
      else settle (Fulfilled (V8_INT V (c_int (r_ret (e_req (j_eio j)))))) j)"

definition eio_req_fs_callback3 :: "'v v8 \<Rightarrow> 'v job \<Rightarrow> 'v job option" where
  "eio_req_fs_callback3 V j =
     (if r_errnum (e_req (j_eio j)) \<noteq> 0
      then do { obj \<leftarrow> err_of V j; settle (Rejected obj) j }
      else do { v \<leftarrow> str_of V (j_text j) (ptr_at 0 (j_eio j)); settle (Fulfilled v) j })"

definition run_callback :: "'v v8 \<Rightarrow> 'v job \<Rightarrow> 'v job option" where
  "run_callback V j =
     (case j_callback j of
        Callback1 \<Rightarrow> eio_req_fs_callback1 V j
      | Callback2 \<Rightarrow> eio_req_fs_callback2 V j
      | Callback3 \<Rightarrow> eio_req_fs_callback3 V j)"

text \<open>The life of a request: the worker runs it, the loop runs its callback and disposes of it
  (\<open>req->callback(req); EIO_REQ_FREE(req)\<close>). The result is the promise and the heap.\<close>

definition complete :: "'v v8 \<Rightarrow> os \<Rightarrow> (int \<Rightarrow> string) \<Rightarrow> string \<Rightarrow> 'v job \<Rightarrow> ('v promise \<times> (addr \<Rightarrow> block option)) option" where
  "complete V os strerror data j = do {
     j1 \<leftarrow> work os strerror data j;
     j2 \<leftarrow> run_callback V j1;
     st \<leftarrow> EIO_REQ_FREE (j_eio j2);
     Some (j_promise j2, e_mem st)
   }"

section \<open>Library\<close>

lemma set_arg_simps [simp]:
  "e_mem (set_arg32 i x st) = e_mem st" "e_next (set_arg32 i x st) = e_next st" "e_self (set_arg32 i x st) = e_self st"
  "r_errbuf (e_req (set_arg32 i x st)) = r_errbuf (e_req st)" "r_errnum (e_req (set_arg32 i x st)) = r_errnum (e_req st)"
  "ptr_at j (set_arg32 i x st) = ptr_at j st" "length (r_args (e_req (set_arg32 i x st))) = length (r_args (e_req st))"
  "e_mem (set_arg64 i n st) = e_mem st" "e_next (set_arg64 i n st) = e_next st" "e_self (set_arg64 i n st) = e_self st"
  "r_errbuf (e_req (set_arg64 i n st)) = r_errbuf (e_req st)" "r_errnum (e_req (set_arg64 i n st)) = r_errnum (e_req st)"
  "ptr_at j (set_arg64 i n st) = ptr_at j st" "length (r_args (e_req (set_arg64 i n st))) = length (r_args (e_req st))"
  by (simp_all add: set_arg32_def set_arg64_def ptr_at_def)

lemma own_set_arg [simp]: "own (set_arg32 i x st) = own st" "own (set_arg64 i n st) = own st"
  by (simp_all add: own_def)

lemma own_new_block [simp]: "own (new_block b st) = own st"
  by (simp add: own_def new_block_def ptr_at_def)

lemma new_block_simps [simp]:
  "e_mem (new_block b st) = (e_mem st)(e_next st \<mapsto> b)" "e_next (new_block b st) = e_next st + 1"
  "e_req (new_block b st) = e_req st" "e_self (new_block b st) = e_self st" "ptr_at i (new_block b st) = ptr_at i st"
  by (simp_all add: new_block_def ptr_at_def)

lemma alloc_simps [simp]:
  "e_mem (EIO_REQ_ALLOC m n a r) = m(n \<mapsto> Bytes)" "e_next (EIO_REQ_ALLOC m n a r) = n + 1"
  "e_self (EIO_REQ_ALLOC m n a r) = n" "ptr_at i (EIO_REQ_ALLOC m n a r) = None"
  "r_errbuf (e_req (EIO_REQ_ALLOC m n a r)) = None" "r_errnum (e_req (EIO_REQ_ALLOC m n a r)) = 0"
  "r_args (e_req (EIO_REQ_ALLOC m n a r)) = a" "own (EIO_REQ_ALLOC m n a r) = [n]"
  by (simp_all add: EIO_REQ_ALLOC_def ptr_at_def own_def)

text \<open>The members just written are read back.\<close>

lemma c_int_idem: "c_int (int (n * 2 ^ 32 + nat (x mod 2 ^ 32))) = c_int x"
proof -
  have "int (n * 2 ^ 32 + nat (x mod 2 ^ 32)) + 2 ^ 31 = (x mod 2 ^ 32 + 2 ^ 31) + int n * 2 ^ 32" by simp
  then have "(int (n * 2 ^ 32 + nat (x mod 2 ^ 32)) + 2 ^ 31) mod 2 ^ 32 = (x mod 2 ^ 32 + 2 ^ 31) mod 2 ^ 32"
    by (metis mod_mult_self1)
  also have "\<dots> = (x + 2 ^ 31) mod 2 ^ 32" by (rule mod_add_left_eq)
  finally show ?thesis by (simp only: c_int_def)
qed

lemma arg_int_set [simp]:
  "i < length (r_args (e_req st)) \<Longrightarrow> arg_int i (set_arg32 i x st) = c_int x"
  "i \<noteq> j \<Longrightarrow> arg_int i (set_arg32 j x st) = arg_int i st"
  "i \<noteq> j \<Longrightarrow> arg_int i (set_arg64 j n st) = arg_int i st"
  using c_int_idem [of "r_args (e_req st) ! i div 2 ^ 32" x]
  by (simp_all add: arg_int_def set_arg32_def set_arg64_def)

lemma arg_u32_set [simp]:
  "i < length (r_args (e_req st)) \<Longrightarrow> arg_u32 i (set_arg32 i x st) = nat (x mod 2 ^ 32)"
  "i \<noteq> j \<Longrightarrow> arg_u32 i (set_arg32 j x st) = arg_u32 i st"
proof -
  assume i: "i < length (r_args (e_req st))"
  have "nat (x mod 2 ^ 32) < 2 ^ 32" by (simp add: nat_less_iff)
  then have "(r_args (e_req st) ! i div 2 ^ 32 * 2 ^ 32 + nat (x mod 2 ^ 32)) mod 2 ^ 32 = nat (x mod 2 ^ 32)"
    by (metis mod_less mod_mult_self3)
  with i show "arg_u32 i (set_arg32 i x st) = nat (x mod 2 ^ 32)" by (simp add: arg_u32_def set_arg32_def)
qed (simp add: arg_u32_def set_arg32_def)

lemma arg_size_set [simp]:
  "i < length (r_args (e_req st)) \<Longrightarrow> arg_size i (set_arg64 i n st) = n mod 2 ^ 64"
  by (simp add: arg_size_def set_arg64_def)

lemma arg_new_block [simp]: "arg_int i (new_block b st) = arg_int i st" "arg_size i (new_block b st) = arg_size i st"
  "arg_u32 i (new_block b st) = arg_u32 i st"
  by (simp_all add: arg_int_def arg_size_def arg_u32_def)

lemma arg_set_ptr [simp]: "arg_int i (set_ptr j p st) = arg_int i st" "arg_size i (set_ptr j p st) = arg_size i st"
  "arg_u32 i (set_ptr j p st) = arg_u32 i st"
  by (simp_all add: arg_int_def arg_size_def arg_u32_def set_ptr_def)

lemma c_str_err_text [simp]: "no_nul t \<Longrightarrow> c_str (err_text t) = Some (take 127 t)"
proof -
  assume "no_nul t"
  then have "no_nul (take 127 t)" using set_take_subset [of 127 t] by (auto simp: no_nul_def)
  then show ?thesis by (simp add: err_text_def cstr_mem_def)
qed

text \<open>A buffer of which only the front was written.\<close>

lemma c_str_partial:
  "c_str (map Some data @ drop k (replicate n None)) =
     (if no_nul data then None else Some (takeWhile (\<lambda>c. c \<noteq> NUL) data))"
proof (induction data)
  case Nil
  then show ?case by (cases "n - k") simp_all
qed auto

text \<open>A request ready to run: well-formed, without an error, and with its resolver in a block of its own.\<close>

definition ready :: "'v job \<Rightarrow> bool" where
  "ready j \<longleftrightarrow> eio_wf (j_eio j) \<and> r_errbuf (e_req (j_eio j)) = None \<and> r_errnum (e_req (j_eio j)) = 0 \<and>
     others (j_eio j) (j_resolver j) = Some Bytes"

lemma settle_and_free:
  assumes k: "keeps st (j_eio j)" and r: "others st (j_resolver j) = Some Bytes"
  shows "\<exists>j' st'. settle p j = Some j' \<and> j_promise j' = p \<and> EIO_REQ_FREE (j_eio j') = Some st' \<and>
    e_mem st' = (others st)(j_resolver j := None)"
proof -
  let ?s = "j_eio j" and ?r = "j_resolver j"
  have wf: "eio_wf ?s" and o: "others ?s = others st" using k by (simp_all add: keeps_def)
  have nr: "?r \<notin> set (own ?s)" "e_mem ?s ?r = Some Bytes"
    using r unfolding o [symmetric] by (auto simp: others_def restrict_map_def split: if_splits)
  let ?s1 = "?s\<lparr>e_mem := (e_mem ?s)(?r := None)\<rparr>"
  have "eio_wf ?s1" using wf nr by (auto simp: eio_wf_def)
  moreover have "others ?s1 = (others st)(?r := None)"
    unfolding o [symmetric] using nr(1) by (auto simp: others_def restrict_map_def fun_eq_iff)
  ultimately obtain st' where "EIO_REQ_FREE ?s1 = Some st'" "e_mem st' = (others st)(?r := None)"
    using EIO_REQ_FREE_owned [of ?s1] by auto
  with nr(2) show ?thesis by (simp add: settle_def free_ptr_def)
qed

text \<open>The rest of the life of a request, once the worker's operation and the callback are known.\<close>

lemma complete_settles:
  assumes "ready j" "work os se data j = Some j1" "keeps (j_eio j) (j_eio j1)" "run_callback V j1 = settle p j1"
    "j_resolver j1 = j_resolver j"
  shows "complete V os se data j = Some (p, (others (j_eio j))(j_resolver j := None))"
  using settle_and_free [of "j_eio j" j1 p] assms by (auto simp: complete_def ready_def)

lemma work_fields: "work os se data j = Some j1 \<Longrightarrow> j_resolver j1 = j_resolver j \<and> j_callback j1 = j_callback j"
  by (auto simp: work_def Let_def split: option.splits)

text \<open>A failed call rejects the promise with the error number and its text, whichever the callback.\<close>

lemma complete_failed:
  assumes r: "ready j" and t: "(j_work j, call, failed) \<in> set eio_made" and c: "os (call (j_eio j)) = (ret, e)"
    and f: "failed ret" and e: "e \<noteq> 0" "no_nul (se e)"
  shows "complete V os se data j =
    Some (Rejected (V8_ERROR V e (take 127 (se e))), (others (j_eio j))(j_resolver j := None))"
proof -
  obtain st where st: "j_work j os (j_eio j) = Some st" "keeps (j_eio j) st" "r_errnum (e_req st) = e"
      "r_errbuf (e_req st) \<noteq> None"
    using eio_does [OF t, of "j_eio j" os ret e] r c f by (auto simp: ready_def does_def sets_err_def)
  then obtain a where a: "r_errbuf (e_req st) = Some a" by auto
  obtain j1 where j1: "work os se data j = Some j1" "j_eio j1 = st" "j_text j1 a = err_text (se e)"
    by (simp add: work_def st a Let_def)
  have "err_of V j1 = Some (V8_ERROR V e (take 127 (se e)))"
    using e(2) by (simp add: err_of_def j1 a st(3))
  then have "run_callback V j1 = settle (Rejected (V8_ERROR V e (take 127 (se e)))) j1"
    using e(1) by (cases "j_callback j1")
      (simp_all add: run_callback_def eio_req_fs_callback1_def eio_req_fs_callback2_def
        eio_req_fs_callback3_def j1(2) st(3))
  then show ?thesis using complete_settles [OF r j1(1)] st(2) work_fields [OF j1(1)] j1(2) by blast
qed

section \<open>Properties\<close>

text \<open>Where a call may start: nothing is allocated at or after the next address, and the request has its
  three arguments.\<close>

definition heap_ok :: "heap \<Rightarrow> bool" where
  "heap_ok h \<longleftrightarrow> (\<forall>a \<ge> h_next h. h_mem h a = None) \<and> length (h_args h) = 3"

lemma heap_None: "heap_ok h \<Longrightarrow> h_next h \<le> a \<Longrightarrow> h_mem h a = None"
  by (simp add: heap_ok_def)

lemma ready_plain:
  assumes "heap_ok h" "st = set_arg32 i x (EIO_REQ_ALLOC (h_mem h) (h_next h) (h_args h) (h_ret h))"
  shows "ready (make_job w cb text st)" "(others (new_block Bytes st))(h_next h + 1 := None) = h_mem h"
  using assms(1) heap_None [OF assms(1)]
  by (auto simp: ready_def make_job_def assms(2) eio_wf_def others_def restrict_map_def fun_eq_iff)

lemma ready_ptr:
  assumes "heap_ok h" "e_mem st = (h_mem h)(h_next h \<mapsto> Bytes, h_next h + 1 \<mapsto> Bytes)" "e_next st = h_next h + 2"
    "set (own st) = {h_next h, h_next h + 1}" "distinct (own st)" "r_errbuf (e_req st) = None" "r_errnum (e_req st) = 0"
  shows "ready (make_job w cb text st)" "(others (new_block Bytes st))(h_next h + 2 := None) = h_mem h"
  using assms heap_None [OF assms(1)]
  by (auto simp: ready_def make_job_def eio_wf_def others_def restrict_map_def fun_eq_iff)

lemma make_job_simps [simp]:
  "j_eio (make_job w cb text st) = new_block Bytes st" "j_text (make_job w cb text st) = text"
  "j_resolver (make_job w cb text st) = e_next st" "j_work (make_job w cb text st) = w"
  "j_callback (make_job w cb text st) = cb"
  by (simp_all add: make_job_def)

text \<open>The request that \<open>open\<close> and \<open>read\<close> hand to the event loop.\<close>

lemma fs_open_job:
  assumes h: "heap_ok h"
    and flag: "flag = (if 2 \<le> c_len args then integer_value V (c_arg args 1) else O_RDONLY)"
  obtains tx s where "fs_open V args h = make_job eio_open Callback2 tx s"
    "e_mem s = (h_mem h)(h_next h \<mapsto> Bytes, h_next h + 1 \<mapsto> Bytes)" "e_next s = h_next h + 2"
    "set (own s) = {h_next h, h_next h + 1}" "distinct (own s)" "r_errbuf (e_req s) = None" "r_errnum (e_req s) = 0"
    "arg_int 0 s = c_int flag" "arg_u32 0 s = nat (flag mod 2 ^ 32)" "ptr_at 0 s = Some (h_next h)"
proof
  have "length (h_args h) = 3" using h by (simp add: heap_ok_def)
  note l = this
  define s0 where "s0 = set_arg32 1 (S_IRUSR + S_IWUSR + S_IRGRP + S_IWGRP + S_IROTH) (set_arg32 0 O_RDONLY
     (set_ptr 0 (Some (h_next h)) (EIO_REQ_ALLOC ((h_mem h)(h_next h \<mapsto> Bytes)) (h_next h + 1) (h_args h) (h_ret h))))"
  define s1 where "s1 = (if 2 \<le> c_len args then set_arg32 0 (integer_value V (c_arg args 1)) s0 else s0)"
  let ?s = "if 3 \<le> c_len args then set_arg32 1 (integer_value V (c_arg args 2)) s1 else s1"
  show "fs_open V args h = make_job eio_open Callback2
      ((h_text h)(h_next h := map Some (utf8_value V (c_arg args 0)) @ [Some NUL])) ?s"
    unfolding fs_open_def Let_def s1_def s0_def by (simp only:)
  have s0: "e_mem s0 = (h_mem h)(h_next h \<mapsto> Bytes, h_next h + 1 \<mapsto> Bytes)" "e_next s0 = h_next h + 2"
    "own s0 = [h_next h, h_next h + 1]" "r_errbuf (e_req s0) = None" "r_errnum (e_req s0) = 0"
    "arg_int 0 s0 = c_int O_RDONLY" "arg_u32 0 s0 = nat (O_RDONLY mod 2 ^ 32)" "ptr_at 0 s0 = Some (h_next h)"
    "length (r_args (e_req s0)) = 3"
    using l by (simp_all add: s0_def own_def)
  then show "e_mem ?s = (h_mem h)(h_next h \<mapsto> Bytes, h_next h + 1 \<mapsto> Bytes)" "e_next ?s = h_next h + 2"
    "set (own ?s) = {h_next h, h_next h + 1}" "distinct (own ?s)" "r_errbuf (e_req ?s) = None"
    "r_errnum (e_req ?s) = 0" "arg_int 0 ?s = c_int flag" "arg_u32 0 ?s = nat (flag mod 2 ^ 32)"
    "ptr_at 0 ?s = Some (h_next h)"
    by (auto simp: s1_def flag)
qed

lemma fs_read_job:
  assumes h: "heap_ok h"
  obtains s where "fs_read V args h = make_job eio_read Callback3 ((h_text h)(h_next h + 1 := replicate 255 None)) s"
    "e_mem s = (h_mem h)(h_next h \<mapsto> Bytes, h_next h + 1 \<mapsto> Bytes)" "e_next s = h_next h + 2"
    "set (own s) = {h_next h, h_next h + 1}" "distinct (own s)" "r_errbuf (e_req s) = None" "r_errnum (e_req s) = 0"
    "arg_int 0 s = c_int (integer_value V (c_arg args 0))" "arg_size 1 s = 255" "ptr_at 0 s = Some (h_next h + 1)"
proof
  let ?s = "set_ptr 0 (Some (h_next h + 1)) (new_block Bytes (set_arg64 1 255
    (set_arg32 0 (integer_value V (c_arg args 0)) (EIO_REQ_ALLOC (h_mem h) (h_next h) (h_args h) (h_ret h)))))"
  show "fs_read V args h = make_job eio_read Callback3 ((h_text h)(h_next h + 1 := replicate 255 None)) ?s"
    by (simp add: fs_read_def Let_def)
  show "e_mem ?s = (h_mem h)(h_next h \<mapsto> Bytes, h_next h + 1 \<mapsto> Bytes)" "e_next ?s = h_next h + 2"
    "set (own ?s) = {h_next h, h_next h + 1}" "distinct (own ?s)" "r_errbuf (e_req ?s) = None" "r_errnum (e_req ?s) = 0"
    "arg_int 0 ?s = c_int (integer_value V (c_arg args 0))" "arg_size 1 ?s = 255" "ptr_at 0 ?s = Some (h_next h + 1)"
    using h by (auto simp: own_def heap_ok_def)
qed

text \<open>\<open>close\<close> from the call to the end: the promise is fulfilled with 0, or rejected with the error number and
  its text, and the heap is as it was: request, error text and resolver are freed.\<close>

lemma fs_close_settles:
  assumes h: "heap_ok h" and c: "os (C_close (c_int (integer_value V (c_arg args 0)))) = (r, e)"
    and e: "r \<noteq> 0 \<Longrightarrow> e \<noteq> 0 \<and> no_nul (se e)"
  shows "complete V os se [] (fs_close V args h) =
    Some (if r = 0 then Fulfilled (V8_INT V 0) else Rejected (V8_ERROR V e (take 127 (se e))), h_mem h)"
proof -
  define st where "st = set_arg32 0 (integer_value V (c_arg args 0)) (EIO_REQ_ALLOC (h_mem h) (h_next h) (h_args h) (h_ret h))"
  let ?j = "fs_close V args h"
  have j: "?j = make_job eio_close Callback1 (h_text h) st"
    by (simp add: fs_close_def st_def Let_def)
  note r = ready_plain [OF h st_def]
  have rd: "ready ?j" unfolding j by (rule r)
  have m: "(others (j_eio ?j))(j_resolver ?j := None) = h_mem h"
    using r(2) by (simp add: j) (simp add: st_def)
  have "length (h_args h) = 3" using h by (simp add: heap_ok_def)
  then have c1: "os (C_close (arg_int 0 (j_eio ?j))) = (r, e)"
    using c by (simp add: j) (simp add: st_def)
  show ?thesis
  proof (cases "r = 0")
    case False
    have "(j_work ?j, \<lambda>st. C_close (arg_int 0 st), nonzero) \<in> set eio_made" by (simp add: j eio_made_def)
    from complete_failed [where os = os and call = "\<lambda>st. C_close (arg_int 0 st)", OF rd this c1] False e show ?thesis by (simp add: nonzero_def m)
  next
    case True
    then have w: "j_work ?j os (j_eio ?j) = Some (j_eio ?j)"
      using c1 by (simp add: j eio_close_def check_def)
    then obtain j1 where j1: "work os se [] ?j = Some j1" "j_eio j1 = j_eio ?j" by (simp add: work_def Let_def)
    have "run_callback V j1 = settle (Fulfilled (V8_INT V 0)) j1"
      using rd work_fields [OF j1(1)] by (simp add: run_callback_def j eio_req_fs_callback1_def j1(2) ready_def)
    from complete_settles [OF rd j1(1) _ this] work_fields [OF j1(1)] rd show ?thesis
      by (simp add: True m j1(2) ready_def keeps_refl)
  qed
qed

definition plain_v8 :: "int v8" where
  "plain_v8 = \<lparr>utf8_value = (\<lambda>_. ''a''), integer_value = (\<lambda>v. v), V8_STR = (\<lambda>s. int (length s)), V8_INT = (\<lambda>n. n),
     V8_ERROR = (\<lambda>n _. n)\<rparr>"

definition start_heap :: heap where
  "start_heap = \<lparr>h_mem = [0 \<mapsto> Bytes], h_next = 1, h_text = (\<lambda>_. []), h_args = [5, 6, 7], h_ret = 9\<rparr>"

lemma start_heap_ok: "heap_ok start_heap"
  by (simp add: heap_ok_def start_heap_def)

lemma fs_close_settles_witness:
  "complete plain_v8 (\<lambda>_. (-1, 9)) (\<lambda>_. ''bad'') [] (fs_close plain_v8 \<lparr>c_len = 1, c_arg = (\<lambda>_. 7)\<rparr> start_heap) =
     Some (Rejected 9, [0 \<mapsto> Bytes])"
  using fs_close_settles [OF start_heap_ok, of "\<lambda>_. (-1, 9)" plain_v8 "\<lparr>c_len = 1, c_arg = (\<lambda>_. 7)\<rparr>" "-1" 9 "\<lambda>_. ''bad''"]
  by (simp add: plain_v8_def start_heap_def)

text \<open>C31. \<open>open\<close> from the call to the end: the file is opened with the flags given (read-only by default) and the
  promise is fulfilled with the descriptor or rejected with the error number and its text, with the heap as it was. The
  permission bits passed to the system are the flags again: the third argument and the default of 0664 have no
  effect. (A descriptor is an \<open>int\<close>, and an error has a number and a text.)\<close>

theorem fs_open_settles:
  assumes h: "heap_ok h"
    and flag: "flag = (if 2 \<le> c_len args then integer_value V (c_arg args 1) else O_RDONLY)"
    and c: "os (C_open (Some (h_next h)) (c_int flag) (nat (flag mod 2 ^ 32))) = (fd, e)"
    and fd: "fd \<le> int_max" and e: "fd < 0 \<Longrightarrow> e \<noteq> 0 \<and> no_nul (se e)"
  shows "complete V os se [] (fs_open V args h) =
    Some (if 0 \<le> fd then Fulfilled (V8_INT V fd) else Rejected (V8_ERROR V e (take 127 (se e))), h_mem h)"
proof -
  let ?j = "fs_open V args h"
  obtain tx s where j: "?j = make_job eio_open Callback2 tx s" and s:
    "e_mem s = (h_mem h)(h_next h \<mapsto> Bytes, h_next h + 1 \<mapsto> Bytes)" "e_next s = h_next h + 2"
    "set (own s) = {h_next h, h_next h + 1}" "distinct (own s)" "r_errbuf (e_req s) = None" "r_errnum (e_req s) = 0"
    "arg_int 0 s = c_int flag" "arg_u32 0 s = nat (flag mod 2 ^ 32)" "ptr_at 0 s = Some (h_next h)"
    by (rule fs_open_job [OF h flag])
  note r = ready_ptr [OF h s(1-6)]
  have rd: "ready ?j" unfolding j by (rule r)
  have m: "(others (j_eio ?j))(j_resolver ?j := None) = h_mem h" using r(2) by (simp add: j s)
  have c1: "os (C_open (ptr_at 0 (j_eio ?j)) (arg_int 0 (j_eio ?j)) (arg_u32 0 (j_eio ?j))) = (fd, e)"
    using c by (simp add: j s)
  have t: "(j_work ?j, \<lambda>st. C_open (ptr_at 0 st) (arg_int 0 st) (arg_u32 0 st), negative) \<in> set eio_made"
    by (simp add: j eio_made_def)
  show ?thesis
  proof (cases "fd < 0")
    case True
    from complete_failed [where os = os and call = "\<lambda>st. C_open (ptr_at 0 st) (arg_int 0 st) (arg_u32 0 st)",
        OF rd t c1] True e show ?thesis by (simp add: negative_def m)
  next
    case False
    obtain st1 where st1: "eio_open os (j_eio ?j) = Some st1" "keeps (j_eio ?j) st1" "r_errnum (e_req st1) = 0"
      using eio_does [where os = os and call = "\<lambda>st. C_open (ptr_at 0 st) (arg_int 0 st) (arg_u32 0 st)", OF t, of "j_eio ?j" fd e] rd c1 False
      by (auto simp: j ready_def does_def sets_err_def negative_def)
    have "r_ret (e_req st1) = fd"
      using st1(1) c1 False
      by (auto simp: eio_open_def check_def free_null_def set_ptr_def set_ret_def dest: free_ptr_req
          split: Option.bind_splits)
    moreover obtain j1 where j1: "work os se [] ?j = Some j1" "j_eio j1 = st1"
      using st1(1) by (simp add: work_def Let_def j)
    ultimately have "run_callback V j1 = settle (Fulfilled (V8_INT V fd)) j1"
      using work_fields [OF j1(1)] st1(3) False fd
      by (simp add: run_callback_def j eio_req_fs_callback2_def int_max_def)
    from complete_settles [OF rd j1(1) _ this] work_fields [OF j1(1)] st1(2) False show ?thesis
      by (simp add: m j1(2))
  qed
qed

lemma fs_open_settles_witness:
  "complete plain_v8 (\<lambda>c. if c = C_open (Some 1) 0x41 0x41 then (3, 0) else (-1, 9)) (\<lambda>_. ''bad'') []
     (fs_open plain_v8 \<lparr>c_len = 3, c_arg = (\<lambda>i. [0, 0x41, 0x180] ! i)\<rparr> start_heap) = Some (Fulfilled 3, [0 \<mapsto> Bytes])"
  using fs_open_settles [OF start_heap_ok, of "0x41" "\<lparr>c_len = 3, c_arg = (\<lambda>i. [0, 0x41, 0x180] ! i)\<rparr>" plain_v8
      "\<lambda>c. if c = C_open (Some 1) 0x41 0x41 then (3, 0) else (-1, 9)" 3 0 "\<lambda>_. ''bad''"]
  by (simp add: plain_v8_def start_heap_def c_int_def int_max_def)

text \<open>C30. \<open>read\<close> from the call to the end: a failed read rejects the promise; after a successful one the
  callback makes a JavaScript string of the buffer, which has no terminator of its own, and ignores
  the number of bytes read: the result is what comes before the first NUL byte of the file, and for a file
  without one, any text file, the read runs into indeterminate bytes or past the buffer.\<close>

theorem fs_read_settles:
  assumes h: "heap_ok h"
    and c: "os (C_read (c_int (integer_value V (c_arg args 0))) (Some (h_next h + 1)) 255) = (n, e)"
    and d: "0 \<le> n \<Longrightarrow> n = int (length data)" "n < 0 \<Longrightarrow> data = []" "length data \<le> 255"
    and e: "n < 0 \<Longrightarrow> e \<noteq> 0 \<and> no_nul (se e)"
  shows "complete V os se data (fs_read V args h) =
    (if n < 0 then Some (Rejected (V8_ERROR V e (take 127 (se e))), h_mem h)
     else if no_nul data then None
     else Some (Fulfilled (V8_STR V (takeWhile (\<lambda>c. c \<noteq> NUL) data)), h_mem h))"
proof -
  let ?j = "fs_read V args h"
  obtain s where j: "?j = make_job eio_read Callback3 ((h_text h)(h_next h + 1 := replicate 255 None)) s" and s:
    "e_mem s = (h_mem h)(h_next h \<mapsto> Bytes, h_next h + 1 \<mapsto> Bytes)" "e_next s = h_next h + 2"
    "set (own s) = {h_next h, h_next h + 1}" "distinct (own s)" "r_errbuf (e_req s) = None" "r_errnum (e_req s) = 0"
    "arg_int 0 s = c_int (integer_value V (c_arg args 0))" "arg_size 1 s = 255" "ptr_at 0 s = Some (h_next h + 1)"
    by (rule fs_read_job [OF h])
  note r = ready_ptr [OF h s(1-6)]
  have rd: "ready ?j" unfolding j by (rule r)
  have m: "(others (j_eio ?j))(j_resolver ?j := None) = h_mem h" using r(2) by (simp add: j s)
  have c1: "os (C_read (arg_int 0 (j_eio ?j)) (ptr_at 0 (j_eio ?j)) (arg_size 1 (j_eio ?j))) = (n, e)"
    using c s(8) by (simp add: j s)
  have t: "(j_work ?j, \<lambda>st. C_read (arg_int 0 st) (ptr_at 0 st) (arg_size 1 st), negative) \<in> set eio_made"
    by (simp add: j eio_made_def)
  show ?thesis
  proof (cases "n < 0")
    case True
    from complete_failed [where os = os and call = "\<lambda>st. C_read (arg_int 0 st) (ptr_at 0 st) (arg_size 1 st)",
        OF rd t c1] True e show ?thesis by (simp add: negative_def m)
  next
    case False
    have w: "eio_read os (j_eio ?j) = Some (set_ret n (j_eio ?j))" using c1 False by (simp add: eio_read_def)
    then obtain j1 where j1: "work os se data ?j = Some j1" "j_eio j1 = set_ret n (j_eio ?j)"
        "j_text j1 (h_next h + 1) = put_bytes data (replicate 255 None)"
      by (simp add: work_def Let_def j s)
    have k: "keeps (j_eio ?j) (j_eio j1)" using rd by (simp add: j1(2) ready_def keeps_set_ret keeps_refl)
    have c: "c_str (put_bytes data (replicate 255 None)) =
        (if no_nul data then None else Some (takeWhile (\<lambda>c. c \<noteq> NUL) data))"
      unfolding put_bytes_def by (rule c_str_partial)
    have cb: "run_callback V j1 = (case c_str (put_bytes data (replicate 255 None)) of None \<Rightarrow> None
        | Some t \<Rightarrow> settle (Fulfilled (V8_STR V t)) j1)"
      using work_fields [OF j1(1)] j1(3)
      by (simp add: run_callback_def j eio_req_fs_callback3_def str_of_def j1 s split: option.split)
    show ?thesis
    proof (cases "no_nul data")
      case True
      with cb c False show ?thesis by (simp add: complete_def j1(1))
    next
      case nn: False
      with cb c have "run_callback V j1 = settle (Fulfilled (V8_STR V (takeWhile (\<lambda>c. c \<noteq> NUL) data))) j1" by simp
      from complete_settles [OF rd j1(1) k this] work_fields [OF j1(1)] nn False show ?thesis by (simp add: m)
    qed
  qed
qed

lemma fs_read_settles_witness:
  "complete plain_v8 (\<lambda>_. (5, 0)) (\<lambda>_. ''bad'') ''hello'' (fs_read plain_v8 \<lparr>c_len = 1, c_arg = (\<lambda>_. 3)\<rparr> start_heap) = None"
  using fs_read_settles [OF start_heap_ok, of "\<lambda>_. (5, 0)" plain_v8 "\<lparr>c_len = 1, c_arg = (\<lambda>_. 3)\<rparr>" 5 0 "''hello''" "\<lambda>_. ''bad''"]
  by simp

end
