(* ===== verification/OldLoop.thy ===== *)
theory OldLoop
  imports Notify
begin

text \<open>
  The event loop of the older tree, \<open>xxx/ev\<close>: the worker threads \<open>ev_work\<close>, \<open>EV_REQ_ADD\<close>, set-up, the main
  thread in \<open>ev_loop_run\<close>, and \<open>ev_loop_free\<close> after it. Everything that is protected by a mutex is touched
  only while it is held, so a critical section is one step; the steps of all threads interleave in
  any order. The rings are the lists they hold (the ring operations are those of \<open>ListH\<close>).
\<close>

section \<open>State\<close>

text \<open>Where a worker is: before the first lock, waiting, woken, running a request, before the second lock,
  returned. Where the main thread is: in \<open>epoll_wait\<close>, before \<open>read\<close>, before the second lock, in
  \<open>ev_loop_free\<close> at its test, past it.\<close>

datatype opc = O_Lock0 | O_Wait | O_Wake | O_Work nat | O_Put nat | O_Exit

datatype mpc = M_Wait | M_Read | M_Drain | M_Free | M_Freed

record ev_loop_t =
  stop :: int
  nthreads :: int
  wait_threads :: int
  alive_threads :: int
  head0 :: "nat list"
  head1 :: "nat list"
  efd_of :: efd
  pcs :: "opc list"
  main_pc :: mpc
  added :: "nat list"
  disposed :: "nat list"

text \<open>The last two are history: the requests added, and those whose callback ran before they were freed.\<close>

section \<open>Operations\<close>

definition ev_loop_init_x :: ev_loop_t where
  "ev_loop_init_x =
     \<lparr>stop = 0, nthreads = 4, wait_threads = 0, alive_threads = 4, head0 = [], head1 = [], efd_of = efd_new,
      pcs = replicate 4 O_Lock0, main_pc = M_Wait, added = [], disposed = []\<rparr>"

definition EV_SIGNAL :: "nat \<Rightarrow> ev_loop_t \<Rightarrow> ev_loop_t" where
  "EV_SIGNAL j s = s\<lparr>pcs := signal_one O_Wait O_Wake j (pcs s)\<rparr>"

definition goto_x :: "nat \<Rightarrow> opc \<Rightarrow> ev_loop_t \<Rightarrow> ev_loop_t" where
  "goto_x i p s = s\<lparr>pcs := (pcs s)[i := p]\<rparr>"

text \<open>Holding \<open>lock[0]\<close> at the loop's test: to sleep, telling the main thread when all do, or to take the
  first request.\<close>

definition ev_test :: "nat \<Rightarrow> nat \<Rightarrow> ev_loop_t \<Rightarrow> ev_loop_t" where
  "ev_test i j s =
     (case head0 s of
        [] \<Rightarrow>
          (let s1 = s\<lparr>wait_threads := wait_threads s + 1\<rparr>;
               s2 = (if wait_threads s1 \<ge> nthreads s1 then s1\<lparr>efd_of := efd_post 1 (efd_of s1)\<rparr> else s1)
           in goto_x i O_Wait s2)
      | entry # rest \<Rightarrow>
          (let s1 = s\<lparr>head0 := rest\<rparr>;
               s2 = (if rest \<noteq> [] then EV_SIGNAL j s1 else s1)
           in goto_x i (O_Work entry) s2))"

text \<open>A step of worker \<open>i\<close>; \<^term>\<open>None\<close>: it is blocked or has returned. The call \<open>req->work(req)\<close> returns.\<close>

definition ev_work_x :: "nat \<Rightarrow> nat \<Rightarrow> ev_loop_t \<Rightarrow> ev_loop_t option" where
  "ev_work_x i j s =
     (case pcs s ! i of
        O_Lock0 \<Rightarrow> Some (ev_test i j s)
      | O_Wait \<Rightarrow> None
      | O_Wake \<Rightarrow>
          (let s1 = s\<lparr>wait_threads := wait_threads s - 1\<rparr> in
           if stop s1 \<noteq> 0
           then Some (goto_x i O_Exit (EV_SIGNAL j (s1\<lparr>alive_threads := alive_threads s1 - 1\<rparr>)))
           else Some (ev_test i j s1))
      | O_Work entry \<Rightarrow> Some (goto_x i (O_Put entry) s)
      | O_Put entry \<Rightarrow>
          Some (goto_x i O_Lock0 (s\<lparr>head1 := head1 s @ [entry], efd_of := efd_post 1 (efd_of s)\<rparr>))
      | O_Exit \<Rightarrow> None)"

definition EV_REQ_ADD :: "nat \<Rightarrow> nat \<Rightarrow> ev_loop_t \<Rightarrow> ev_loop_t" where
  "EV_REQ_ADD req j s =
     (let s1 = s\<lparr>head0 := head0 s @ [req], added := added s @ [req]\<rparr> in
      if wait_threads s1 > 0 then EV_SIGNAL j s1 else s1)"

text \<open>The main thread; \<open>epoll_wait\<close> without a timeout returns an event of the counter, or -1 when a signal
  handler interrupts it. The loop on \<open>head[1]\<close> runs the callback of each request and frees it.\<close>

definition ev_loop_run_x :: "bool \<Rightarrow> ev_loop_t \<Rightarrow> ev_loop_t option" where
  "ev_loop_run_x interrupted s =
     (case main_pc s of
        M_Wait \<Rightarrow>
          (if interrupted then Some (s\<lparr>main_pc := M_Free\<rparr>)
           else if efd_ready (efd_of s) then Some (s\<lparr>efd_of := efd_wake (efd_of s), main_pc := M_Read\<rparr>)
           else None)
      | M_Read \<Rightarrow> Some (s\<lparr>efd_of := efd_read (efd_of s), main_pc := M_Drain\<rparr>)
      | M_Drain \<Rightarrow> Some (s\<lparr>disposed := disposed s @ head1 s, head1 := [], main_pc := M_Wait\<rparr>)
      | _ \<Rightarrow> None)"

definition ev_loop_free_x :: "ev_loop_t \<Rightarrow> ev_loop_t option" where
  "ev_loop_free_x s =
     (case main_pc s of
        M_Free \<Rightarrow> Some (if alive_threads s \<le> 0 then s\<lparr>main_pc := M_Freed\<rparr> else s)
      | _ \<Rightarrow> None)"

inductive old_step :: "ev_loop_t \<Rightarrow> ev_loop_t \<Rightarrow> bool" where
  work: "i < length (pcs s) \<Longrightarrow> ev_work_x i j s = Some s' \<Longrightarrow> old_step s s'"
| spurious: "i < length (pcs s) \<Longrightarrow> pcs s ! i = O_Wait \<Longrightarrow> old_step s (goto_x i O_Wake s)"
| add: "req \<notin> set (added s) \<Longrightarrow> old_step s (EV_REQ_ADD req j s)"
| run: "ev_loop_run_x interrupted s = Some s' \<Longrightarrow> old_step s s'"
| free: "ev_loop_free_x s = Some s' \<Longrightarrow> old_step s s'"

inductive_cases old_stepE: "old_step s s'"

section \<open>The interface\<close>

definition phase_of :: "mpc \<Rightarrow> phase" where
  "phase_of m = (case m of M_Wait \<Rightarrow> Idle | M_Read \<Rightarrow> Woken | M_Drain \<Rightarrow> Cleared | _ \<Rightarrow> Off)"

lemma phase_simps [simp]:
  "phase_of M_Wait = Idle" "phase_of M_Read = Woken" "phase_of M_Drain = Cleared"
  "phase_of M_Free = Off" "phase_of M_Freed = Off"
  by (simp_all add: phase_of_def)

lemma old_simps [simp]:
  "head1 (goto_x i p s) = head1 s" "efd_of (goto_x i p s) = efd_of s" "main_pc (goto_x i p s) = main_pc s"
  "head0 (goto_x i p s) = head0 s" "added (goto_x i p s) = added s" "disposed (goto_x i p s) = disposed s"
  "stop (goto_x i p s) = stop s" "alive_threads (goto_x i p s) = alive_threads s" "pcs (goto_x i p s) = (pcs s)[i := p]"
  "head1 (EV_SIGNAL j s) = head1 s" "efd_of (EV_SIGNAL j s) = efd_of s" "main_pc (EV_SIGNAL j s) = main_pc s"
  "head0 (EV_SIGNAL j s) = head0 s" "added (EV_SIGNAL j s) = added s" "disposed (EV_SIGNAL j s) = disposed s"
  "stop (EV_SIGNAL j s) = stop s" "alive_threads (EV_SIGNAL j s) = alive_threads s"
  "pcs (EV_SIGNAL j s) = signal_one O_Wait O_Wake j (pcs s)"
  by (simp_all add: goto_x_def EV_SIGNAL_def)

text \<open>What each operation changes besides the threads.\<close>

lemma ev_test_simps [simp]:
  "head1 (ev_test i j s) = head1 s" "main_pc (ev_test i j s) = main_pc s" "added (ev_test i j s) = added s"
  "disposed (ev_test i j s) = disposed s" "stop (ev_test i j s) = stop s" "alive_threads (ev_test i j s) = alive_threads s"
  "efd_of (ev_test i j s) = efd_of s \<or> efd_of (ev_test i j s) = efd_post 1 (efd_of s)"
  "length (pcs (ev_test i j s)) = length (pcs s)"
  by (simp_all add: ev_test_def Let_def split: list.split)

lemma law_other: "q' = q \<Longrightarrow> m' = m \<Longrightarrow> f' = f \<or> f' = efd_post 1 f \<Longrightarrow> edge_law (q, f, m) (q', f', m')"
  using edge_law.other edge_law.notify [of 1] by auto

lemma old_step_law:
  assumes "old_step s s'"
  shows "edge_law (head1 s, efd_of s, phase_of (main_pc s)) (head1 s', efd_of s', phase_of (main_pc s'))"
  using assms
proof (cases rule: old_step.cases)
  case (work i j)
  show ?thesis
  proof (cases "pcs s ! i")
    case (O_Put e)
    with work(2) have "s' = goto_x i O_Lock0 (s\<lparr>head1 := head1 s @ [e], efd_of := efd_post 1 (efd_of s)\<rparr>)"
      by (simp add: ev_work_x_def)
    then show ?thesis using edge_law.put [of 1] by simp
  next
    case O_Wake
    with work(2) ev_test_simps(7) [of i j "s\<lparr>wait_threads := wait_threads s - 1\<rparr>"] show ?thesis
      by (auto simp: ev_work_x_def Let_def simp del: ev_test_simps(7) intro!: law_other split: if_splits)
  next
    case O_Lock0
    with work(2) ev_test_simps(7) [of i j s] show ?thesis
      by (auto simp: ev_work_x_def simp del: ev_test_simps(7) intro!: law_other)
  qed (use work(2) in \<open>auto simp: ev_work_x_def intro!: law_other\<close>)
next
  case (run interrupted)
  then show ?thesis
    by (auto simp: ev_loop_run_x_def intro: edge_law.intros split: mpc.splits if_splits)
next
  case free
  then show ?thesis
    by (auto simp: ev_loop_free_x_def intro: edge_law.intros split: mpc.splits if_splits)
qed (auto simp: EV_REQ_ADD_def Let_def intro!: law_other)

interpretation oq: edge_queue old_step "\<lambda>s. s = ev_loop_init_x" head1 efd_of "\<lambda>s. phase_of (main_pc s)"
  by unfold_locales (auto simp: ev_loop_init_x_def old_step_law)

section \<open>Requests are neither lost nor run twice\<close>

fun hold :: "opc \<Rightarrow> nat list" where
  "hold (O_Work e) = [e]"
| "hold (O_Put e) = [e]"
| "hold _ = []"

text \<open>Every request added is in one place: queued, with one worker, finished, or disposed of. \<open>stop\<close> is never
  set, so no worker returns and all stay alive.\<close>

definition old_inv :: "ev_loop_t \<Rightarrow> bool" where
  "old_inv s \<longleftrightarrow>
     mset (added s) = mset (head0 s) + in_hands hold (pcs s) + mset (head1 s) + mset (disposed s) \<and>
     distinct (added s) \<and> stop s = 0 \<and> alive_threads s = 4 \<and> O_Exit \<notin> set (pcs s) \<and> main_pc s \<noteq> M_Freed"

lemma in_hands_old_signal [simp]: "in_hands hold (signal_one O_Wait O_Wake j ps) = in_hands hold ps"
  by (rule in_hands_signal) simp

lemma signal_pc: "ps ! i \<noteq> O_Wait \<Longrightarrow> signal_one O_Wait O_Wake j ps ! i = ps ! i"
  using signal_one_update [of O_Wait O_Wake j ps] by (metis nth_list_update_neq)

lemma exit_update: "O_Exit \<notin> set ps \<Longrightarrow> p \<noteq> O_Exit \<Longrightarrow> O_Exit \<notin> set (ps[i := p])"
  using set_update_subset_insert [of ps i p] by auto

lemma exit_signal: "O_Exit \<notin> set ps \<Longrightarrow> O_Exit \<notin> set (signal_one O_Wait O_Wake j ps)"
  using set_signal_one [of O_Wait O_Wake j ps] by auto

lemma ev_test_inv:
  assumes "old_inv s" "i < length (pcs s)" "hold (pcs s ! i) = []" "pcs s ! i \<noteq> O_Wait"
  shows "old_inv (ev_test i j s)"
proof (cases "head0 s")
  case Nil
  then show ?thesis
    using assms in_hands_same [of i "pcs s" hold O_Wait]
    by (simp add: ev_test_def Let_def old_inv_def exit_update)
next
  case (Cons entry rest)
  define ps where "ps = (if rest \<noteq> [] then signal_one O_Wait O_Wake j (pcs s) else pcs s)"
  have ps: "in_hands hold ps = in_hands hold (pcs s)" "length ps = length (pcs s)" "ps ! i = pcs s ! i"
    "O_Exit \<notin> set ps"
    using assms(1,4) by (auto simp: ps_def signal_pc old_inv_def dest: exit_signal)
  have "in_hands hold (ps[i := O_Work entry]) = in_hands hold (pcs s) + {#entry#}"
    using in_hands_update [of i ps hold "O_Work entry"] assms(2,3) ps by simp
  moreover have "pcs (ev_test i j s) = ps[i := O_Work entry]" "head0 (ev_test i j s) = rest"
    by (simp_all add: ev_test_def Let_def Cons ps_def)
  ultimately show ?thesis
    using assms(1) ps(4) Cons by (simp add: old_inv_def exit_update)
qed

lemma old_inv_wait_threads [simp]: "old_inv (s\<lparr>wait_threads := n\<rparr>) = old_inv s"
  by (simp add: old_inv_def)

lemma ev_work_x_inv:
  assumes "old_inv s" "i < length (pcs s)" "ev_work_x i j s = Some s'"
  shows "old_inv s'"
proof (cases "pcs s ! i")
  case O_Lock0
  with assms ev_test_inv [of s i j] show ?thesis by (simp add: ev_work_x_def)
next
  case O_Wake
  moreover have "stop s = 0" using assms(1) by (simp add: old_inv_def)
  ultimately have s': "s' = ev_test i j (s\<lparr>wait_threads := wait_threads s - 1\<rparr>)"
    using assms(3) by (simp add: ev_work_x_def Let_def)
  show ?thesis unfolding s' by (rule ev_test_inv) (use assms O_Wake in simp_all)
next
  case (O_Work e)
  with assms in_hands_same [of i "pcs s" hold "O_Put e"] show ?thesis
    by (auto simp: ev_work_x_def old_inv_def exit_update)
next
  case (O_Put e)
  with assms in_hands_update [of i "pcs s" hold O_Lock0] show ?thesis
    by (auto simp: ev_work_x_def old_inv_def exit_update)
qed (use assms in \<open>auto simp: ev_work_x_def\<close>)

lemma old_step_inv: "old_step s s' \<Longrightarrow> old_inv s \<Longrightarrow> old_inv s'"
proof (induction rule: old_step.induct)
  case (work i s j s')
  then show ?case by (auto intro: ev_work_x_inv)
next
  case (spurious i s)
  then show ?case using in_hands_same [of i "pcs s" hold O_Wake] by (simp add: old_inv_def exit_update)
next
  case (add req s j)
  then show ?case by (auto simp: EV_REQ_ADD_def Let_def old_inv_def dest: exit_signal)
next
  case (run interrupted s s')
  then show ?case by (auto simp: ev_loop_run_x_def old_inv_def split: mpc.splits if_splits)
next
  case (free s s')
  then show ?case by (auto simp: ev_loop_free_x_def old_inv_def split: mpc.splits)
qed

lemma old_reachable_inv: "old_step\<^sup>*\<^sup>* ev_loop_init_x s \<Longrightarrow> old_inv s"
proof (induction rule: rtranclp_induct)
  case base
  show ?case by (simp add: old_inv_def ev_loop_init_x_def in_hands_def)
next
  case (step s s')
  then show ?case using old_step_inv by blast
qed

section \<open>Where the requests are\<close>

text \<open>Those that no worker has run yet, and those with a worker that has. Only the running of a request takes it from
  the first to the second, and only a worker with \<open>lock[1]\<close> from there to \<open>head[1]\<close>.\<close>

definition raw :: "ev_loop_t \<Rightarrow> nat set" where
  "raw l = set (head0 l) \<union> {r. O_Work r \<in> set (pcs l)}"

definition in_put :: "ev_loop_t \<Rightarrow> nat set" where
  "in_put l = {r. O_Put r \<in> set (pcs l)}"

lemma one_place: "old_inv l \<Longrightarrow> distinct (head0 l @ concat (map hold (pcs l)) @ head1 l @ disposed l)"
proof -
  assume "old_inv l"
  then have "mset (head0 l @ concat (map hold (pcs l)) @ head1 l @ disposed l) = mset (added l)" "distinct (added l)"
    by (simp_all add: old_inv_def in_hands_def)
  then show ?thesis using mset_eq_imp_distinct_iff by blast
qed

lemma held_concat: "O_Work r \<in> set ps \<or> O_Put r \<in> set ps \<longleftrightarrow> r \<in> set (concat (map hold ps))"
proof (induction ps)
  case (Cons p ps)
  have "r \<in> set (hold p) \<longleftrightarrow> p = O_Work r \<or> p = O_Put r" by (cases p) auto
  with Cons show ?case by auto
qed simp

lemma placed_added:
  assumes "old_inv l"
  shows "raw l \<union> in_put l \<union> set (head1 l) \<subseteq> set (added l)"
proof
  fix r assume "r \<in> raw l \<union> in_put l \<union> set (head1 l)"
  then have "r \<in> set (head0 l) \<or> r \<in> set (concat (map hold (pcs l))) \<or> r \<in> set (head1 l)"
    using held_concat [of r "pcs l"] by (auto simp: raw_def in_put_def)
  moreover have "set_mset (mset (added l)) =
      set_mset (mset (head0 l) + mset (concat (map hold (pcs l))) + mset (head1 l) + mset (disposed l))"
    using assms by (simp add: old_inv_def in_hands_def)
  ultimately show "r \<in> set (added l)" by (metis UnI1 UnI2 set_mset_mset set_mset_union)
qed

lemma raw_head1: "old_inv l \<Longrightarrow> r \<in> set (head1 l) \<Longrightarrow> r \<notin> raw l \<and> r \<notin> in_put l"
  using one_place [of l] held_concat [of r "pcs l"] by (auto simp: raw_def in_put_def)

lemma in_update: "i < length ps \<Longrightarrow> x \<noteq> ps ! i \<Longrightarrow> x \<noteq> q \<Longrightarrow> x \<in> set (ps[i := q]) \<longleftrightarrow> x \<in> set ps"
  by (metis in_set_conv_nth length_list_update nth_list_update_neq nth_list_update_eq)

lemma in_signal: "x \<noteq> O_Wait \<Longrightarrow> x \<noteq> O_Wake \<Longrightarrow> x \<in> set (signal_one O_Wait O_Wake j ps) \<longleftrightarrow> x \<in> set ps"
  using signal_one_update [of O_Wait O_Wake j ps] in_update [of _ ps x O_Wake] by (metis)

text \<open>The steps of a worker but the running of a request, and what moves.\<close>

lemma ev_test_places:
  assumes "i < length (pcs l)" "hold (pcs l ! i) = []" "pcs l ! i \<noteq> O_Wait"
  shows "raw (ev_test i k l) = raw l \<and> in_put (ev_test i k l) = in_put l"
proof (cases "head0 l")
  case Nil
  then have "pcs (ev_test i k l) = (pcs l)[i := O_Wait]" "head0 (ev_test i k l) = []"
    by (simp_all add: ev_test_def Let_def)
  moreover have "O_Work r \<noteq> pcs l ! i" "O_Put r \<noteq> pcs l ! i" for r using assms(2) by (cases "pcs l ! i"; simp)+
  ultimately show ?thesis using assms(1) Nil by (auto simp: raw_def in_put_def in_update)
next
  case (Cons entry rest)
  define ps where "ps = (if rest \<noteq> [] then signal_one O_Wait O_Wake k (pcs l) else pcs l)"
  have p: "pcs (ev_test i k l) = ps[i := O_Work entry]" "head0 (ev_test i k l) = rest"
    by (simp_all add: ev_test_def Let_def Cons ps_def)
  have ps: "i < length ps" "ps ! i = pcs l ! i" using assms by (simp_all add: ps_def signal_pc)
  have m: "O_Work r \<in> set ps \<longleftrightarrow> O_Work r \<in> set (pcs l)" "O_Put r \<in> set ps \<longleftrightarrow> O_Put r \<in> set (pcs l)" for r
    by (simp_all add: ps_def in_signal)
  have ne: "O_Work r \<noteq> ps ! i" "O_Put r \<noteq> ps ! i" for r using assms(2) ps(2) by (cases "pcs l ! i"; simp)+
  have e: "O_Work entry \<in> set (ps[i := O_Work entry])" using ps(1) by (rule set_update_memI)
  have w: "O_Work r \<in> set (ps[i := O_Work entry]) \<longleftrightarrow> r = entry \<or> O_Work r \<in> set (pcs l)" for r
    using e in_update [OF ps(1) ne(1)] m(1) by (cases "r = entry") auto
  have "O_Put r \<in> set (ps[i := O_Work entry]) \<longleftrightarrow> O_Put r \<in> set (pcs l)" for r
    using in_update [OF ps(1) ne(2)] m(2) by simp
  with w show ?thesis unfolding raw_def in_put_def p Cons by auto
qed

lemma ev_work_places:
  assumes "old_inv l" "i < length (pcs l)" "ev_work_x i k l = Some l'" "\<And>r. pcs l ! i \<noteq> O_Work r"
  shows "raw l' = raw l \<and> in_put l' \<union> set (head1 l') = in_put l \<union> set (head1 l) \<and>
    ((\<forall>r. pcs l ! i \<noteq> O_Put r) \<longrightarrow> in_put l' = in_put l \<and> head1 l' = head1 l) \<and> added l' = added l \<and> main_pc l' = main_pc l"
proof (cases "pcs l ! i")
  case O_Lock0
  then have l': "l' = ev_test i k l" using assms(3) by (simp add: ev_work_x_def)
  have "raw l' = raw l \<and> in_put l' = in_put l"
    unfolding l' by (rule ev_test_places) (use assms(2) O_Lock0 in simp_all)
  then show ?thesis by (simp add: l' O_Lock0)
next
  case O_Wake
  moreover have "stop l = 0" using assms(1) by (simp add: old_inv_def)
  ultimately have l': "l' = ev_test i k (l\<lparr>wait_threads := wait_threads l - 1\<rparr>)" using assms(3) by (simp add: ev_work_x_def Let_def)
  have "raw (l\<lparr>wait_threads := n\<rparr>) = raw l" "in_put (l\<lparr>wait_threads := n\<rparr>) = in_put l" for n by (simp_all add: raw_def in_put_def)
  with ev_test_places [of i "l\<lparr>wait_threads := wait_threads l - 1\<rparr>" k] O_Wake assms(2) show ?thesis by (simp add: l')
next
  case (O_Put r)
  with assms(3) have l': "l' = goto_x i O_Lock0 (l\<lparr>head1 := head1 l @ [r], efd_of := efd_post 1 (efd_of l)\<rparr>)"
    by (simp add: ev_work_x_def)
  have "O_Work r' \<in> set ((pcs l)[i := O_Lock0]) \<longleftrightarrow> O_Work r' \<in> set (pcs l)" for r'
    using in_update [OF assms(2), of "O_Work r'" O_Lock0] O_Put by simp
  moreover have "O_Put r' \<in> set ((pcs l)[i := O_Lock0]) \<or> r' = r \<longleftrightarrow> O_Put r' \<in> set (pcs l)" for r'
    using in_update [OF assms(2), of "O_Put r'" O_Lock0] O_Put nth_mem [OF assms(2)] by (cases "r' = r") auto
  ultimately show ?thesis using O_Put by (auto simp: l' raw_def in_put_def)
qed (use assms in \<open>simp_all add: ev_work_x_def\<close>)

lemma distinct_holds:
  "distinct (concat (map hold ps)) \<Longrightarrow> a < length ps \<Longrightarrow> b < length ps \<Longrightarrow> a \<noteq> b \<Longrightarrow> x \<in> set (hold (ps ! a)) \<Longrightarrow>
    x \<notin> set (hold (ps ! b))"
proof (induction ps arbitrary: a b)
  case (Cons p ps)
  have in_rest: "x \<in> set (concat (map hold ps))" if "c < length ps" "x \<in> set (hold (ps ! c))" for c
    using that nth_mem [of c ps] by auto
  have apart: "x \<in> set (hold p) \<Longrightarrow> x \<notin> set (concat (map hold ps))" using Cons.prems(1) by auto
  show ?case
  proof (cases a)
    case 0
    then obtain b' where "b = Suc b'" using Cons.prems(4) by (cases b) auto
    then show ?thesis using Cons.prems 0 apart in_rest [of b'] by auto
  next
    case (Suc a')
    show ?thesis
    proof (cases b)
      case 0
      then show ?thesis using Cons.prems Suc apart in_rest [of a'] by auto
    next
      case (Suc b')
      then show ?thesis using Cons.prems \<open>a = Suc a'\<close> Cons.IH [of a' b'] by simp
    qed
  qed
qed simp

lemma ev_work_run:
  assumes "old_inv l" "i < length (pcs l)" "ev_work_x i k l = Some l'" "pcs l ! i = O_Work r"
  shows "raw l' = raw l - {r} \<and> in_put l' = insert r (in_put l) \<and> r \<in> raw l \<and> head1 l' = head1 l \<and> added l' = added l \<and>
    main_pc l' = main_pc l"
proof -
  have l': "l' = goto_x i (O_Put r) l" using assms(3,4) by (simp add: ev_work_x_def)
  have d: "distinct (head0 l @ concat (map hold (pcs l)))" using one_place [OF assms(1)] by (auto simp: distinct_append)
  have d': "distinct (head0 l @ concat (map hold ((pcs l)[i := O_Put r])))"
  proof -
    have "map hold ((pcs l)[i := O_Put r]) = map hold (pcs l)" using assms(2,4) by (simp add: map_update list_update_same_conv)
    with d show ?thesis by simp
  qed
  have in_r: "O_Work r \<in> set (pcs l)" using nth_mem [OF assms(2)] assms(4) by simp
  then have nh: "r \<notin> set (head0 l)" using d held_concat [of r "pcs l"] by auto
  have no: "O_Work r \<notin> set ((pcs l)[i := O_Put r])"
  proof
    assume "O_Work r \<in> set ((pcs l)[i := O_Put r])"
    then obtain m where m: "m < length (pcs l)" "(pcs l)[i := O_Put r] ! m = O_Work r" by (auto simp: in_set_conv_nth)
    have "m \<noteq> i" using m assms(2) by auto
    then have "r \<in> set (hold ((pcs l)[i := O_Put r] ! m)) \<and> r \<in> set (hold ((pcs l)[i := O_Put r] ! i))"
      using m assms(2) by simp
    moreover have "distinct (concat (map hold ((pcs l)[i := O_Put r])))" using d' by simp
    ultimately show False using distinct_holds [of "(pcs l)[i := O_Put r]" m i r] m(1) assms(2) \<open>m \<noteq> i\<close> by simp
  qed
  have "O_Work r' \<in> set ((pcs l)[i := O_Put r]) \<longleftrightarrow> r' \<noteq> r \<and> O_Work r' \<in> set (pcs l)" for r'
    using in_update [OF assms(2), of "O_Work r'" "O_Put r"] assms(4) no by (cases "r' = r") simp_all
  moreover have "O_Put r' \<in> set ((pcs l)[i := O_Put r]) \<longleftrightarrow> r' = r \<or> O_Put r' \<in> set (pcs l)" for r'
    using in_update [OF assms(2), of "O_Put r'" "O_Put r"] assms(4) set_update_memI [OF assms(2)]
    by (cases "r' = r") simp_all
  ultimately show ?thesis using in_r nh by (auto simp: l' raw_def in_put_def)
qed

lemma add_places:
  "raw (EV_REQ_ADD r k l) = insert r (raw l) \<and> in_put (EV_REQ_ADD r k l) = in_put l \<and> head1 (EV_REQ_ADD r k l) = head1 l \<and>
   added (EV_REQ_ADD r k l) = added l @ [r] \<and> main_pc (EV_REQ_ADD r k l) = main_pc l"
  by (auto simp: EV_REQ_ADD_def Let_def raw_def in_put_def in_signal)

section \<open>No worker sleeps on a request\<close>

text \<open>\<open>wait_threads\<close> counts the workers inside \<open>pthread_cond_wait\<close>, and while a request is queued not all of
  them wait for a signal.\<close>

definition asleep :: "opc \<Rightarrow> nat" where
  "asleep p = (if p = O_Wait \<or> p = O_Wake then 1 else 0)"

definition sleepers :: "opc list \<Rightarrow> nat" where
  "sleepers ps = sum_list (map asleep ps)"

definition awake :: "ev_loop_t \<Rightarrow> bool" where
  "awake l \<longleftrightarrow> length (pcs l) = 4 \<and> wait_threads l = int (sleepers (pcs l)) \<and> (head0 l \<noteq> [] \<longrightarrow> (\<exists>p \<in> set (pcs l). p \<noteq> O_Wait))"

lemma sleepers_update: "i < length ps \<Longrightarrow> sleepers (ps[i := p]) + asleep (ps ! i) = sleepers ps + asleep p"
  unfolding sleepers_def by (rule sum_map_update)

lemma map_signal: "f w = f k \<Longrightarrow> map f (signal_one w k j ps) = map f ps"
  using signal_one_update [of w k j ps] by (metis list_update_id map_update)

lemma asleep_signal: "i < length ps \<Longrightarrow> asleep (signal_one O_Wait O_Wake j ps ! i) = asleep (ps ! i)"
  using map_signal [of asleep O_Wait O_Wake j ps] by (metis asleep_def length_signal_one nth_map)

lemma sleepers_signal: "sleepers (signal_one O_Wait O_Wake j ps) = sleepers ps"
  unfolding sleepers_def by (subst map_signal) (simp_all add: asleep_def)

lemma sleepers_all: "(\<forall>p \<in> set ps. p = O_Wait) \<Longrightarrow> sleepers ps = length ps"
  by (induction ps) (simp_all add: sleepers_def asleep_def)

lemma signal_wakes: "O_Wait \<in> set ps \<Longrightarrow> O_Wake \<in> set (signal_one O_Wait O_Wake j ps)"
proof -
  have "O_Wait \<in> set ps \<Longrightarrow> O_Wake \<in> set (wake_first O_Wait O_Wake ps)" by (induction ps) auto
  then show "O_Wait \<in> set ps \<Longrightarrow> ?thesis" by (simp add: signal_one_def set_update_memI)
qed

lemma signal_awake: "p \<in> set ps \<Longrightarrow> p \<noteq> O_Wait \<Longrightarrow> p \<in> set (signal_one O_Wait O_Wake j ps)"
  using signal_one_update [of O_Wait O_Wake j ps] by (metis in_set_conv_nth length_list_update nth_list_update_neq)

lemma ev_test_awake:
  assumes "i < length (pcs l)" "length (pcs l) = 4" "wait_threads l = int (sleepers (pcs l)) - int (asleep (pcs l ! i))"
  shows "awake (ev_test i j l)"
proof (cases "head0 l")
  case Nil
  then have "pcs (ev_test i j l) = (pcs l)[i := O_Wait]" "head0 (ev_test i j l) = []" "wait_threads (ev_test i j l) = wait_threads l + 1"
    by (simp_all add: ev_test_def Let_def goto_x_def)
  then show ?thesis
    using assms sleepers_update [OF assms(1), of O_Wait] by (simp add: awake_def asleep_def)
next
  case (Cons entry rest)
  define ps where "ps = (if rest \<noteq> [] then signal_one O_Wait O_Wake j (pcs l) else pcs l)"
  have p: "pcs (ev_test i j l) = ps[i := O_Work entry]" "wait_threads (ev_test i j l) = wait_threads l"
    by (simp_all add: ev_test_def Let_def Cons ps_def goto_x_def EV_SIGNAL_def)
  have s: "sleepers ps = sleepers (pcs l)" "length ps = length (pcs l)" by (simp_all add: ps_def sleepers_signal)
  have a: "asleep (ps ! i) = asleep (pcs l ! i)"
    using assms(1) by (simp add: ps_def asleep_signal)
  have "i < length ps" using assms(1) s by simp
  from set_update_memI [OF this, of "O_Work entry"] sleepers_update [OF this, of "O_Work entry"] show ?thesis
    using assms(2,3) s a by (auto simp: awake_def p asleep_def)
qed

lemma goto_awake:
  assumes "awake l" "i < length (pcs l)" "asleep p = asleep (pcs l ! i)" "p \<noteq> O_Wait"
    "pcs l' = (pcs l)[i := p]" "head0 l' = head0 l" "wait_threads l' = wait_threads l"
  shows "awake l'"
  using assms set_update_memI [OF assms(2), of p] sleepers_update [OF assms(2), of p]
  by (auto simp: awake_def)

lemma ev_work_awake:
  assumes "awake l" "old_inv l" "i < length (pcs l)" "ev_work_x i j l = Some l'"
  shows "awake l'"
proof (cases "pcs l ! i")
  case O_Lock0
  then have l': "l' = ev_test i j l" using assms(4) by (simp add: ev_work_x_def)
  show ?thesis unfolding l' by (rule ev_test_awake) (use assms O_Lock0 in \<open>simp_all add: awake_def asleep_def\<close>)
next
  case O_Wake
  moreover have "stop l = 0" using assms(2) by (simp add: old_inv_def)
  ultimately have l': "l' = ev_test i j (l\<lparr>wait_threads := wait_threads l - 1\<rparr>)" using assms(4) by (simp add: ev_work_x_def Let_def)
  show ?thesis unfolding l' by (rule ev_test_awake) (use assms O_Wake in \<open>simp_all add: awake_def asleep_def\<close>)
next
  case (O_Work e)
  then have l': "l' = goto_x i (O_Put e) l" using assms(4) by (simp add: ev_work_x_def)
  show ?thesis by (rule goto_awake [OF assms(1,3)]) (simp_all add: l' O_Work asleep_def goto_x_def)
next
  case (O_Put e)
  then have l': "l' = goto_x i O_Lock0 (l\<lparr>head1 := head1 l @ [e], efd_of := efd_post 1 (efd_of l)\<rparr>)"
    using assms(4) by (simp add: ev_work_x_def)
  show ?thesis by (rule goto_awake [OF assms(1,3)]) (simp_all add: l' O_Put asleep_def goto_x_def)
qed (use assms(4) in \<open>auto simp: ev_work_x_def\<close>)

lemma add_awake: "awake l \<Longrightarrow> awake (EV_REQ_ADD r j l)"
proof -
  assume a: "awake l"
  show "awake (EV_REQ_ADD r j l)"
  proof (cases "\<forall>p \<in> set (pcs l). p = O_Wait")
    case True
    then have "sleepers (pcs l) = 4" "O_Wait \<in> set (pcs l)" using sleepers_all [OF True] a by (cases "pcs l"; simp add: awake_def)+
    then show ?thesis using a signal_wakes [of "pcs l" j]
      by (auto simp: awake_def EV_REQ_ADD_def EV_SIGNAL_def Let_def sleepers_signal)
  next
    case False
    then obtain p where "p \<in> set (pcs l)" "p \<noteq> O_Wait" by blast
    with a signal_awake [OF this, of j] show ?thesis
      by (auto simp: awake_def EV_REQ_ADD_def EV_SIGNAL_def Let_def sleepers_signal)
  qed
qed

lemma old_step_awake: "old_step l l' \<Longrightarrow> awake l \<Longrightarrow> old_inv l \<Longrightarrow> awake l'"
proof (induction rule: old_step.induct)
  case (work i l j l')
  then show ?case by (auto intro: ev_work_awake)
next
  case (spurious i l)
  show ?case by (rule goto_awake) (use spurious in \<open>simp_all add: asleep_def goto_x_def\<close>)
next
  case (add req l j)
  then show ?case by (simp add: add_awake)
next
  case (run interrupted l l')
  then show ?case by (auto simp: ev_loop_run_x_def awake_def split: mpc.splits if_splits)
next
  case (free l l')
  then show ?case by (auto simp: ev_loop_free_x_def awake_def split: mpc.splits if_splits)
qed

lemma old_reachable_awake: "old_step\<^sup>*\<^sup>* ev_loop_init_x l \<Longrightarrow> awake l"
proof (induction rule: rtranclp_induct)
  case base
  show ?case by (simp add: awake_def ev_loop_init_x_def sleepers_def asleep_def)
next
  case (step l l')
  then show ?case using old_step_awake old_reachable_inv by blast
qed

section \<open>The steps of the workers are bounded\<close>

text \<open>How many steps can follow: 15 for each request queued, fewer for those further on.\<close>

fun worker_steps :: "opc \<Rightarrow> nat" where
  "worker_steps O_Lock0 = 6"
| "worker_steps O_Wake = 6"
| "worker_steps (O_Work e) = 14"
| "worker_steps (O_Put e) = 13"
| "worker_steps _ = 0"

definition loop_steps :: "ev_loop_t \<Rightarrow> nat" where
  "loop_steps l = 15 * length (head0 l) + sum_list (map worker_steps (pcs l)) + length (head1 l) + (if ef_edge (efd_of l) then 5 else 0)"

lemma signal_steps: "sum_list (map worker_steps (signal_one O_Wait O_Wake j ps)) \<le> sum_list (map worker_steps ps) + 6"
proof (cases "signal_one O_Wait O_Wake j ps = ps")
  case False
  then obtain i where "signal_one O_Wait O_Wake j ps = ps[i := O_Wake]" "i < length ps" "ps ! i = O_Wait"
    using signal_one_update [of O_Wait O_Wake j ps] by blast
  then show ?thesis using sum_map_update [of i ps worker_steps O_Wake] by simp
qed simp

lemma ev_test_steps:
  assumes "i < length (pcs l)" "worker_steps (pcs l ! i) = 6"
  shows "loop_steps (ev_test i j l) < loop_steps l"
proof (cases "head0 l")
  case Nil
  then have p: "pcs (ev_test i j l) = (pcs l)[i := O_Wait]" "head0 (ev_test i j l) = []"
    by (simp_all add: ev_test_def Let_def)
  have "sum_list (map worker_steps ((pcs l)[i := O_Wait])) + 6 = sum_list (map worker_steps (pcs l))"
    using sum_map_update [OF assms(1), of worker_steps O_Wait] assms(2) by simp
  then show ?thesis by (simp add: loop_steps_def p Nil)
next
  case (Cons entry rest)
  define ps where "ps = (if rest \<noteq> [] then signal_one O_Wait O_Wake j (pcs l) else pcs l)"
  have p: "pcs (ev_test i j l) = ps[i := O_Work entry]" "head0 (ev_test i j l) = rest" "efd_of (ev_test i j l) = efd_of l"
    by (simp_all add: ev_test_def Let_def Cons ps_def)
  have nw: "pcs l ! i \<noteq> O_Wait" using assms(2) by auto
  have i: "i < length ps" "ps ! i = pcs l ! i" using assms(1) signal_pc [of "pcs l" i] nw by (simp_all add: ps_def)
  have "sum_list (map worker_steps ps) \<le> sum_list (map worker_steps (pcs l)) + 6" by (simp add: ps_def signal_steps)
  moreover have "sum_list (map worker_steps (ps[i := O_Work entry])) + 6 = sum_list (map worker_steps ps) + 14"
    using sum_map_update [OF i(1), of worker_steps "O_Work entry"] i(2) assms(2) by simp
  ultimately show ?thesis by (simp add: loop_steps_def p Cons)
qed

lemma ev_work_steps:
  assumes "old_inv l" "i < length (pcs l)" "ev_work_x i j l = Some l'"
  shows "loop_steps l' < loop_steps l"
proof (cases "pcs l ! i")
  case O_Lock0
  then have l': "l' = ev_test i j l" using assms(3) by (simp add: ev_work_x_def)
  show ?thesis unfolding l' by (rule ev_test_steps) (use assms O_Lock0 in simp_all)
next
  case O_Wake
  moreover have "stop l = 0" using assms(1) by (simp add: old_inv_def)
  ultimately have l': "l' = ev_test i j (l\<lparr>wait_threads := wait_threads l - 1\<rparr>)" using assms(3) by (simp add: ev_work_x_def Let_def)
  have "loop_steps l' < loop_steps (l\<lparr>wait_threads := wait_threads l - 1\<rparr>)"
    unfolding l' by (rule ev_test_steps) (use assms O_Wake in simp_all)
  then show ?thesis by (simp add: loop_steps_def)
next
  case (O_Work e)
  then show ?thesis using assms(3) sum_map_update [OF assms(2), of worker_steps "O_Put e"]
    by (auto simp: ev_work_x_def loop_steps_def)
next
  case (O_Put e)
  then show ?thesis using assms(3) sum_map_update [OF assms(2), of worker_steps O_Lock0]
    by (auto simp: ev_work_x_def loop_steps_def efd_post_def)
qed (use assms(3) in \<open>auto simp: ev_work_x_def\<close>)

lemma work_head1: "ev_work_x i k l = Some l' \<Longrightarrow> (\<forall>r. pcs l ! i \<noteq> O_Put r) \<Longrightarrow> head1 l' = head1 l"
  by (auto simp: ev_work_x_def Let_def split: opc.splits if_splits)

lemma work_main_pc: "ev_work_x i k l = Some l' \<Longrightarrow> main_pc l' = main_pc l"
  by (auto simp: ev_work_x_def Let_def split: opc.splits if_splits)

section \<open>Properties\<close>

text \<open>In every reachable state each request added is in exactly one place: queued, with one worker, finished,
  or disposed of after its callback; and the main thread is never left in \<open>epoll_wait\<close> while finished
  requests wait for it.\<close>

lemma old_conservation:
  assumes "old_step\<^sup>*\<^sup>* ev_loop_init_x s"
  shows "mset (added s) = mset (head0 s) + in_hands hold (pcs s) + mset (head1 s) + mset (disposed s) \<and>
    distinct (added s) \<and> (main_pc s = M_Wait \<and> ev_loop_run_x False s = None \<longrightarrow> head1 s = [])"
proof -
  have "main_pc s = M_Wait \<Longrightarrow> \<not> efd_ready (efd_of s) \<Longrightarrow> head1 s = []"
    using oq.no_stranded_work [OF refl assms] by simp
  then show ?thesis
    using old_reachable_inv [OF assms] by (auto simp: old_inv_def ev_loop_run_x_def)
qed

lemma old_added_reachable: "\<exists>s :: ev_loop_t. old_step\<^sup>*\<^sup>* ev_loop_init_x s \<and> added s = [7]"
  by (rule exI [of _ "EV_REQ_ADD 7 0 ev_loop_init_x"], intro conjI r_into_rtranclp old_step.add)
    (simp_all add: EV_REQ_ADD_def ev_loop_init_x_def)

lemma old_conservation_witness:
  "\<exists>s :: ev_loop_t. added s = [7] \<and> mset (head0 s) + in_hands hold (pcs s) + mset (head1 s) + mset (disposed s) = {#7#}"
proof -
  obtain s where s: "old_step\<^sup>*\<^sup>* ev_loop_init_x s" "added s = [7]" using old_added_reachable by blast
  from old_conservation [OF s(1)] s(2) show ?thesis by (intro exI [of _ s]) simp
qed

text \<open>C32. \<open>ev_loop_free\<close> never returns: nothing sets \<open>stop\<close>, so the workers stay alive, and once the main
  thread is at the test of \<open>alive_threads\<close> it is there after every further step of any thread.\<close>

theorem old_free_spins:
  assumes "old_step\<^sup>*\<^sup>* ev_loop_init_x s" "main_pc s = M_Free" "old_step\<^sup>*\<^sup>* s s'"
  shows "main_pc s' = M_Free \<and> ev_loop_free_x s' = Some s'"
proof -
  have "main_pc s' = M_Free" using assms(3)
  proof (induction rule: rtranclp_induct)
    case (step s1 s2)
    then have "old_inv s1" using assms(1) old_reachable_inv by (meson rtranclp_trans)
    with step.hyps(2) step.IH show ?case
      by (cases rule: old_step.cases)
        (auto simp: ev_work_x_def Let_def EV_REQ_ADD_def ev_loop_run_x_def ev_loop_free_x_def old_inv_def
          split: opc.splits if_splits)
  qed (rule assms(2))
  moreover have "alive_threads s' = 4"
    using old_reachable_inv [of s'] assms(1,3) by (meson old_inv_def rtranclp_trans)
  ultimately show ?thesis by (simp add: ev_loop_free_x_def)
qed

lemma old_free_spins_witness: "\<exists>s. main_pc s = M_Free \<and> ev_loop_free_x s = Some s"
proof -
  have "old_step\<^sup>*\<^sup>* ev_loop_init_x (ev_loop_init_x\<lparr>main_pc := M_Free\<rparr>)"
    by (intro r_into_rtranclp old_step.run [of True]) (simp add: ev_loop_run_x_def ev_loop_init_x_def)
  from old_free_spins [OF this _ rtranclp.rtrancl_refl] show ?thesis
    by (intro exI [of _ "ev_loop_init_x\<lparr>main_pc := M_Free\<rparr>"]) simp
qed

end
