(* ===== verification/Runtime.thy ===== *)
theory Runtime
  imports Fs OldLoop
begin

text \<open>
  The older runtime put together: the calls of \<open>xxx/fs\<close>, the operations of \<open>xxx/eio\<close> and the event loop of \<open>xxx/ev\<close>, with
  one heap for all requests. A request is known by its address, under which the event loop queues it (\<open>OldLoop\<close>);
  what the request structure holds lies beside the heap (\<open>rt_reqs\<close>). The threads run in any order: a call from
  JavaScript, a step of a worker and what the main thread does with one request are steps, and each works on
  the heap as the others have left it.

  While the main thread empties \<open>head[1]\<close> it holds \<open>lock[1]\<close>: \<open>rt_todo\<close> is then what is left of the list, and no worker
  can put a request there. A reaction to a settled promise may make further calls: they are steps in between.
\<close>

section \<open>State\<close>

text \<open>The calls with their arguments, and the request structure.\<close>

datatype 'v fs_call = Call_open "'v call_info" | Call_read "'v call_info" | Call_close "'v call_info"

record rt_req =
  q_req :: eio_req
  q_resolver :: addr
  q_work :: "os \<Rightarrow> eio \<Rightarrow> eio option"
  q_callback :: callback

record 'v runtime =
  rt_loop :: ev_loop_t
  rt_todo :: "addr list option"
  rt_mem :: "addr \<Rightarrow> block option"
  rt_next :: addr
  rt_text :: "addr \<Rightarrow> buf"
  rt_reqs :: "addr \<Rightarrow> rt_req option"
  rt_promise :: "addr \<Rightarrow> 'v promise"
  rt_calls :: "addr \<Rightarrow> 'v fs_call option"

text \<open>\<open>rt_calls\<close> is history: the call that made the request of an address.\<close>

definition rt_start :: "(addr \<Rightarrow> block option) \<Rightarrow> addr \<Rightarrow> (addr \<Rightarrow> buf) \<Rightarrow> 'v runtime" where
  "rt_start mem nxt text = \<lparr>rt_loop = ev_loop_init_x, rt_todo = None, rt_mem = mem, rt_next = nxt, rt_text = text,
     rt_reqs = Map.empty, rt_promise = (\<lambda>_. Pending), rt_calls = Map.empty\<rparr>"

text \<open>The request at an address with the heap around it, and back.\<close>

definition eio_at :: "addr \<Rightarrow> rt_req \<Rightarrow> 'v runtime \<Rightarrow> eio" where
  "eio_at r q s = \<lparr>e_mem = rt_mem s, e_next = rt_next s, e_self = r, e_req = q_req q\<rparr>"

definition job_of :: "addr \<Rightarrow> rt_req \<Rightarrow> 'v runtime \<Rightarrow> 'v job" where
  "job_of r q s = \<lparr>j_eio = eio_at r q s, j_text = rt_text s, j_resolver = q_resolver q, j_promise = rt_promise s r,
     j_work = q_work q, j_callback = q_callback q\<rparr>"

definition job_at :: "addr \<Rightarrow> 'v runtime \<Rightarrow> 'v job option" where
  "job_at r s = map_option (\<lambda>q. job_of r q s) (rt_reqs s r)"

definition put_job :: "addr \<Rightarrow> 'v job \<Rightarrow> 'v runtime \<Rightarrow> 'v runtime" where
  "put_job r j s = s\<lparr>rt_mem := e_mem (j_eio j), rt_next := e_next (j_eio j), rt_text := j_text j,
     rt_reqs := (rt_reqs s)(r \<mapsto> \<lparr>q_req = e_req (j_eio j), q_resolver = j_resolver j, q_work = j_work j, q_callback = j_callback j\<rparr>),
     rt_promise := (rt_promise s)(r := j_promise j)\<rparr>"

section \<open>Steps\<close>

definition fs_job :: "'v v8 \<Rightarrow> 'v fs_call \<Rightarrow> heap \<Rightarrow> 'v job" where
  "fs_job V c h = (case c of Call_open a \<Rightarrow> fs_open V a h | Call_read a \<Rightarrow> fs_read V a h | Call_close a \<Rightarrow> fs_close V a h)"

text \<open>A call: the request is made and added to the loop. \<open>args\<close> and \<open>ret\<close> are what its fresh memory holds; \<open>k\<close> is the
  worker that a signal prefers to wake.\<close>

definition rt_call :: "'v v8 \<Rightarrow> 'v fs_call \<Rightarrow> nat list \<Rightarrow> int \<Rightarrow> nat \<Rightarrow> 'v runtime \<Rightarrow> 'v runtime" where
  "rt_call V c args ret k s =
     (let j = fs_job V c \<lparr>h_mem = rt_mem s, h_next = rt_next s, h_text = rt_text s, h_args = args, h_ret = ret\<rparr>;
          r = e_self (j_eio j)
      in (put_job r j s)\<lparr>rt_loop := EV_REQ_ADD r k (rt_loop s), rt_calls := (rt_calls s)(r \<mapsto> c)\<rparr>)"

text \<open>A step of worker \<open>i\<close>. \<open>os r\<close> is how the operating system answers the request at \<open>r\<close>, \<open>data r\<close> the bytes it delivers.\<close>

definition rt_work :: "(addr \<Rightarrow> os) \<Rightarrow> (int \<Rightarrow> string) \<Rightarrow> (addr \<Rightarrow> string) \<Rightarrow> nat \<Rightarrow> nat \<Rightarrow> 'v runtime \<Rightarrow> 'v runtime outcome" where
  "rt_work os strerror data i k s =
     (case ev_work_x i k (rt_loop s) of
        None \<Rightarrow> Blocked
      | Some l \<Rightarrow>
          (case pcs (rt_loop s) ! i of
             O_Work r \<Rightarrow>
               (case job_at r s of
                  None \<Rightarrow> Undefined
                | Some j \<Rightarrow>
                    (case work (os r) strerror (data r) j of
                       None \<Rightarrow> Undefined
                     | Some j' \<Rightarrow> Next ((put_job r j' s)\<lparr>rt_loop := l\<rparr>)))
           | O_Put r \<Rightarrow> if rt_todo s = None then Next (s\<lparr>rt_loop := l\<rparr>) else Blocked
           | _ \<Rightarrow> Next (s\<lparr>rt_loop := l\<rparr>)))"

text \<open>\<open>req->callback(req); EIO_REQ_FREE(req)\<close>.\<close>

definition dispose :: "'v v8 \<Rightarrow> addr \<Rightarrow> 'v runtime \<Rightarrow> 'v runtime option" where
  "dispose V r s = do {
     j \<leftarrow> job_at r s;
     j1 \<leftarrow> run_callback V j;
     st \<leftarrow> EIO_REQ_FREE (j_eio j1);
     let s1 = put_job r (j1\<lparr>j_eio := st\<rparr>) s;
     Some (s1\<lparr>rt_reqs := (rt_reqs s1)(r := None)\<rparr>)
   }"

text \<open>The main thread in \<open>ev_loop_run\<close>: when it has \<open>lock[1]\<close>, one request after the other.\<close>

definition rt_main :: "'v v8 \<Rightarrow> bool \<Rightarrow> 'v runtime \<Rightarrow> 'v runtime outcome" where
  "rt_main V interrupted s =
     (case ev_loop_run_x interrupted (rt_loop s) of
        None \<Rightarrow> Blocked
      | Some l \<Rightarrow>
          if main_pc (rt_loop s) \<noteq> M_Drain then Next (s\<lparr>rt_loop := l\<rparr>)
          else (case rt_todo s of
             None \<Rightarrow> Next (s\<lparr>rt_todo := Some (head1 (rt_loop s))\<rparr>)
           | Some [] \<Rightarrow> Next (s\<lparr>rt_todo := None, rt_loop := l\<rparr>)
           | Some (r # rest) \<Rightarrow>
               (case dispose V r s of None \<Rightarrow> Undefined | Some s' \<Rightarrow> Next (s'\<lparr>rt_todo := Some rest\<rparr>))))"

inductive rt_step :: "'v v8 \<Rightarrow> (addr \<Rightarrow> os) \<Rightarrow> (int \<Rightarrow> string) \<Rightarrow> (addr \<Rightarrow> string) \<Rightarrow> 'v runtime \<Rightarrow> 'v runtime \<Rightarrow> bool"
  for V os se data where
  call: "length args = 3 \<Longrightarrow> rt_step V os se data s (rt_call V c args ret k s)"
| work: "i < length (pcs (rt_loop s)) \<Longrightarrow> rt_work os se data i k s = Next s' \<Longrightarrow> rt_step V os se data s s'"
| spurious: "i < length (pcs (rt_loop s)) \<Longrightarrow> pcs (rt_loop s) ! i = O_Wait \<Longrightarrow>
    rt_step V os se data s (s\<lparr>rt_loop := goto_x i O_Wake (rt_loop s)\<rparr>)"
| main: "rt_main V interrupted s = Next s' \<Longrightarrow> rt_step V os se data s s'"
| free: "ev_loop_free_x (rt_loop s) = Some l \<Longrightarrow> rt_step V os se data s (s\<lparr>rt_loop := l\<rparr>)"

section \<open>What a call promises\<close>

text \<open>The system call that the code makes for the request at \<open>r\<close>: \<open>open\<close> has its path in the block before the request, \<open>read\<close> its
  buffer in the one after it. It is the call that the client asked for, except for the mode of \<open>open\<close>, which
  is the flags again (\<open>eio_open_mode\<close> of theory \<open>Eio\<close>).\<close>

definition sys_of :: "'v v8 \<Rightarrow> 'v fs_call \<Rightarrow> addr \<Rightarrow> syscall" where
  "sys_of V c r =
     (case c of
        Call_open a \<Rightarrow>
          (let flag = (if 2 \<le> c_len a then integer_value V (c_arg a 1) else O_RDONLY)
           in C_open (Some (r - 1)) (c_int flag) (nat (flag mod 2 ^ 32)))
      | Call_read a \<Rightarrow> C_read (c_int (integer_value V (c_arg a 0))) (Some (r + 1)) 255
      | Call_close a \<Rightarrow> C_close (c_int (integer_value V (c_arg a 0))))"

text \<open>How its promise is settled, from the answer of the system; \<^term>\<open>None\<close>: the callback reads past the bytes read.\<close>

definition answer :: "'v v8 \<Rightarrow> os \<Rightarrow> (int \<Rightarrow> string) \<Rightarrow> string \<Rightarrow> 'v fs_call \<Rightarrow> addr \<Rightarrow> 'v promise option" where
  "answer V os se data c r =
     (let (ret, e) = os (sys_of V c r); rejected = Some (Rejected (V8_ERROR V e (take 127 (se e)))) in
      case c of
        Call_open _ \<Rightarrow> if ret < 0 then rejected else Some (Fulfilled (V8_INT V ret))
      | Call_read _ \<Rightarrow>
          if ret < 0 then rejected
          else if no_nul data then None else Some (Fulfilled (V8_STR V (takeWhile (\<lambda>c. c \<noteq> NUL) data)))
      | Call_close _ \<Rightarrow> if ret \<noteq> 0 then rejected else Some (Fulfilled (V8_INT V 0)))"

text \<open>What is asked of the operating system: an error has a number and a text, a descriptor is an \<open>int\<close>, and \<open>read\<close>
  delivers as many bytes as it says, at most those asked for.\<close>

definition system_ok :: "'v v8 \<Rightarrow> (addr \<Rightarrow> os) \<Rightarrow> (int \<Rightarrow> string) \<Rightarrow> (addr \<Rightarrow> string) \<Rightarrow> bool" where
  "system_ok V os se data \<longleftrightarrow>
     (\<forall>e. no_nul (se e)) \<and>
     (\<forall>r c. let (ret, e) = os r (sys_of V c r) in
        ret \<le> int_max \<and> (ret < 0 \<or> ret \<noteq> 0 \<and> (\<exists>a. c = Call_close a) \<longrightarrow> e \<noteq> 0) \<and>
        ((\<exists>a. c = Call_read a) \<longrightarrow> 0 \<le> ret \<longrightarrow> ret = int (length (data r)) \<and> length (data r) \<le> 255))"

section \<open>One request\<close>

text \<open>How the callback will settle the promise.\<close>

definition verdict :: "'v v8 \<Rightarrow> 'v job \<Rightarrow> 'v promise option" where
  "verdict V j =
     (if r_errnum (e_req (j_eio j)) \<noteq> 0 then map_option Rejected (err_of V j)
      else case j_callback j of
        Callback1 \<Rightarrow> Some (Fulfilled (V8_INT V 0))
      | Callback2 \<Rightarrow> Some (Fulfilled (V8_INT V (c_int (r_ret (e_req (j_eio j))))))
      | Callback3 \<Rightarrow> map_option Fulfilled (str_of V (j_text j) (ptr_at 0 (j_eio j))))"

lemma run_callback_verdict: "run_callback V j = (case verdict V j of None \<Rightarrow> None | Some p \<Rightarrow> settle p j)"
  by (cases "j_callback j"; cases "r_errnum (e_req (j_eio j)) = 0")
    (simp_all add: run_callback_def verdict_def eio_req_fs_callback1_def eio_req_fs_callback2_def
      eio_req_fs_callback3_def split: Option.bind_splits option.splits)

text \<open>The blocks of a request: those that \<open>EIO_REQ_FREE\<close> frees, and its resolver.\<close>

definition foot :: "'v job \<Rightarrow> addr set" where
  "foot j = insert (j_resolver j) (set (own (j_eio j)))"

definition sound :: "'v job \<Rightarrow> bool" where
  "sound j \<longleftrightarrow> eio_wf (j_eio j) \<and> others (j_eio j) (j_resolver j) = Some Bytes"

text \<open>The verdict depends on the contents of the blocks of the request only.\<close>

lemma verdict_frame:
  assumes "\<And>a. a \<in> foot j \<Longrightarrow> j_text j' a = j_text j a" "e_req (j_eio j') = e_req (j_eio j)" "j_callback j' = j_callback j"
  shows "verdict V j' = verdict V j"
proof -
  have "r_errbuf (e_req (j_eio j)) = Some a \<Longrightarrow> a \<in> foot j" "ptr_at 0 (j_eio j) = Some a \<Longrightarrow> a \<in> foot j" for a
    by (simp_all add: foot_def own_def)
  with assms show ?thesis
    by (cases "r_errbuf (e_req (j_eio j))"; cases "ptr_at 0 (j_eio j)")
      (simp_all add: verdict_def err_of_def str_of_def ptr_at_def split: callback.split)
qed

text \<open>A request as a call left it: \<open>c\<close> is the call, \<open>r\<close> its address.\<close>

definition issued :: "'v v8 \<Rightarrow> 'v fs_call \<Rightarrow> addr \<Rightarrow> 'v job \<Rightarrow> bool" where
  "issued V c r j \<longleftrightarrow> r_errbuf (e_req (j_eio j)) = None \<and> r_errnum (e_req (j_eio j)) = 0 \<and>
     (case c of
        Call_open a \<Rightarrow> j_work j = eio_open \<and> j_callback j = Callback2 \<and>
          sys_of V c r = C_open (ptr_at 0 (j_eio j)) (arg_int 0 (j_eio j)) (arg_u32 0 (j_eio j))
      | Call_read a \<Rightarrow> j_work j = eio_read \<and> j_callback j = Callback3 \<and>
          sys_of V c r = C_read (arg_int 0 (j_eio j)) (ptr_at 0 (j_eio j)) (arg_size 1 (j_eio j)) \<and>
          j_text j (r + 1) = replicate 255 None
      | Call_close a \<Rightarrow> j_work j = eio_close \<and> j_callback j = Callback1 \<and> sys_of V c r = C_close (arg_int 0 (j_eio j)))"

text \<open>What the worker makes of it.\<close>

definition worked :: "'v job \<Rightarrow> 'v job \<Rightarrow> bool" where
  "worked j j' \<longleftrightarrow> keeps (j_eio j) (j_eio j') \<and> e_self (j_eio j') = e_self (j_eio j) \<and>
     e_next (j_eio j) \<le> e_next (j_eio j') \<and> j_resolver j' = j_resolver j \<and>
     j_promise j' = j_promise j \<and> (\<forall>a. a \<notin> set (own (j_eio j)) \<union> set (own (j_eio j')) \<longrightarrow> j_text j' a = j_text j a)"

lemma work_worked:
  assumes "j_work j os (j_eio j) = Some st" "keeps (j_eio j) st" "e_self st = e_self (j_eio j) \<and> e_next (j_eio j) \<le> e_next st"
  obtains j' where "work os se data j = Some j'" "j_eio j' = st" "worked j j'" "j_callback j' = j_callback j"
    "\<And>a. r_errbuf (e_req st) = Some a \<Longrightarrow> j_text j' a = err_text (se (r_errnum (e_req st)))"
    "\<And>a. r_errbuf (e_req st) = None \<Longrightarrow> ptr_at 0 (j_eio j) = Some a \<Longrightarrow> j_text j' a = put_bytes data (j_text j a)"
proof
  let ?t1 = "case ptr_at 0 (j_eio j) of None \<Rightarrow> j_text j | Some a \<Rightarrow> (j_text j)(a := put_bytes data (j_text j a))"
  let ?t2 = "case r_errbuf (e_req st) of None \<Rightarrow> ?t1 | Some a \<Rightarrow> ?t1(a := err_text (se (r_errnum (e_req st))))"
  show "work os se data j = Some (j\<lparr>j_eio := st, j_text := ?t2\<rparr>)" by (simp add: work_def assms(1) Let_def)
  show "worked j (j\<lparr>j_eio := st, j_text := ?t2\<rparr>)"
    using assms(2,3) by (auto simp: worked_def own_def split: option.split)
qed (simp_all split: option.split)

lemma free_ptr_next: "free_ptr p st = Some st' \<Longrightarrow> e_next st' = e_next st"
  by (auto simp: free_ptr_def split: option.splits block.splits)

lemma free_ptr_fields: "free_ptr p st = Some st' \<Longrightarrow> e_req st' = e_req st \<and> e_self st' = e_self st \<and> e_next st' = e_next st"
  using free_ptr_req free_ptr_next by blast

lemma op_self: "eio_open os st = Some st' \<or> eio_read os st = Some st' \<or> eio_close os st = Some st' \<Longrightarrow>
    e_self st' = e_self st \<and> e_next st \<le> e_next st'"
  by (auto simp: eio_open_def eio_read_def eio_close_def check_def free_null_def Let_def EIO_REQ_SETERR_def new_block_def
      set_ptr_def set_ret_def dest!: free_ptr_fields split: prod.splits if_splits Option.bind_splits)

lemma work_failed:
  assumes "sound j" "r_errbuf (e_req (j_eio j)) = None" "(j_work j, call, failed) \<in> set eio_made"
    and "j_work j \<in> {eio_open, eio_read, eio_close}" "os (call (j_eio j)) = (ret, e)" "failed ret" "e \<noteq> 0" "no_nul (se e)"
  shows "\<exists>j'. work os se data j = Some j' \<and> worked j j' \<and>
    verdict V j' = Some (Rejected (V8_ERROR V e (take 127 (se e))))"
proof -
  obtain st where st: "j_work j os (j_eio j) = Some st" "keeps (j_eio j) st" "r_errnum (e_req st) = e" "r_errbuf (e_req st) \<noteq> None"
    using eio_does [OF assms(3), of "j_eio j" os ret e] assms(1,2,5,6) by (auto simp: sound_def does_def sets_err_def)
  have s: "e_self st = e_self (j_eio j) \<and> e_next (j_eio j) \<le> e_next st" using st(1) assms(4) op_self [of os "j_eio j" st] by auto
  obtain a where a: "r_errbuf (e_req st) = Some a" using st(4) by auto
  from work_worked [where os = os and j = j, OF st(1,2) s, of se data] obtain j' where j': "work os se data j = Some j'" "j_eio j' = st" "worked j j'"
      "j_text j' a = err_text (se e)"
    using a st(3) by metis
  then have "verdict V j' = Some (Rejected (V8_ERROR V e (take 127 (se e))))"
    using assms(7,8) by (simp add: verdict_def err_of_def st(3) a)
  with j' show ?thesis by blast
qed

lemma open_done:
  assumes "sound j" "issued V (Call_open a) r j" "os (sys_of V (Call_open a) r) = (ret, e)" "\<not> ret < 0" "ret \<le> int_max"
  shows "\<exists>j'. work os se data j = Some j' \<and> worked j j' \<and> verdict V j' = Some (Fulfilled (V8_INT V ret))"
proof -
  let ?st = "j_eio j"
  have i: "j_work j = eio_open" "j_callback j = Callback2" "r_errbuf (e_req ?st) = None" "r_errnum (e_req ?st) = 0"
    and c: "os (C_open (ptr_at 0 ?st) (arg_int 0 ?st) (arg_u32 0 ?st)) = (ret, e)"
    using assms(2,3) by (simp_all add: issued_def)
  have t: "(eio_open, \<lambda>st. C_open (ptr_at 0 st) (arg_int 0 st) (arg_u32 0 st), negative) \<in> set eio_made"
    by (simp add: eio_made_def)
  obtain st where st: "eio_open os ?st = Some st" "keeps ?st st" "r_errnum (e_req st) = 0"
    using eio_does [where os = os and call = "\<lambda>st. C_open (ptr_at 0 st) (arg_int 0 st) (arg_u32 0 st)", OF t, of ?st ret e] assms(1,4) i c
    by (auto simp: sound_def does_def sets_err_def negative_def)
  have ret: "r_ret (e_req st) = ret"
    using st(1) c assms(4)
    by (auto simp: eio_open_def check_def free_null_def set_ptr_def set_ret_def dest: free_ptr_req split: Option.bind_splits)
  have "j_work j os ?st = Some st" using st(1) i by simp
  from work_worked [where os = os and j = j, OF this st(2) op_self, of os se data] st(1)
  obtain j' where "work os se data j = Some j'" "j_eio j' = st" "worked j j'" "j_callback j' = Callback2"
    using i by metis
  moreover from this have "verdict V j' = Some (Fulfilled (V8_INT V ret))"
    using st(3) ret assms(4,5) by (simp add: verdict_def int_max_def)
  ultimately show ?thesis by blast
qed

lemma read_done:
  assumes "sound j" "issued V (Call_read a) r j" "os (sys_of V (Call_read a) r) = (ret, e)" "\<not> ret < 0" "length data \<le> 255"
  shows "\<exists>j'. work os se data j = Some j' \<and> worked j j' \<and>
    verdict V j' = (if no_nul data then None else Some (Fulfilled (V8_STR V (takeWhile (\<lambda>c. c \<noteq> NUL) data))))"
proof -
  let ?st = "j_eio j"
  have i: "j_work j = eio_read" "j_callback j = Callback3" "r_errbuf (e_req ?st) = None" "r_errnum (e_req ?st) = 0"
    and c: "os (C_read (arg_int 0 ?st) (ptr_at 0 ?st) (arg_size 1 ?st)) = (ret, e)"
    and p: "ptr_at 0 ?st = Some (r + 1)" "j_text j (r + 1) = replicate 255 None"
    using assms(2,3) by (simp_all add: issued_def sys_of_def)
  have w: "j_work j os ?st = Some (set_ret ret ?st)" using c assms(4) i by (simp add: eio_read_def)
  have "keeps ?st (set_ret ret ?st)" using assms(1) by (simp add: keeps_set_ret keeps_refl sound_def)
  moreover have "e_self (set_ret ret ?st) = e_self ?st \<and> e_next ?st \<le> e_next (set_ret ret ?st)" by simp
  ultimately obtain j' where j': "work os se data j = Some j'" "j_eio j' = set_ret ret ?st" "worked j j'" "j_callback j' = Callback3"
      "j_text j' (r + 1) = put_bytes data (replicate 255 None)"
    using work_worked [where os = os and j = j, OF w, of se data] i p by (metis state_simps)
  have "c_str (put_bytes data (replicate 255 None)) = (if no_nul data then None else Some (takeWhile (\<lambda>c. c \<noteq> NUL) data))"
    unfolding put_bytes_def by (rule c_str_partial)
  then have "verdict V j' = (if no_nul data then None else Some (Fulfilled (V8_STR V (takeWhile (\<lambda>c. c \<noteq> NUL) data))))"
    using i(4) p(1) j' by (simp add: verdict_def str_of_def)
  with j' show ?thesis by blast
qed

lemma close_done:
  assumes "sound j" "issued V (Call_close a) r j" "os (sys_of V (Call_close a) r) = (0, e)"
  shows "\<exists>j'. work os se data j = Some j' \<and> worked j j' \<and> verdict V j' = Some (Fulfilled (V8_INT V 0))"
proof -
  let ?st = "j_eio j"
  have i: "j_work j = eio_close" "j_callback j = Callback1" "r_errnum (e_req ?st) = 0" and c: "os (C_close (arg_int 0 ?st)) = (0, e)"
    using assms(2,3) by (simp_all add: issued_def)
  then have w: "j_work j os ?st = Some ?st" by (simp add: eio_close_def check_def)
  have "keeps ?st ?st" using assms(1) by (simp add: keeps_refl sound_def)
  from work_worked [where os = os and j = j, OF w this conjI [OF refl le_refl], of se data]
  obtain j' where "work os se data j = Some j'" "j_eio j' = ?st" "worked j j'" "j_callback j' = Callback1"
    using i by metis
  moreover from this have "verdict V j' = Some (Fulfilled (V8_INT V 0))" using i(3) by (simp add: verdict_def)
  ultimately show ?thesis by blast
qed

text \<open>Both cases, for each of the calls.\<close>

definition answered :: "'v v8 \<Rightarrow> os \<Rightarrow> (int \<Rightarrow> string) \<Rightarrow> string \<Rightarrow> 'v fs_call \<Rightarrow> addr \<Rightarrow> 'v job \<Rightarrow> bool" where
  "answered V os se data c r j \<longleftrightarrow>
     (\<exists>j'. work os se data j = Some j' \<and> worked j j' \<and> verdict V j' = answer V os se data c r)"

lemma open_answers:
  assumes "sound j" "issued V (Call_open a) r j" "os (sys_of V (Call_open a) r) = (ret, e)" "no_nul (se e)" "ret \<le> int_max" "ret < 0 \<Longrightarrow> e \<noteq> 0"
  shows "answered V os se data (Call_open a) r j"
proof (cases "ret < 0")
  case True
  have t: "(j_work j, \<lambda>st. C_open (ptr_at 0 st) (arg_int 0 st) (arg_u32 0 st), negative) \<in> set eio_made"
    using assms(2) by (simp add: issued_def eio_made_def)
  have "r_errbuf (e_req (j_eio j)) = None" using assms(2) by (simp add: issued_def)
  from work_failed [where os = os and call = "\<lambda>st. C_open (ptr_at 0 st) (arg_int 0 st) (arg_u32 0 st)", OF assms(1) this t, of ret e se data V]
  show ?thesis using assms True by (simp add: answered_def issued_def answer_def negative_def)
next
  case False
  then show ?thesis using open_done [where os = os, OF assms(1,2,3)] assms by (simp add: answered_def answer_def)
qed

lemma read_answers:
  assumes "sound j" "issued V (Call_read a) r j" "os (sys_of V (Call_read a) r) = (ret, e)" "no_nul (se e)"
    and "ret < 0 \<Longrightarrow> e \<noteq> 0" "0 \<le> ret \<Longrightarrow> length data \<le> 255"
  shows "answered V os se data (Call_read a) r j"
proof (cases "ret < 0")
  case True
  have t: "(j_work j, \<lambda>st. C_read (arg_int 0 st) (ptr_at 0 st) (arg_size 1 st), negative) \<in> set eio_made"
    using assms(2) by (simp add: issued_def eio_made_def)
  have "r_errbuf (e_req (j_eio j)) = None" using assms(2) by (simp add: issued_def)
  from work_failed [where os = os and call = "\<lambda>st. C_read (arg_int 0 st) (ptr_at 0 st) (arg_size 1 st)", OF assms(1) this t, of ret e se data V]
  show ?thesis using assms True by (simp add: answered_def issued_def answer_def negative_def)
next
  case False
  then show ?thesis using read_done [where os = os, OF assms(1,2,3)] assms by (simp add: answered_def answer_def)
qed

lemma close_answers:
  assumes "sound j" "issued V (Call_close a) r j" "os (sys_of V (Call_close a) r) = (ret, e)" "no_nul (se e)" "ret \<noteq> 0 \<Longrightarrow> e \<noteq> 0"
  shows "answered V os se data (Call_close a) r j"
proof (cases "ret = 0")
  case True
  then show ?thesis using close_done [where os = os, OF assms(1,2)] assms by (simp add: answered_def answer_def)
next
  case False
  have t: "(j_work j, \<lambda>st. C_close (arg_int 0 st), nonzero) \<in> set eio_made"
    using assms(2) by (simp add: issued_def eio_made_def)
  have "r_errbuf (e_req (j_eio j)) = None" using assms(2) by (simp add: issued_def)
  from work_failed [where os = os and call = "\<lambda>st. C_close (arg_int 0 st)", OF assms(1) this t, of ret e se data V]
  show ?thesis using assms False by (simp add: answered_def issued_def answer_def nonzero_def)
qed

lemma work_answers:
  assumes "sound j" "issued V c r j" "system_ok V os se data"
  shows "\<exists>j'. work (os r) se (data r) j = Some j' \<and> worked j j' \<and> verdict V j' = answer V (os r) se (data r) c r"
proof -
  obtain ret e where re: "os r (sys_of V c r) = (ret, e)" by (cases "os r (sys_of V c r)")
  have "ret \<le> int_max" "no_nul (se e)" "ret < 0 \<or> ret \<noteq> 0 \<and> (\<exists>a. c = Call_close a) \<Longrightarrow> e \<noteq> 0"
      "\<exists>a. c = Call_read a \<Longrightarrow> 0 \<le> ret \<Longrightarrow> length (data r) \<le> 255"
    using assms(3) re unfolding system_ok_def by (auto dest!: spec [of _ r] spec [of _ c])
  with assms(1,2) re show ?thesis
    unfolding answered_def [symmetric]
    by (cases c) (auto intro: open_answers read_answers close_answers)
qed

section \<open>The heap\<close>

definition blocks :: "addr \<Rightarrow> rt_req \<Rightarrow> addr set" where
  "blocks r q = foot (job_of r q (rt_start Map.empty 0 (\<lambda>_. []) :: unit runtime))"

lemma foot_job_of [simp]: "foot (job_of r q s) = blocks r q"
  by (simp add: blocks_def foot_def job_of_def own_def eio_at_def ptr_at_def)

lemma job_of_fields [simp]:
  "e_mem (j_eio (job_of r q s)) = rt_mem s" "e_next (j_eio (job_of r q s)) = rt_next s" "e_self (j_eio (job_of r q s)) = r"
  "e_req (j_eio (job_of r q s)) = q_req q" "j_text (job_of r q s) = rt_text s" "j_resolver (job_of r q s) = q_resolver q"
  "j_work (job_of r q s) = q_work q" "j_callback (job_of r q s) = q_callback q" "j_promise (job_of r q s) = rt_promise s r"
  by (simp_all add: job_of_def eio_at_def)

lemma own_job_of: "set (own (j_eio (job_of r q s))) \<subseteq> blocks r q"
  using foot_job_of [of r q s] by (auto simp: foot_def)

definition heap_inv :: "(addr \<Rightarrow> block option) \<Rightarrow> 'v runtime \<Rightarrow> bool" where
  "heap_inv mem0 s \<longleftrightarrow>
     (\<forall>r q. rt_reqs s r = Some q \<longrightarrow> sound (job_of r q s) \<and> (\<forall>a \<in> blocks r q. mem0 a = None)) \<and>
     (\<forall>r q r' q'. rt_reqs s r = Some q \<longrightarrow> rt_reqs s r' = Some q' \<longrightarrow> r \<noteq> r' \<longrightarrow> blocks r q \<inter> blocks r' q' = {}) \<and>
     (\<forall>a. (\<forall>r q. rt_reqs s r = Some q \<longrightarrow> a \<notin> blocks r q) \<longrightarrow> rt_mem s a = mem0 a) \<and>
     (\<forall>a \<ge> rt_next s. rt_mem s a = None)"

lemma heap_invD:
  assumes "heap_inv mem0 s"
  shows "rt_reqs s r = Some q \<Longrightarrow> sound (job_of r q s)" "rt_reqs s r = Some q \<Longrightarrow> a \<in> blocks r q \<Longrightarrow> mem0 a = None"
    "rt_reqs s r = Some q \<Longrightarrow> rt_reqs s r' = Some q' \<Longrightarrow> r \<noteq> r' \<Longrightarrow> a \<in> blocks r q \<Longrightarrow> a \<notin> blocks r' q'"
    "(\<And>r q. rt_reqs s r = Some q \<Longrightarrow> a \<notin> blocks r q) \<Longrightarrow> rt_mem s a = mem0 a" "rt_next s \<le> a \<Longrightarrow> rt_mem s a = None"
  using assms unfolding heap_inv_def by blast+

lemma sound_alloc:
  assumes "sound (job_of r q s)" "a \<in> blocks r q"
  shows "rt_mem s a \<noteq> None"
proof -
  have "a = q_resolver q \<or> a \<in> set (own (j_eio (job_of r q s)))"
    using assms(2) unfolding foot_job_of [of r q s, symmetric] foot_def by simp
  with assms(1) show ?thesis by (auto simp: sound_def eio_wf_def others_def restrict_map_def split: if_splits)
qed

lemma sound_frame:
  assumes "sound (job_of r q s)" "\<And>a. a \<in> blocks r q \<Longrightarrow> rt_mem s' a = rt_mem s a" "\<And>a. rt_next s' \<le> a \<Longrightarrow> rt_mem s' a = None"
  shows "sound (job_of r q s')"
proof -
  have o: "own (j_eio (job_of r q s')) = own (j_eio (job_of r q s))" by (simp add: job_of_def own_def eio_at_def ptr_at_def)
  have b: "q_resolver q \<in> blocks r q" "set (own (j_eio (job_of r q s))) \<subseteq> blocks r q"
    using foot_job_of [of r q s] by (auto simp: foot_def job_of_def)
  have m: "e_mem (j_eio (job_of r q t)) = rt_mem t" "e_next (j_eio (job_of r q t)) = rt_next t" "j_resolver (job_of r q t) = q_resolver q" for t :: "'v runtime"
    by (simp_all add: job_of_def eio_at_def)
  show ?thesis using assms b unfolding sound_def eio_wf_def others_def restrict_map_def o m by (auto split: if_splits)
qed

definition req_of :: "'v job \<Rightarrow> rt_req" where
  "req_of j = \<lparr>q_req = e_req (j_eio j), q_resolver = j_resolver j, q_work = j_work j, q_callback = j_callback j\<rparr>"

lemma put_job_simps [simp]:
  "rt_mem (put_job r j s) = e_mem (j_eio j)" "rt_next (put_job r j s) = e_next (j_eio j)" "rt_text (put_job r j s) = j_text j"
  "rt_reqs (put_job r j s) = (rt_reqs s)(r \<mapsto> req_of j)" "rt_promise (put_job r j s) = (rt_promise s)(r := j_promise j)"
  "rt_loop (put_job r j s) = rt_loop s" "rt_todo (put_job r j s) = rt_todo s" "rt_calls (put_job r j s) = rt_calls s"
  by (simp_all add: put_job_def req_of_def)

lemma job_of_put [simp]: "e_self (j_eio j) = r \<Longrightarrow> job_of r (req_of j) (put_job r j s) = j"
  by (simp add: job_of_def eio_at_def req_of_def)

lemma blocks_req_of: "e_self (j_eio j) = r \<Longrightarrow> blocks r (req_of j) = foot j"
  using job_of_put foot_job_of by metis

text \<open>A request is replaced: what the new heap needs, whichever operation it was.\<close>

definition here :: "addr \<Rightarrow> 'v runtime \<Rightarrow> addr set" where
  "here r s = (case rt_reqs s r of None \<Rightarrow> {} | Some q \<Rightarrow> blocks r q)"

lemma here_apart:
  assumes "heap_inv mem0 s" "rt_reqs s r' = Some q'" "r' \<noteq> r" "a \<in> blocks r' q'"
  shows "a \<notin> here r s"
  using heap_invD(3) [OF assms(1,2) _ assms(3,4)] by (auto simp: here_def split: option.split)

lemma here_mem0: "heap_inv mem0 s \<Longrightarrow> a \<in> here r s \<Longrightarrow> mem0 a = None"
  using heap_invD(2) [of mem0 s r _ a] by (auto simp: here_def split: option.splits)

lemma put_apart:
  assumes "heap_inv mem0 s" "\<And>a. a \<in> foot j \<Longrightarrow> a \<notin> here r s \<Longrightarrow> rt_mem s a = None"
    and "rt_reqs s r' = Some q'" "r' \<noteq> r" "a \<in> blocks r' q'"
  shows "a \<notin> foot j"
  using assms(2) [of a] here_apart [OF assms(1,3-5)] sound_alloc [OF heap_invD(1) [OF assms(1,3)] assms(5)] by blast

lemma put_mem0:
  assumes "heap_inv mem0 s" "\<And>a. a \<in> foot j \<Longrightarrow> a \<notin> here r s \<Longrightarrow> rt_mem s a = None" "a \<in> foot j"
  shows "mem0 a = None"
proof (cases "a \<in> here r s")
  case True
  then show ?thesis by (rule here_mem0 [OF assms(1)])
next
  case False
  then have m: "rt_mem s a = None" using assms(2,3) by blast
  have "a \<notin> blocks r' q'" if "rt_reqs s r' = Some q'" for r' q'
    using sound_alloc [OF heap_invD(1) [OF assms(1) that]] m by blast
  then show ?thesis using heap_invD(4) [OF assms(1), of a] m by simp
qed

lemma heap_inv_put:
  assumes inv: "heap_inv mem0 s" and self: "e_self (j_eio j) = r" and snd: "sound j"
    and new: "\<And>a. a \<in> foot j \<Longrightarrow> a \<notin> here r s \<Longrightarrow> rt_mem s a = None"
    and same: "\<And>a. a \<notin> foot j \<Longrightarrow> a \<notin> here r s \<Longrightarrow> e_mem (j_eio j) a = rt_mem s a"
    and gone: "\<And>a. a \<notin> foot j \<Longrightarrow> a \<in> here r s \<Longrightarrow> e_mem (j_eio j) a = None"
  shows "heap_inv mem0 (put_job r j s)"
proof -
  let ?s = "put_job r j s"
  note b = blocks_req_of [OF self]
  have apart: "a \<notin> foot j" if "rt_reqs s r' = Some q'" "r' \<noteq> r" "a \<in> blocks r' q'" for r' q' a
    by (rule put_apart [OF inv _ that]) (rule new)
  have fresh: "mem0 a = None" if "a \<in> foot j" for a by (rule put_mem0 [OF inv _ that]) (rule new)
  have bound: "rt_next ?s \<le> a \<Longrightarrow> rt_mem ?s a = None" for a using snd by (simp add: sound_def eio_wf_def)
  have keep: "rt_mem ?s a = rt_mem s a" if "rt_reqs s r' = Some q'" "r' \<noteq> r" "a \<in> blocks r' q'" for r' q' a
    using same [of a] apart [OF that] here_apart [OF inv that] by simp
  show ?thesis
    unfolding heap_inv_def
  proof (intro conjI allI impI)
    fix r' q' assume r': "rt_reqs ?s r' = Some q'"
    show "sound (job_of r' q' ?s)"
    proof (cases "r' = r")
      case False
      then have q: "rt_reqs s r' = Some q'" using r' by simp
      show ?thesis using sound_frame [OF heap_invD(1) [OF inv q] keep [OF q False] bound] .
    qed (use r' snd self in auto)
    show "\<forall>a \<in> blocks r' q'. mem0 a = None"
      using r' fresh b heap_invD(2) [OF inv, of r' q'] by (cases "r' = r") auto
  next
    fix r1 q1 r2 q2 assume "rt_reqs ?s r1 = Some q1" "rt_reqs ?s r2 = Some q2" "r1 \<noteq> r2"
    then show "blocks r1 q1 \<inter> blocks r2 q2 = {}"
      using apart b heap_invD(3) [OF inv, of r1 q1 r2 q2] by (auto split: if_splits)
  next
    fix a assume a: "\<forall>r' q'. rt_reqs ?s r' = Some q' \<longrightarrow> a \<notin> blocks r' q'"
    have nf: "a \<notin> foot j" using a [rule_format, of r "req_of j"] b by simp
    have "a \<notin> here r s \<Longrightarrow> a \<notin> blocks r' q'" if "rt_reqs s r' = Some q'" for r' q'
      using that a by (cases "r' = r") (auto simp: here_def)
    then show "rt_mem ?s a = mem0 a"
      using gone [OF nf] here_mem0 [OF inv] same [OF nf] heap_invD(4) [OF inv, of a] by (cases "a \<in> here r s") auto
  next
    fix a assume "rt_next ?s \<le> a"
    then show "rt_mem ?s a = None" by (rule bound)
  qed
qed

lemma heap_inv_worked:
  assumes inv: "heap_inv mem0 s" and q: "rt_reqs s r = Some q" and w: "worked (job_of r q s) j"
  shows "heap_inv mem0 (put_job r j s)" "sound j" "e_self (j_eio j) = r"
    and "rt_reqs s r' = Some q' \<Longrightarrow> r' \<noteq> r \<Longrightarrow> a \<in> blocks r' q' \<Longrightarrow> j_text j a = rt_text s a"
proof -
  let ?j = "job_of r q s"
  have k: "eio_wf (j_eio j)" "others (j_eio j) = others (j_eio ?j)" using w by (simp_all add: worked_def keeps_def)
  show self: "e_self (j_eio j) = r" using w by (simp add: worked_def)
  have res: "j_resolver j = q_resolver q" using w by (simp add: worked_def)
  have sj: "sound ?j" by (rule heap_invD(1) [OF inv q])
  show snd: "sound j" using sj k res by (simp add: sound_def)
  have oth: "a \<notin> set (own (j_eio j)) \<Longrightarrow> a \<notin> set (own (j_eio ?j)) \<Longrightarrow> e_mem (j_eio j) a = rt_mem s a"
      "a \<notin> set (own (j_eio j)) \<Longrightarrow> a \<in> set (own (j_eio ?j)) \<Longrightarrow> e_mem (j_eio j) a = None"
      "a \<in> set (own (j_eio j)) \<Longrightarrow> a \<notin> set (own (j_eio ?j)) \<Longrightarrow> rt_mem s a = None" for a
    using fun_cong [OF k(2), of a] by (simp_all add: others_def restrict_map_def)
  have f: "foot j = insert (q_resolver q) (set (own (j_eio j)))" "blocks r q = insert (q_resolver q) (set (own (j_eio ?j)))"
    using foot_job_of [of r q s] by (auto simp: foot_def res)
  have h: "here r s = blocks r q" by (simp add: here_def q)
  show "heap_inv mem0 (put_job r j s)"
    by (rule heap_inv_put [OF inv self snd]) (use oth f h in auto)
  assume r': "rt_reqs s r' = Some q'" "r' \<noteq> r" "a \<in> blocks r' q'"
  then have "a \<notin> blocks r q" using heap_invD(3) [OF inv r'(1) q r'(2,3)] by simp
  moreover have "a \<notin> set (own (j_eio j))"
    using oth(3) [of a] sound_alloc [OF heap_invD(1) [OF inv r'(1)] r'(3)] \<open>a \<notin> blocks r q\<close> f(2) by auto
  ultimately show "j_text j a = rt_text s a" using w f(2) by (simp add: worked_def)
qed

lemma EIO_REQ_FREE_next: "EIO_REQ_FREE st = Some st' \<Longrightarrow> e_next st' = e_next st"
  by (auto simp: EIO_REQ_FREE_def split: Option.bind_splits dest!: free_ptr_next)

lemma settle_fields: "settle p j = Some j' \<Longrightarrow> j_text j' = j_text j \<and> e_next (j_eio j') = e_next (j_eio j)"
  by (auto simp: settle_def split: Option.bind_splits dest: free_ptr_next)

lemma dispose_undefined: "rt_reqs s r = Some q \<Longrightarrow> verdict V (job_of r q s) = None \<Longrightarrow> dispose V r s = None"
  by (simp add: dispose_def job_at_def run_callback_verdict)

lemma heap_inv_drop:
  assumes inv: "heap_inv mem0 s" and q: "rt_reqs s r = Some q"
    and f: "rt_reqs s' = (rt_reqs s)(r := None)" "rt_next s' = rt_next s"
    and m: "\<And>a. rt_mem s' a = (if a \<in> blocks r q then None else rt_mem s a)"
  shows "heap_inv mem0 s'"
  unfolding heap_inv_def
proof (intro conjI allI impI)
  fix r' q' assume "rt_reqs s' r' = Some q'"
  then have q': "rt_reqs s r' = Some q'" "r' \<noteq> r" by (auto simp: f split: if_splits)
  show "sound (job_of r' q' s')"
    by (rule sound_frame [OF heap_invD(1) [OF inv q'(1)]])
      (use heap_invD(3) [OF inv q'(1) q q'(2)] heap_invD(5) [OF inv] in \<open>simp_all add: m f\<close>)
  show "\<forall>a \<in> blocks r' q'. mem0 a = None" using heap_invD(2) [OF inv q'(1)] by blast
next
  fix r1 q1 r2 q2 assume "rt_reqs s' r1 = Some q1" "rt_reqs s' r2 = Some q2" "r1 \<noteq> r2"
  then show "blocks r1 q1 \<inter> blocks r2 q2 = {}"
    using heap_invD(3) [OF inv, of r1 q1 r2 q2] by (auto simp: f split: if_splits)
next
  fix a assume a: "\<forall>r' q'. rt_reqs s' r' = Some q' \<longrightarrow> a \<notin> blocks r' q'"
  have "a \<notin> blocks r' q'" if "rt_reqs s r' = Some q'" "a \<notin> blocks r q" for r' q'
    using that a q by (cases "r' = r") (auto simp: f)
  then show "rt_mem s' a = mem0 a"
    using heap_invD(2) [OF inv q, of a] heap_invD(4) [OF inv, of a] by (auto simp: m)
next
  fix a assume "rt_next s' \<le> a"
  then show "rt_mem s' a = None" using heap_invD(5) [OF inv, of a] by (simp add: m f)
qed

lemma dispose_settles:
  assumes inv: "heap_inv mem0 s" and q: "rt_reqs s r = Some q" and v: "verdict V (job_of r q s) = Some p"
  shows "\<exists>s'. dispose V r s = Some s' \<and> heap_inv mem0 s' \<and> rt_reqs s' = (rt_reqs s)(r := None) \<and>
    rt_promise s' = (rt_promise s)(r := p) \<and> rt_text s' = rt_text s \<and> rt_loop s' = rt_loop s \<and> rt_todo s' = rt_todo s \<and>
    rt_calls s' = rt_calls s \<and> rt_next s' = rt_next s"
proof -
  let ?j = "job_of r q s"
  have snd: "sound ?j" by (rule heap_invD(1) [OF inv q])
  then have "keeps (j_eio ?j) (j_eio ?j)" "others (j_eio ?j) (j_resolver ?j) = Some Bytes" by (simp_all add: sound_def keeps_refl)
  from settle_and_free [OF this, of p] obtain j1 st where st: "settle p ?j = Some j1" "j_promise j1 = p"
      "EIO_REQ_FREE (j_eio j1) = Some st" "e_mem st = (others (j_eio ?j))(q_resolver q := None)" by auto
  define s' where "s' = (put_job r (j1\<lparr>j_eio := st\<rparr>) s)\<lparr>rt_reqs := (rt_reqs s)(r := None)\<rparr>"
  have d: "dispose V r s = Some s'" by (simp add: dispose_def job_at_def q run_callback_verdict v st s'_def)
  have "blocks r q = insert (q_resolver q) (set (own (j_eio ?j)))" using foot_job_of [of r q s] by (simp add: foot_def)
  then have m: "rt_mem s' a = (if a \<in> blocks r q then None else rt_mem s a)" for a
    by (simp add: s'_def st(4) others_def restrict_map_def)
  have f: "rt_next s' = rt_next s" "rt_text s' = rt_text s" "rt_reqs s' = (rt_reqs s)(r := None)"
    using settle_fields [OF st(1)] EIO_REQ_FREE_next [OF st(3)] by (simp_all add: s'_def)
  have "heap_inv mem0 s'" by (rule heap_inv_drop [OF inv q f(3,1) m])
  with d f show ?thesis by (intro exI [of _ s']) (simp add: s'_def st(2))
qed

text \<open>A new request.\<close>

definition made :: "'v v8 \<Rightarrow> 'v fs_call \<Rightarrow> heap \<Rightarrow> 'v job \<Rightarrow> bool" where
  "made V c h j \<longleftrightarrow> sound j \<and> issued V c (e_self (j_eio j)) j \<and> j_promise j = Pending \<and> h_next h \<le> e_self (j_eio j) \<and>
     (\<forall>a \<in> foot j. h_next h \<le> a) \<and> (\<forall>a. a \<notin> foot j \<longrightarrow> e_mem (j_eio j) a = h_mem h a) \<and>
     (\<forall>a < h_next h. j_text j a = h_text h a) \<and> e_self (j_eio j) < e_next (j_eio j) \<and> h_next h \<le> e_next (j_eio j)"

lemma open_made:
  assumes h: "heap_ok h"
  shows "made V (Call_open a) h (fs_open V a h)"
proof -
  let ?flag = "if 2 \<le> c_len a then integer_value V (c_arg a 1) else O_RDONLY"
  obtain tx s where j: "fs_open V a h = make_job eio_open Callback2 tx s" and s:
    "e_mem s = (h_mem h)(h_next h \<mapsto> Bytes, h_next h + 1 \<mapsto> Bytes)" "e_next s = h_next h + 2"
    "set (own s) = {h_next h, h_next h + 1}" "distinct (own s)" "r_errbuf (e_req s) = None" "r_errnum (e_req s) = 0"
    "arg_int 0 s = c_int ?flag" "arg_u32 0 s = nat (?flag mod 2 ^ 32)" "ptr_at 0 s = Some (h_next h)"
    by (rule fs_open_job [OF h refl])
  have r: "ready (make_job eio_open Callback2 tx s)" by (rule ready_ptr(1) [OF h s(1-6)])
  have t: "tx = (h_text h)(h_next h := map Some (utf8_value V (c_arg a 0)) @ [Some NUL])"
    using j by (simp add: fs_open_def make_job_def Let_def split: if_splits)
  have "e_self s \<in> set (own s)" "h_next h # tl (own s) = own s" "e_self s \<in> set (tl (own s))" using s(9) by (simp_all add: own_def)
  then have self: "e_self s = h_next h + 1" using s(3,4) by (metis distinct.simps(2) insertE singletonD)
  show ?thesis
    using r s(3) unfolding j
    by (simp add: made_def sound_def ready_def issued_def sys_of_def self s Let_def foot_def t, simp add: make_job_def)
qed

lemma read_made:
  assumes h: "heap_ok h"
  shows "made V (Call_read a) h (fs_read V a h)"
proof -
  let ?tx = "(h_text h)(h_next h + 1 := replicate 255 None)"
  obtain s where j: "fs_read V a h = make_job eio_read Callback3 ?tx s" and s:
    "e_mem s = (h_mem h)(h_next h \<mapsto> Bytes, h_next h + 1 \<mapsto> Bytes)" "e_next s = h_next h + 2"
    "set (own s) = {h_next h, h_next h + 1}" "distinct (own s)" "r_errbuf (e_req s) = None" "r_errnum (e_req s) = 0"
    "arg_int 0 s = c_int (integer_value V (c_arg a 0))" "arg_size 1 s = 255" "ptr_at 0 s = Some (h_next h + 1)"
    by (rule fs_read_job [OF h])
  have r: "ready (make_job eio_read Callback3 ?tx s)" by (rule ready_ptr(1) [OF h s(1-6)])
  have "(h_next h + 1) # tl (own s) = own s" "e_self s \<in> set (tl (own s))" using s(9) by (simp_all add: own_def)
  then have self: "e_self s = h_next h" using s(3,4) by (metis distinct.simps(2) insertE list.set_intros(2) singletonD)
  have "arg_size (Suc 0) s = 255" using s(8) by simp
  then show ?thesis
    using r s(3) unfolding j
    by (simp add: made_def sound_def ready_def issued_def sys_of_def self s foot_def, simp add: make_job_def)
qed

lemma close_made:
  assumes h: "heap_ok h"
  shows "made V (Call_close a) h (fs_close V a h)"
proof -
  define s where "s = set_arg32 0 (integer_value V (c_arg a 0)) (EIO_REQ_ALLOC (h_mem h) (h_next h) (h_args h) (h_ret h))"
  have j: "fs_close V a h = make_job eio_close Callback1 (h_text h) s" by (simp add: fs_close_def s_def Let_def)
  have r: "ready (make_job eio_close Callback1 (h_text h) s)" by (rule ready_plain(1) [OF h s_def])
  have l: "length (h_args h) = 3" using h by (simp add: heap_ok_def)
  show ?thesis
    using r unfolding j
    by (simp add: made_def sound_def ready_def issued_def sys_of_def foot_def, simp add: make_job_def s_def l)
qed

lemma fs_job_made: "heap_ok h \<Longrightarrow> made V c h (fs_job V c h)"
  by (cases c) (simp_all add: fs_job_def open_made read_made close_made)

lemma madeD:
  assumes "made V c h j"
  shows "sound j" "issued V c (e_self (j_eio j)) j" "j_promise j = Pending" "h_next h \<le> e_self (j_eio j)"
    "a \<in> foot j \<Longrightarrow> h_next h \<le> a" "a \<notin> foot j \<Longrightarrow> e_mem (j_eio j) a = h_mem h a"
    "a < h_next h \<Longrightarrow> j_text j a = h_text h a" "e_self (j_eio j) < e_next (j_eio j)" "h_next h \<le> e_next (j_eio j)"
  using assms unfolding made_def by blast+

end
