(* ===== verification/RuntimeFate.thy ===== *)
theory RuntimeFate
  imports Runtime
begin

text \<open>
  What the older runtime (\<open>Runtime\<close>) does with its calls. An invariant ties the three parts together: the event loop says
  where each request is, the heap holds the blocks of the requests that are there and nothing else, and a request is as its call
  made it until a worker has run it, and as the worker left it after that. Every step keeps it. The loop of the runtime makes
  the steps of \<open>OldLoop\<close>, so what is proved there (no finished request is slept on, no worker sleeps on a request) holds
  here; with the bound on the steps it follows that every promise is settled.
\<close>

section \<open>The invariant\<close>

text \<open>The requests that the main thread has still to take: the list, or what is left of it.\<close>

definition live1 :: "'v runtime \<Rightarrow> addr list" where
  "live1 s = (case rt_todo s of None \<Rightarrow> head1 (rt_loop s) | Some t \<Rightarrow> t)"

text \<open>A request as it was made, worked on, or settled.\<close>

definition good :: "'v v8 \<Rightarrow> os \<Rightarrow> (int \<Rightarrow> string) \<Rightarrow> string \<Rightarrow> 'v runtime \<Rightarrow> addr \<Rightarrow> 'v fs_call \<Rightarrow> bool" where
  "good V os se data s r c =
     (case rt_reqs s r of
        None \<Rightarrow> answer V os se data c r = Some (rt_promise s r)
      | Some q \<Rightarrow> rt_promise s r = Pending \<and>
          (if r \<in> raw (rt_loop s) then issued V c r (job_of r q s)
           else verdict V (job_of r q s) = answer V os se data c r))"

definition rt_inv :: "'v v8 \<Rightarrow> (addr \<Rightarrow> os) \<Rightarrow> (int \<Rightarrow> string) \<Rightarrow> (addr \<Rightarrow> string) \<Rightarrow> (addr \<Rightarrow> block option) \<Rightarrow> 'v runtime \<Rightarrow> bool" where
  "rt_inv V os se data mem0 s \<longleftrightarrow>
     old_inv (rt_loop s) \<and> heap_inv mem0 s \<and>
     (\<forall>r \<in> set (added (rt_loop s)). r < rt_next s \<and> (\<exists>c. rt_calls s r = Some c \<and> good V (os r) se (data r) s r c)) \<and>
     dom (rt_reqs s) = raw (rt_loop s) \<union> in_put (rt_loop s) \<union> set (live1 s) \<and>
     (rt_todo s \<noteq> None \<longrightarrow> main_pc (rt_loop s) = M_Drain \<and> (\<exists>gone. head1 (rt_loop s) = gone @ live1 s))"

lemma rt_invD:
  assumes "rt_inv V os se data mem0 s"
  shows "old_inv (rt_loop s)" "heap_inv mem0 s" "r \<in> set (added (rt_loop s)) \<Longrightarrow> r < rt_next s"
    "r \<in> set (added (rt_loop s)) \<Longrightarrow> \<exists>c. rt_calls s r = Some c \<and> good V (os r) se (data r) s r c"
    "dom (rt_reqs s) = raw (rt_loop s) \<union> in_put (rt_loop s) \<union> set (live1 s)"
    "rt_todo s \<noteq> None \<Longrightarrow> main_pc (rt_loop s) = M_Drain" "rt_todo s \<noteq> None \<Longrightarrow> \<exists>gone. head1 (rt_loop s) = gone @ live1 s"
  using assms unfolding rt_inv_def by blast+

lemma live1_head1: "rt_inv V os se data mem0 s \<Longrightarrow> set (live1 s) \<subseteq> set (head1 (rt_loop s))"
  using rt_invD(7) [of V os se data mem0 s] by (cases "rt_todo s") (auto simp: live1_def)

lemma reqs_added:
  assumes "rt_inv V os se data mem0 s" "rt_reqs s r = Some q"
  shows "r \<in> set (added (rt_loop s))"
proof -
  have "r \<in> raw (rt_loop s) \<union> in_put (rt_loop s) \<union> set (live1 s)" using rt_invD(5) [OF assms(1)] assms(2) by auto
  then show ?thesis using live1_head1 [OF assms(1)] placed_added [OF rt_invD(1) [OF assms(1)]] by blast
qed

lemma issued_frame:
  assumes "issued V c r (job_of r q s)" "\<And>a. a \<in> blocks r q \<Longrightarrow> rt_text s' a = rt_text s a"
  shows "issued V c r (job_of r q s')"
proof -
  have "ptr_at 0 (j_eio (job_of r q s)) = Some a \<Longrightarrow> a \<in> blocks r q" for a
    using own_job_of [of r q s] by (auto simp: own_def)
  moreover have "ptr_at i (j_eio (job_of r q s')) = ptr_at i (j_eio (job_of r q s))" "arg_int i (j_eio (job_of r q s')) = arg_int i (j_eio (job_of r q s))"
    "arg_u32 i (j_eio (job_of r q s')) = arg_u32 i (j_eio (job_of r q s))" "arg_size i (j_eio (job_of r q s')) = arg_size i (j_eio (job_of r q s))" for i
    by (simp_all add: ptr_at_def arg_int_def arg_u32_def arg_size_def)
  ultimately show ?thesis using assms by (cases c) (auto simp: issued_def sys_of_def)
qed

lemma good_frame:
  assumes "good V os se data s r c" "rt_reqs s' r = rt_reqs s r" "rt_promise s' r = rt_promise s r"
    and "r \<in> raw (rt_loop s') \<longleftrightarrow> r \<in> raw (rt_loop s)"
    and "\<And>q a. rt_reqs s r = Some q \<Longrightarrow> a \<in> blocks r q \<Longrightarrow> rt_text s' a = rt_text s a"
  shows "good V os se data s' r c"
proof (cases "rt_reqs s r")
  case None
  with assms show ?thesis by (simp add: good_def)
next
  case (Some q)
  have "verdict V (job_of r q s') = verdict V (job_of r q s)"
    by (rule verdict_frame) (use assms(5) [OF Some] in simp_all)
  moreover have "issued V c r (job_of r q s) \<Longrightarrow> issued V c r (job_of r q s')"
    by (rule issued_frame) (use assms(5) [OF Some] in simp_all)
  ultimately show ?thesis using assms(1-4) Some by (simp add: good_def)
qed

lemma heap_inv_loop [simp]:
  "heap_inv mem0 (s\<lparr>rt_loop := l\<rparr>) = heap_inv mem0 s" "heap_inv mem0 (s\<lparr>rt_todo := t\<rparr>) = heap_inv mem0 s"
  "heap_inv mem0 (s\<lparr>rt_calls := cs\<rparr>) = heap_inv mem0 s"
  by (simp_all add: heap_inv_def job_of_def eio_at_def)

text \<open>What a step has to show: nothing about the requests that it does not touch but that it leaves them alone.\<close>

lemma rt_inv_change:
  assumes inv: "rt_inv V os se data mem0 s" and "old_inv (rt_loop s')" "heap_inv mem0 s'" "rt_next s \<le> rt_next s'"
    and add: "added (rt_loop s') = added (rt_loop s) @ xs"
      "\<And>r. r \<in> set xs \<Longrightarrow> r < rt_next s' \<and> (\<exists>c. rt_calls s' r = Some c \<and> good V (os r) se (data r) s' r c)"
    and keep: "\<And>r c. r \<in> set (added (rt_loop s)) \<Longrightarrow> rt_calls s r = Some c \<Longrightarrow> good V (os r) se (data r) s r c \<Longrightarrow>
      rt_calls s' r = Some c \<and> good V (os r) se (data r) s' r c"
    and "dom (rt_reqs s') = raw (rt_loop s') \<union> in_put (rt_loop s') \<union> set (live1 s')"
    and todo: "rt_todo s' \<noteq> None \<Longrightarrow> rt_todo s \<noteq> None \<and> main_pc (rt_loop s') = main_pc (rt_loop s) \<and>
      head1 (rt_loop s') = head1 (rt_loop s) \<and> (\<exists>gone. live1 s = gone @ live1 s')"
  shows "rt_inv V os se data mem0 s'"
  unfolding rt_inv_def
proof (intro conjI ballI impI)
  fix r assume "r \<in> set (added (rt_loop s'))"
  then have "r \<in> set xs \<or> r \<in> set (added (rt_loop s))" by (auto simp: add(1))
  then show "r < rt_next s'" "\<exists>c. rt_calls s' r = Some c \<and> good V (os r) se (data r) s' r c"
    using rt_invD(3,4) [OF inv, of r] keep [of r] add(2) [of r] assms(4) by fastforce+
next
  assume "rt_todo s' \<noteq> None"
  then have "rt_todo s \<noteq> None \<and> main_pc (rt_loop s') = main_pc (rt_loop s) \<and> head1 (rt_loop s') = head1 (rt_loop s)"
    and "\<exists>gone. live1 s = gone @ live1 s'" using todo by blast+
  moreover from this have "main_pc (rt_loop s) = M_Drain" "\<exists>gone. head1 (rt_loop s) = gone @ live1 s" using rt_invD(6,7) [OF inv] by blast+
  ultimately show "main_pc (rt_loop s') = M_Drain" "\<exists>gone. head1 (rt_loop s') = gone @ live1 s'" by (metis, metis append_assoc)
qed (use assms in simp_all)

text \<open>Steps of the loop alone.\<close>

lemma inv_moves:
  assumes inv: "rt_inv V os se data mem0 s" and l: "old_inv l" "raw l = raw (rt_loop s)" "added l = added (rt_loop s)"
    and none: "rt_todo s = None \<Longrightarrow> in_put l \<union> set (head1 l) = in_put (rt_loop s) \<union> set (head1 (rt_loop s))"
    and some: "rt_todo s \<noteq> None \<Longrightarrow> main_pc l = main_pc (rt_loop s) \<and> in_put l = in_put (rt_loop s) \<and> head1 l = head1 (rt_loop s)"
  shows "rt_inv V os se data mem0 (s\<lparr>rt_loop := l\<rparr>)"
proof (rule rt_inv_change [OF inv, where xs = "[]"])
  have "raw l \<union> in_put l \<union> set (live1 (s\<lparr>rt_loop := l\<rparr>)) = raw (rt_loop s) \<union> in_put (rt_loop s) \<union> set (live1 s)"
    using none some l(2) by (cases "rt_todo s") (auto simp: live1_def)
  then show "dom (rt_reqs (s\<lparr>rt_loop := l\<rparr>)) = raw (rt_loop (s\<lparr>rt_loop := l\<rparr>)) \<union> in_put (rt_loop (s\<lparr>rt_loop := l\<rparr>)) \<union> set (live1 (s\<lparr>rt_loop := l\<rparr>))"
    using rt_invD(5) [OF inv] by simp
next
  fix r c assume "rt_calls s r = Some c" "good V (os r) se (data r) s r c"
  then show "rt_calls (s\<lparr>rt_loop := l\<rparr>) r = Some c \<and> good V (os r) se (data r) (s\<lparr>rt_loop := l\<rparr>) r c"
    using good_frame [of V "os r" se "data r" s r c "s\<lparr>rt_loop := l\<rparr>"] l by simp
next
  assume "rt_todo (s\<lparr>rt_loop := l\<rparr>) \<noteq> None"
  then show "rt_todo s \<noteq> None \<and> main_pc (rt_loop (s\<lparr>rt_loop := l\<rparr>)) = main_pc (rt_loop s) \<and>
      head1 (rt_loop (s\<lparr>rt_loop := l\<rparr>)) = head1 (rt_loop s) \<and> (\<exists>gone. live1 s = gone @ live1 (s\<lparr>rt_loop := l\<rparr>))"
    using some by (auto simp: live1_def)
qed (use rt_invD(2) [OF inv] l in simp_all)

lemma rt_start_inv:
  assumes "\<And>a. nxt \<le> a \<Longrightarrow> mem a = None"
  shows "rt_inv V os se data mem (rt_start mem nxt text)"
  using assms
  by (simp add: rt_inv_def rt_start_def heap_inv_def old_inv_def ev_loop_init_x_def in_hands_def raw_def in_put_def live1_def)

section \<open>The steps keep the invariant\<close>

lemma runtime_loop_simps [simp]:
  "job_of r q (s\<lparr>rt_loop := l\<rparr>) = job_of r q s" "job_of r q (s\<lparr>rt_todo := t\<rparr>) = job_of r q s"
  "job_of r q (s\<lparr>rt_calls := cs\<rparr>) = job_of r q s"
  by (simp_all add: job_of_def eio_at_def)

lemma live1_cong: "rt_todo s' = rt_todo s \<Longrightarrow> head1 (rt_loop s') = head1 (rt_loop s) \<Longrightarrow> live1 s' = live1 s"
  by (simp add: live1_def split: option.split)

text \<open>A call.\<close>

lemma call_new:
  assumes inv: "rt_inv V os se data mem0 s" and m: "made V c \<lparr>h_mem = rt_mem s, h_next = rt_next s, h_text = rt_text s, h_args = args, h_ret = ret\<rparr> j"
    and r: "r = e_self (j_eio j)"
  shows "r \<notin> set (added (rt_loop s))" "rt_reqs s r = None" "heap_inv mem0 (put_job r j s)"
    "rt_reqs s r' = Some q \<Longrightarrow> a \<in> blocks r' q \<Longrightarrow> j_text j a = rt_text s a"
proof -
  have hinv: "heap_inv mem0 s" by (rule rt_invD(2) [OF inv])
  note n = madeD [OF m, folded r, simplified]
  show new: "r \<notin> set (added (rt_loop s))" using rt_invD(3) [OF inv, of r] n(4) by (meson not_le)
  then show none: "rt_reqs s r = None" using reqs_added [OF inv] by fastforce
  show "heap_inv mem0 (put_job r j s)"
    by (rule heap_inv_put [OF hinv _ n(1)]) (use n(5,6) none heap_invD(5) [OF hinv] in \<open>auto simp: r here_def\<close>)
  assume "rt_reqs s r' = Some q" "a \<in> blocks r' q"
  then have "rt_mem s a \<noteq> None" using sound_alloc heap_invD(1) [OF hinv] by blast
  then show "j_text j a = rt_text s a" using heap_invD(5) [OF hinv] n(7) by (meson not_le)
qed

lemma call_inv:
  assumes inv: "rt_inv V os se data mem0 s" and args: "length args = 3"
  shows "rt_inv V os se data mem0 (rt_call V c args ret k s)"
proof -
  define h where "h = \<lparr>h_mem = rt_mem s, h_next = rt_next s, h_text = rt_text s, h_args = args, h_ret = ret\<rparr>"
  define j where "j = fs_job V c h"
  define r where "r = e_self (j_eio j)"
  define s' where "s' = rt_call V c args ret k s"
  have "heap_ok h" using args heap_invD(5) [OF rt_invD(2) [OF inv]] by (simp add: heap_ok_def h_def)
  from fs_job_made [OF this] have made: "made V c h j" unfolding j_def .
  note n = madeD [OF made, folded r_def] and new = call_new [OF inv made [unfolded h_def] r_def]
  note p = add_places [of r k "rt_loop s"]
  have s': "s' = (put_job r j s)\<lparr>rt_loop := EV_REQ_ADD r k (rt_loop s), rt_calls := (rt_calls s)(r \<mapsto> c)\<rparr>"
    by (simp add: s'_def rt_call_def h_def [symmetric] j_def [symmetric] r_def Let_def)
  have job: "job_of r (req_of j) (put_job r j s) = j" by (simp add: r_def)
  have l1: "live1 s' = live1 s" by (rule live1_cong) (simp_all add: s' p)
  show ?thesis
    unfolding s'_def [symmetric]
  proof (rule rt_inv_change [OF inv, where xs = "[r]"])
    show "old_inv (rt_loop s')" using old_step_inv [OF old_step.add [OF new(1)] rt_invD(1) [OF inv]] by (simp add: s')
    show "dom (rt_reqs s') = raw (rt_loop s') \<union> in_put (rt_loop s') \<union> set (live1 s')"
      using rt_invD(5) [OF inv] p unfolding l1 by (simp add: s')
  next
    fix r' assume "r' \<in> set [r]"
    then show "r' < rt_next s' \<and> (\<exists>c. rt_calls s' r' = Some c \<and> good V (os r') se (data r') s' r' c)"
      using n(2,3,8) p job by (auto simp: good_def s')
  next
    fix r' c' assume r': "r' \<in> set (added (rt_loop s))" "rt_calls s r' = Some c'" and g: "good V (os r') se (data r') s r' c'"
    have "good V (os r') se (data r') s' r' c'"
      by (rule good_frame [OF g]) (use r' new p in \<open>auto simp: s'\<close>)
    then show "rt_calls s' r' = Some c' \<and> good V (os r') se (data r') s' r' c'" using r' new(1) by (auto simp: s')
  next
    assume "rt_todo s' \<noteq> None"
    then show "rt_todo s \<noteq> None \<and> main_pc (rt_loop s') = main_pc (rt_loop s) \<and> head1 (rt_loop s') = head1 (rt_loop s) \<and>
        (\<exists>gone. live1 s = gone @ live1 s')" using l1 p by (simp add: s')
  qed (use new(3) n(9) p in \<open>simp_all add: s' h_def\<close>)
qed

text \<open>A worker runs a request.\<close>

lemma worked_inv:
  assumes inv: "rt_inv V os se data mem0 s" and ok: "system_ok V os se data" and i: "i < length (pcs (rt_loop s))"
    and l: "ev_work_x i k (rt_loop s) = Some l" and pc: "pcs (rt_loop s) ! i = O_Work r"
  shows "\<exists>s'. rt_work os se data i k s = Next s' \<and> rt_inv V os se data mem0 s'"
proof -
  have hinv: "heap_inv mem0 s" by (rule rt_invD(2) [OF inv])
  note m = ev_work_run [OF rt_invD(1) [OF inv] i l pc]
  have "r \<in> dom (rt_reqs s)" using m rt_invD(5) [OF inv] by auto
  then obtain q where q: "rt_reqs s r = Some q" by auto
  obtain c where c: "rt_calls s r = Some c" "good V (os r) se (data r) s r c"
    using rt_invD(4) [OF inv reqs_added [OF inv q]] by blast
  then have iss: "issued V c r (job_of r q s)" "rt_promise s r = Pending" using m q by (simp_all add: good_def)
  obtain j where j: "work (os r) se (data r) (job_of r q s) = Some j" "worked (job_of r q s) j"
      "verdict V j = answer V (os r) se (data r) c r"
    using work_answers [OF heap_invD(1) [OF hinv q] iss(1) ok] by blast
  define s' where "s' = (put_job r j s)\<lparr>rt_loop := l\<rparr>"
  have step: "rt_work os se data i k s = Next s'" by (simp add: rt_work_def l pc job_at_def q j(1) s'_def)
  note h = heap_inv_worked [OF hinv q j(2)]
  have l1: "live1 s' = live1 s" by (rule live1_cong) (simp_all add: s'_def m)
  have gr: "good V (os r) se (data r) s' r c" using m j iss(2) h(3) by (simp add: good_def s'_def worked_def)
  have "rt_inv V os se data mem0 s'"
  proof (rule rt_inv_change [OF inv, where xs = "[]"])
    show "old_inv (rt_loop s')" using ev_work_x_inv [OF rt_invD(1) [OF inv] i l] by (simp add: s'_def)
    show "dom (rt_reqs s') = raw (rt_loop s') \<union> in_put (rt_loop s') \<union> set (live1 s')"
      using rt_invD(5) [OF inv] m unfolding l1 by (auto simp: s'_def)
  next
    fix r' c' assume r': "rt_calls s r' = Some c'" "good V (os r') se (data r') s r' c'"
    have "good V (os r') se (data r') s' r' c'" if "r' \<noteq> r"
      by (rule good_frame [OF r'(2)]) (use that m h(4) in \<open>simp_all add: s'_def\<close>)
    then show "rt_calls s' r' = Some c' \<and> good V (os r') se (data r') s' r' c'"
      using gr r'(1) c(1) by (cases "r' = r") (auto simp: s'_def)
  qed (use h(1) j(2) m l1 in \<open>simp_all add: s'_def worked_def\<close>)
  with step show ?thesis by blast
qed

text \<open>The main thread disposes of one.\<close>

lemma dispose_inv:
  assumes inv: "rt_inv V os se data mem0 s" and todo: "rt_todo s = Some (r # rest)" and d: "dispose V r s = Some s1"
  shows "rt_inv V os se data mem0 (s1\<lparr>rt_todo := Some rest\<rparr>)"
proof -
  have t: "rt_todo s \<noteq> None" using todo by simp
  have l1: "live1 s = r # rest" by (simp add: live1_def todo)
  obtain gone where gone: "head1 (rt_loop s) = gone @ r # rest" using rt_invD(7) [OF inv t] l1 by auto
  then have nr: "r \<notin> set rest" using one_place [OF rt_invD(1) [OF inv]] by simp
  have nl: "r \<notin> raw (rt_loop s)" "r \<notin> in_put (rt_loop s)" using raw_head1 [OF rt_invD(1) [OF inv], of r] gone by simp_all
  have "r \<in> dom (rt_reqs s)" using rt_invD(5) [OF inv] l1 by simp
  then obtain q where q: "rt_reqs s r = Some q" by auto
  obtain p where v: "verdict V (job_of r q s) = Some p" using dispose_undefined [OF q] d by fastforce
  from dispose_settles [OF rt_invD(2) [OF inv] q v] d
  have f: "heap_inv mem0 s1" "rt_reqs s1 = (rt_reqs s)(r := None)" "rt_promise s1 = (rt_promise s)(r := p)"
      "rt_text s1 = rt_text s" "rt_loop s1 = rt_loop s" "rt_calls s1 = rt_calls s" "rt_next s1 = rt_next s" by auto
  define s' where "s' = s1\<lparr>rt_todo := Some rest\<rparr>"
  show ?thesis
    unfolding s'_def [symmetric]
  proof (rule rt_inv_change [OF inv, where xs = "[]"])
    show "dom (rt_reqs s') = raw (rt_loop s') \<union> in_put (rt_loop s') \<union> set (live1 s')"
      using rt_invD(5) [OF inv] nl nr f l1 by (auto simp: s'_def live1_def)
  next
    fix r' c' assume r': "rt_calls s r' = Some c'" and g: "good V (os r') se (data r') s r' c'"
    have "good V (os r') se (data r') s' r' c'" if "r' \<noteq> r"
      by (rule good_frame [OF g]) (use that f in \<open>simp_all add: s'_def\<close>)
    moreover have "r' = r \<Longrightarrow> good V (os r') se (data r') s' r' c'" using g q v nl f by (simp add: good_def s'_def)
    ultimately show "rt_calls s' r' = Some c' \<and> good V (os r') se (data r') s' r' c'" using r' f by (auto simp: s'_def)
  next
    show "rt_todo s \<noteq> None \<and> main_pc (rt_loop s') = main_pc (rt_loop s) \<and> head1 (rt_loop s') = head1 (rt_loop s) \<and>
        (\<exists>gone. live1 s = gone @ live1 s')"
      using t f l1 by (auto simp: s'_def live1_def)
  qed (use f rt_invD(1) [OF inv] in \<open>simp_all add: s'_def\<close>)
qed

section \<open>Every step\<close>

lemma work_step:
  assumes inv: "rt_inv V os se data mem0 s" and i: "i < length (pcs (rt_loop s))" and w: "rt_work os se data i k s = Next s'"
    and no: "\<And>r. pcs (rt_loop s) ! i \<noteq> O_Work r"
  shows "rt_inv V os se data mem0 s'"
proof -
  obtain l where l: "ev_work_x i k (rt_loop s) = Some l" using w by (auto simp: rt_work_def split: option.splits)
  have s': "s' = s\<lparr>rt_loop := l\<rparr>" "\<And>r. pcs (rt_loop s) ! i = O_Put r \<Longrightarrow> rt_todo s = None"
    using w no l by (auto simp: rt_work_def split: opc.splits if_splits)
  note m = ev_work_places [OF rt_invD(1) [OF inv] i l no]
  show ?thesis unfolding s'(1)
    by (rule inv_moves [OF inv ev_work_x_inv [OF rt_invD(1) [OF inv] i l]]) (use m s'(2) in auto)
qed

lemma main_inv:
  assumes inv: "rt_inv V os se data mem0 s" and m: "rt_main V b s = Next s'"
  shows "rt_inv V os se data mem0 s'"
proof -
  obtain l where l: "ev_loop_run_x b (rt_loop s) = Some l" using m by (auto simp: rt_main_def split: option.splits)
  have linv: "old_inv l" using old_step_inv [OF old_step.run [OF l]] rt_invD(1) [OF inv] by simp
  show ?thesis
  proof (cases "main_pc (rt_loop s) = M_Drain")
    case False
    then have s': "s' = s\<lparr>rt_loop := l\<rparr>" using m l by (simp add: rt_main_def)
    have "raw l = raw (rt_loop s) \<and> in_put l = in_put (rt_loop s) \<and> head1 l = head1 (rt_loop s) \<and> added l = added (rt_loop s)"
      using l False by (auto simp: ev_loop_run_x_def raw_def in_put_def split: mpc.splits if_splits)
    then show ?thesis unfolding s' using inv_moves [OF inv linv] False rt_invD(6) [OF inv] by auto
  next
    case True
    then have d: "raw l = raw (rt_loop s)" "in_put l = in_put (rt_loop s)" "added l = added (rt_loop s)" "head1 l = []"
      using l by (auto simp: ev_loop_run_x_def raw_def in_put_def)
    show ?thesis
    proof (cases "rt_todo s")
      case None
      then have s': "s' = s\<lparr>rt_todo := Some (head1 (rt_loop s))\<rparr>" using m l True by (simp add: rt_main_def)
      have "good V (os r) se (data r) s r c \<Longrightarrow> good V (os r) se (data r) s' r c" for r c
        by (rule good_frame) (simp_all add: s')
      then show ?thesis using inv None True by (fastforce simp: rt_inv_def s' live1_def)
    next
      case (Some t)
      show ?thesis
      proof (cases t)
        case Nil
        then have s': "s' = s\<lparr>rt_todo := None, rt_loop := l\<rparr>" using m l True Some by (simp add: rt_main_def)
        have "good V (os r) se (data r) s r c \<Longrightarrow> good V (os r) se (data r) s' r c" for r c
          by (rule good_frame) (simp_all add: s' d)
        then show ?thesis using inv linv d Some Nil by (fastforce simp: rt_inv_def s' live1_def)
      next
        case (Cons r rest)
        then obtain s1 where "dispose V r s = Some s1" "s' = s1\<lparr>rt_todo := Some rest\<rparr>"
          using m l True Some by (auto simp: rt_main_def split: option.splits)
        then show ?thesis using dispose_inv [OF inv] Some Cons by simp
      qed
    qed
  qed
qed

lemma rt_step_inv:
  assumes "rt_step V os se data s s'" "system_ok V os se data" "rt_inv V os se data mem0 s"
  shows "rt_inv V os se data mem0 s'"
  using assms(1)
proof cases
  case (call args c ret k)
  then show ?thesis using call_inv [OF assms(3)] by simp
next
  case (work i k)
  obtain l where l: "ev_work_x i k (rt_loop s) = Some l" using work(2) by (auto simp: rt_work_def split: option.splits)
  show ?thesis
  proof (cases "\<exists>r. pcs (rt_loop s) ! i = O_Work r")
    case True
    then obtain r where r: "pcs (rt_loop s) ! i = O_Work r" by auto
    from worked_inv [OF assms(3,2) work(1) l r] work(2) show ?thesis by auto
  next
    case False
    then show ?thesis using work_step [OF assms(3) work] by blast
  qed
next
  case (spurious i)
  have "raw (rt_loop s') = raw (rt_loop s)" "in_put (rt_loop s') = in_put (rt_loop s)"
    using in_update [OF spurious(2), of _ O_Wake] spurious(1,3) by (auto simp: raw_def in_put_def)
  with old_step_inv [OF old_step.spurious [OF spurious(2,3)]] show ?thesis
    using inv_moves [OF assms(3), of "rt_loop s'"] rt_invD(1) [OF assms(3)] by (simp add: spurious(1))
next
  case (main b)
  then show ?thesis using main_inv [OF assms(3)] by blast
next
  case (free l)
  have "raw l = raw (rt_loop s) \<and> in_put l = in_put (rt_loop s) \<and> head1 l = head1 (rt_loop s) \<and> added l = added (rt_loop s) \<and>
      main_pc (rt_loop s) = M_Free"
    using free(2) by (auto simp: ev_loop_free_x_def raw_def in_put_def split: mpc.splits if_splits)
  with old_step_inv [OF old_step.free [OF free(2)]] show ?thesis
    unfolding free(1) using inv_moves [OF assms(3), of l] rt_invD(1,6) [OF assms(3)] by (metis mpc.distinct(16))
qed

lemma rt_reachable_inv:
  assumes "(rt_step V os se data)\<^sup>*\<^sup>* (rt_start mem nxt text) s" "system_ok V os se data" "\<And>a. nxt \<le> a \<Longrightarrow> mem a = None"
  shows "rt_inv V os se data mem s"
  using assms(1)
proof (induction rule: rtranclp_induct)
  case base
  show ?case by (rule rt_start_inv [OF assms(3)])
next
  case (step s s')
  then show ?case using rt_step_inv assms(2) by blast
qed

text \<open>The loop of the program makes the steps of \<open>OldLoop\<close>, or none.\<close>

lemma put_job_loop: "dispose V r s = Some s' \<Longrightarrow> rt_loop s' = rt_loop s"
  by (auto simp: dispose_def Let_def split: Option.bind_splits)

lemma rt_step_loop:
  assumes "rt_step V os se data s s'" "system_ok V os se data" "rt_inv V os se data mem0 s"
  shows "rt_loop s' = rt_loop s \<or> old_step (rt_loop s) (rt_loop s')"
  using assms(1)
proof cases
  case (call args c ret k)
  then obtain r where r: "rt_loop s' = EV_REQ_ADD r k (rt_loop s)" by (simp add: rt_call_def Let_def)
  have "distinct (added (rt_loop s'))" using rt_invD(1) [OF rt_step_inv [OF assms]] by (simp add: old_inv_def)
  then have "r \<notin> set (added (rt_loop s))" using add_places [of r k "rt_loop s"] by (simp add: r)
  then show ?thesis using old_step.add [of r "rt_loop s" k] by (simp add: r)
next
  case (work i k)
  then obtain l where l: "ev_work_x i k (rt_loop s) = Some l" by (auto simp: rt_work_def split: option.splits)
  then have "rt_loop s' = l" using work(2) by (auto simp: rt_work_def split: opc.splits option.splits if_splits)
  then show ?thesis using old_step.work [OF work(1) l] by simp
next
  case (spurious i)
  then show ?thesis using old_step.spurious by auto
next
  case (main b)
  then obtain l where l: "ev_loop_run_x b (rt_loop s) = Some l" by (auto simp: rt_main_def split: option.splits)
  then have "rt_loop s' = l \<or> rt_loop s' = rt_loop s" using main
    by (auto simp: rt_main_def put_job_loop split: option.splits list.splits if_splits)
  then show ?thesis using old_step.run [OF l] by auto
next
  case (free l)
  then show ?thesis using old_step.free [OF free(2)] by simp
qed

lemma rt_reachable_loop:
  assumes "(rt_step V os se data)\<^sup>*\<^sup>* (rt_start mem nxt text) s" "system_ok V os se data" "\<And>a. nxt \<le> a \<Longrightarrow> mem a = None"
  shows "old_step\<^sup>*\<^sup>* ev_loop_init_x (rt_loop s)"
  using assms(1)
proof (induction rule: rtranclp_induct)
  case base
  show ?case by (simp add: rt_start_def)
next
  case (step s s')
  from rt_step_loop [OF step.hyps(2) assms(2) rt_reachable_inv [OF step.hyps(1) assms(2,3)]] step.IH show ?case
    by (auto intro: rtranclp.rtrancl_into_rtrancl)
qed

section \<open>The steps are bounded\<close>

text \<open>The steps of the program itself: those of the workers and of the main thread, but no call, no spurious
  wake-up and no signal.\<close>

definition rt_own :: "'v v8 \<Rightarrow> (addr \<Rightarrow> os) \<Rightarrow> (int \<Rightarrow> string) \<Rightarrow> (addr \<Rightarrow> string) \<Rightarrow> 'v runtime \<Rightarrow> 'v runtime \<Rightarrow> bool" where
  "rt_own V os se data s s' \<longleftrightarrow>
     (\<exists>i k. i < length (pcs (rt_loop s)) \<and> rt_work os se data i k s = Next s') \<or> rt_main V False s = Next s'"

lemma rt_own_step: "rt_own V os se data s s' \<Longrightarrow> rt_step V os se data s s'"
  by (auto simp: rt_own_def intro: rt_step.work rt_step.main)

definition main_steps :: "'v runtime \<Rightarrow> nat" where
  "main_steps s =
     (case main_pc (rt_loop s) of
        M_Read \<Rightarrow> 4
      | M_Drain \<Rightarrow> (if rt_todo s = None then 3 else 2)
      | _ \<Rightarrow> 0) + (if ef_edge (efd_of (rt_loop s)) then 5 else 0)"

definition rt_measure :: "'v runtime \<Rightarrow> nat" where
  "rt_measure s = 15 * length (head0 (rt_loop s)) + sum_list (map worker_steps (pcs (rt_loop s))) + length (live1 s) + main_steps s"

lemma work_fields_rt:
  assumes "rt_work os se data i k s = Next s'"
  shows "\<exists>l. ev_work_x i k (rt_loop s) = Some l \<and> rt_loop s' = l \<and> rt_todo s' = rt_todo s \<and>
    (rt_todo s \<noteq> None \<longrightarrow> (\<forall>r. pcs (rt_loop s) ! i \<noteq> O_Put r))"
  using assms by (auto simp: rt_work_def split: option.splits opc.splits if_splits)

lemma rt_own_steps:
  assumes "rt_own V os se data s s'" "rt_inv V os se data mem0 s"
  shows "rt_measure s' < rt_measure s"
  using assms(1) unfolding rt_own_def
proof (elim disjE exE conjE)
  fix i k assume i: "i < length (pcs (rt_loop s))" and w: "rt_work os se data i k s = Next s'"
  from work_fields_rt [OF w] obtain l where l: "ev_work_x i k (rt_loop s) = Some l" and f: "rt_loop s' = l" "rt_todo s' = rt_todo s"
    "rt_todo s \<noteq> None \<Longrightarrow> \<forall>r. pcs (rt_loop s) ! i \<noteq> O_Put r" by auto
  have "loop_steps l < loop_steps (rt_loop s)" by (rule ev_work_steps [OF rt_invD(1) [OF assms(2)] i l])
  with work_head1 [OF l] f work_main_pc [OF l] show ?thesis
    by (cases "rt_todo s") (simp_all add: loop_steps_def rt_measure_def main_steps_def live1_def split: if_splits)
next
  assume m: "rt_main V False s = Next s'"
  then obtain l where l: "ev_loop_run_x False (rt_loop s) = Some l" by (auto simp: rt_main_def split: option.splits)
  show ?thesis
  proof (cases "main_pc (rt_loop s) = M_Drain")
    case False
    then have "s' = s\<lparr>rt_loop := l\<rparr>" using m l by (simp add: rt_main_def)
    moreover have "rt_todo s = None" using rt_invD(6) [OF assms(2)] False by blast
    ultimately show ?thesis using l False
      by (auto simp: ev_loop_run_x_def rt_measure_def main_steps_def live1_def efd_wake_def efd_read_def efd_ready_def split: mpc.splits if_splits)
  next
    case True
    then have "l = (rt_loop s)\<lparr>disposed := disposed (rt_loop s) @ head1 (rt_loop s), head1 := [], main_pc := M_Wait\<rparr>"
      using l by (simp add: ev_loop_run_x_def)
    then show ?thesis using m l True
      by (auto simp: rt_main_def rt_measure_def main_steps_def live1_def dest!: put_job_loop split: option.splits list.splits)
  qed
qed

section \<open>Where no step is left\<close>

lemma rt_reachable_awake:
  assumes "(rt_step V os se data)\<^sup>*\<^sup>* (rt_start mem nxt text) s" "system_ok V os se data" "\<And>a. nxt \<le> a \<Longrightarrow> mem a = None"
  shows "awake (rt_loop s)" "main_pc (rt_loop s) = M_Wait \<Longrightarrow> \<not> efd_ready (efd_of (rt_loop s)) \<Longrightarrow> head1 (rt_loop s) = []"
proof -
  note l = rt_reachable_loop [OF assms]
  show "awake (rt_loop s)" by (rule old_reachable_awake [OF l])
  assume "main_pc (rt_loop s) = M_Wait" "\<not> efd_ready (efd_of (rt_loop s))"
  then show "head1 (rt_loop s) = []" using oq.no_stranded_work [OF refl l] by simp
qed

lemma worker_can:
  assumes inv: "rt_inv V os se data mem0 s" and ok: "system_ok V os se data" and i: "i < length (pcs (rt_loop s))"
    and pc: "pcs (rt_loop s) ! i \<noteq> O_Wait" "\<And>r. pcs (rt_loop s) ! i = O_Put r \<Longrightarrow> rt_todo s = None"
  shows "\<exists>s'. rt_work os se data i k s = Next s'"
proof -
  have "pcs (rt_loop s) ! i \<noteq> O_Exit" using rt_invD(1) [OF inv] nth_mem [OF i] by (auto simp: old_inv_def)
  with pc(1) have "ev_work_x i k (rt_loop s) \<noteq> None"
    by (cases "pcs (rt_loop s) ! i") (auto simp: ev_work_x_def Let_def)
  then obtain l where l: "ev_work_x i k (rt_loop s) = Some l" by blast
  show ?thesis
  proof (cases "pcs (rt_loop s) ! i")
    case (O_Work r)
    then show ?thesis using worked_inv [OF inv ok i l] by blast
  qed (use l pc in \<open>auto simp: rt_work_def\<close>)
qed

lemma rest_all_done:
  assumes inv: "rt_inv V os se data mem0 s" and ok: "system_ok V os se data" and aw: "awake (rt_loop s)"
    and head: "main_pc (rt_loop s) = M_Wait \<Longrightarrow> \<not> efd_ready (efd_of (rt_loop s)) \<Longrightarrow> head1 (rt_loop s) = []"
    and on: "phase_of (main_pc (rt_loop s)) \<noteq> Off" and no: "\<nexists>s'. rt_own V os se data s s'" and def: "rt_main V False s \<noteq> Undefined"
  shows "rt_reqs s = Map.empty"
proof -
  have main: "rt_main V False s = Blocked" using no def by (cases "rt_main V False s") (auto simp: rt_own_def)
  then have "main_pc (rt_loop s) \<noteq> M_Drain"
    by (auto simp: rt_main_def ev_loop_run_x_def split: option.splits list.splits)
  then have todo: "rt_todo s = None" using rt_invD(6) [OF inv] by blast
  have "main_pc (rt_loop s) = M_Wait \<and> \<not> efd_ready (efd_of (rt_loop s))"
    using main on \<open>main_pc (rt_loop s) \<noteq> M_Drain\<close>
    by (cases "main_pc (rt_loop s)") (auto simp: rt_main_def ev_loop_run_x_def split: if_splits)
  then have h1: "head1 (rt_loop s) = []" using head by blast
  have w: "p = O_Wait" if p: "p \<in> set (pcs (rt_loop s))" for p
  proof -
    obtain i where i: "i < length (pcs (rt_loop s))" "pcs (rt_loop s) ! i = p" using p unfolding in_set_conv_nth by blast
    then show ?thesis using worker_can [OF inv ok i(1), of 0] todo no by (auto simp: rt_own_def)
  qed
  then have "head0 (rt_loop s) = []" using aw by (auto simp: awake_def)
  then have "dom (rt_reqs s) = {}" using rt_invD(5) [OF inv] w h1 todo by (auto simp: raw_def in_put_def live1_def)
  then show ?thesis by simp
qed

section \<open>Properties\<close>

lemma worker_defined:
  assumes "rt_inv V os se data mem0 s" "system_ok V os se data" "i < length (pcs (rt_loop s))"
  shows "rt_work os se data i k s \<noteq> Undefined"
proof (cases "ev_work_x i k (rt_loop s)")
  case (Some l)
  show ?thesis
  proof (cases "pcs (rt_loop s) ! i")
    case (O_Work r)
    from worked_inv [OF assms Some this] show ?thesis by auto
  qed (use Some in \<open>auto simp: rt_work_def\<close>)
qed (simp add: rt_work_def)

text \<open>The main thread comes to undefined behaviour at one point only: when it makes a string of what \<open>read\<close> delivered.\<close>

lemma main_defined:
  assumes inv: "rt_inv V os se data mem0 s" and u: "rt_main V b s = Undefined"
  shows "\<exists>r rest c. rt_todo s = Some (r # rest) \<and> rt_calls s r = Some c \<and> answer V (os r) se (data r) c r = None"
proof -
  from u obtain r rest where t: "rt_todo s = Some (r # rest)" and d: "dispose V r s = None"
    by (auto simp: rt_main_def split: option.splits if_splits list.splits)
  have l1: "r \<in> set (live1 s)" by (simp add: live1_def t)
  then have "r \<in> dom (rt_reqs s)" using rt_invD(5) [OF inv] by blast
  then obtain q where q: "rt_reqs s r = Some q" by auto
  have "r \<in> set (head1 (rt_loop s))" using l1 live1_head1 [OF inv] by blast
  then have nr: "r \<notin> raw (rt_loop s)" using raw_head1 [OF rt_invD(1) [OF inv]] by blast
  obtain c where c: "rt_calls s r = Some c" "good V (os r) se (data r) s r c"
    using rt_invD(4) [OF inv reqs_added [OF inv q]] by blast
  have "verdict V (job_of r q s) = None"
    using dispose_settles [OF rt_invD(2) [OF inv] q, of V] d by (cases "verdict V (job_of r q s)") fastforce+
  then show ?thesis using t c nr q by (simp add: good_def)
qed

text \<open>C4. The runtime keeps its promises. In every reachable state, with any number of calls made at any time and the threads
  in any order, the promise of a call is pending while its request is there, and once it is gone the promise is settled
  with the answer of the operating system to the system call that the code makes for that call (\<open>sys_of\<close>: the one asked for, except
  that \<open>open\<close> passes its flags as the mode too). No step of a worker is
  undefined behaviour, and the main thread comes to it only with a \<open>read\<close> that delivered no NUL. When no request is
  there the heap is the one the program started with.\<close>

theorem runtime_settles:
  assumes "system_ok V os se data" "\<And>a. nxt \<le> a \<Longrightarrow> mem a = None"
    and "(rt_step V os se data)\<^sup>*\<^sup>* (rt_start mem nxt text) s"
  shows "(\<forall>r \<in> set (added (rt_loop s)). \<exists>c. rt_calls s r = Some c \<and>
        (if rt_reqs s r = None then answer V (os r) se (data r) c r = Some (rt_promise s r) else rt_promise s r = Pending)) \<and>
    (\<forall>i k. i < length (pcs (rt_loop s)) \<longrightarrow> rt_work os se data i k s \<noteq> Undefined) \<and>
    (\<forall>b. rt_main V b s = Undefined \<longrightarrow>
        (\<exists>r rest c. rt_todo s = Some (r # rest) \<and> rt_calls s r = Some c \<and> answer V (os r) se (data r) c r = None)) \<and>
    (rt_reqs s = Map.empty \<longrightarrow> rt_mem s = mem)"
proof -
  note inv = rt_reachable_inv [OF assms(3,1,2)]
  have "\<exists>c. rt_calls s r = Some c \<and>
      (if rt_reqs s r = None then answer V (os r) se (data r) c r = Some (rt_promise s r) else rt_promise s r = Pending)"
    if "r \<in> set (added (rt_loop s))" for r
    using rt_invD(4) [OF inv that] by (auto simp: good_def split: option.splits)
  moreover have "rt_reqs s = Map.empty \<Longrightarrow> rt_mem s = mem" using heap_invD(4) [OF rt_invD(2) [OF inv]] by auto
  ultimately show ?thesis using worker_defined [OF inv assms(1)] main_defined [OF inv] by blast
qed

lemma rt_own_phase: "rt_own V os se data s s' \<Longrightarrow> phase_of (main_pc (rt_loop s)) \<noteq> Off \<Longrightarrow> phase_of (main_pc (rt_loop s')) \<noteq> Off"
  unfolding rt_own_def
proof (elim disjE exE conjE)
  fix i k assume "phase_of (main_pc (rt_loop s)) \<noteq> Off" "rt_work os se data i k s = Next s'"
  then show ?thesis using work_fields_rt work_main_pc by metis
next
  assume "phase_of (main_pc (rt_loop s)) \<noteq> Off" "rt_main V False s = Next s'"
  then show ?thesis
    by (auto simp: rt_main_def ev_loop_run_x_def dest!: put_job_loop split: option.splits mpc.splits if_splits list.splits)
qed

lemma own_reachable:
  assumes "(rt_own V os se data ^^ n) s t" "(rt_step V os se data)\<^sup>*\<^sup>* s0 s" "phase_of (main_pc (rt_loop s)) \<noteq> Off"
  shows "(rt_step V os se data)\<^sup>*\<^sup>* s0 t \<and> phase_of (main_pc (rt_loop t)) \<noteq> Off"
  using assms(1)
proof (induction n arbitrary: t)
  case 0
  then show ?case using assms(2,3) by simp
next
  case (Suc n)
  then obtain u where "(rt_own V os se data ^^ n) s u" "rt_own V os se data u t" by auto
  with Suc.IH [of u] show ?case using rt_own_step rt_own_phase by (metis rtranclp.rtrancl_into_rtrancl)
qed

lemma own_bounded:
  assumes "(rt_own V os se data ^^ n) s t" "rt_inv V os se data mem0 s" "system_ok V os se data"
  shows "n + rt_measure t \<le> rt_measure s \<and> rt_inv V os se data mem0 t"
  using assms(1)
proof (induction n arbitrary: t)
  case (Suc n)
  then obtain u where u: "(rt_own V os se data ^^ n) s u" "rt_own V os se data u t" by auto
  from Suc.IH [OF u(1)] rt_own_steps [OF u(2)] rt_step_inv [OF rt_own_step [OF u(2)] assms(3)] show ?case by fastforce
qed (use assms(2) in simp)

lemma answer_None: "answer V os se data c r = None \<Longrightarrow> (\<exists>a. c = Call_read a) \<and> no_nul data"
  by (cases c) (auto simp: answer_def Let_def split: prod.splits if_splits)

text \<open>C5. Every promise is settled, unless a \<open>read\<close> delivers no NUL. From any reachable state in which no signal has
  interrupted \<open>epoll_wait\<close> (its loop would end then) the program makes at most \<open>rt_measure\<close> steps of its own, in any
  order, none being a signal. Where it stops, either all the calls made so far are answered and everything
  allocated for them is freed, or the main thread is at undefined behaviour: it is about to make a string of what a
  \<open>read\<close> delivered, and there is no NUL in it (\<open>fs_read_settles\<close> of theory \<open>Fs\<close>). The system
  answers as \<open>system_ok\<close> says.\<close>

theorem runtime_delivers:
  assumes "system_ok V os se data" "\<And>a. nxt \<le> a \<Longrightarrow> mem a = None"
    and "(rt_step V os se data)\<^sup>*\<^sup>* (rt_start mem nxt text) s" "phase_of (main_pc (rt_loop s)) \<noteq> Off"
    and "(rt_own V os se data ^^ n) s t"
  shows "n \<le> rt_measure s \<and>
    ((\<nexists>t'. rt_own V os se data t t') \<longrightarrow>
      (\<exists>r rest a. rt_todo t = Some (r # rest) \<and> rt_calls t r = Some (Call_read a) \<and> no_nul (data r) \<and> rt_main V False t = Undefined) \<or>
      rt_mem t = mem \<and>
      (\<forall>r \<in> set (added (rt_loop t)). \<exists>c. rt_calls t r = Some c \<and> answer V (os r) se (data r) c r = Some (rt_promise t r)))"
proof -
  have t: "(rt_step V os se data)\<^sup>*\<^sup>* (rt_start mem nxt text) t" "phase_of (main_pc (rt_loop t)) \<noteq> Off"
    using own_reachable [OF assms(5,3,4)] by auto
  note inv = rt_reachable_inv [OF t(1) assms(1,2)]
  have "n \<le> rt_measure s" using own_bounded [OF assms(5) rt_reachable_inv [OF assms(3,1,2)] assms(1)] by simp
  moreover have "\<exists>r rest a. rt_todo t = Some (r # rest) \<and> rt_calls t r = Some (Call_read a) \<and> no_nul (data r)"
    if u: "rt_main V False t = Undefined"
  proof -
    obtain r rest c where "rt_todo t = Some (r # rest)" "rt_calls t r = Some c" "answer V (os r) se (data r) c r = None"
      using main_defined [OF inv u] by auto
    with answer_None show ?thesis by blast
  qed
  moreover have "rt_mem t = mem \<and> (\<forall>r \<in> set (added (rt_loop t)). \<exists>c. rt_calls t r = Some c \<and> answer V (os r) se (data r) c r = Some (rt_promise t r))"
    if no: "\<nexists>t'. rt_own V os se data t t'" "rt_main V False t \<noteq> Undefined"
  proof -
    from rest_all_done [OF inv assms(1) rt_reachable_awake [OF t(1) assms(1,2)] t(2) no]
    have e: "rt_reqs t = Map.empty" .
    then have "rt_mem t = mem" using heap_invD(4) [OF rt_invD(2) [OF inv]] by auto
    then show ?thesis using rt_invD(4) [OF inv] e by (auto simp: good_def)
  qed
  ultimately show ?thesis by blast
qed

text \<open>A program that reads once: the file holds a NUL.\<close>

definition one_os :: "addr \<Rightarrow> os" where
  "one_os r call = (case call of C_read _ _ _ \<Rightarrow> (3, 0) | _ \<Rightarrow> (0, 0))"

abbreviation one_read :: "int fs_call" where
  "one_read \<equiv> Call_read \<lparr>c_len = 1, c_arg = \<lambda>_. 5\<rparr>"

lemma one_ok: "system_ok plain_v8 one_os (\<lambda>_. ''e'') (\<lambda>_. [CHR ''h'', CHR ''i'', NUL])"
  by (auto simp: system_ok_def one_os_def sys_of_def int_max_def no_nul_def Let_def split: fs_call.split)

definition one_start :: "int runtime" where
  "one_start = rt_call plain_v8 one_read [0, 0, 0] 0 0 (rt_start Map.empty 1 (\<lambda>_. []))"

lemma one_start_step:
  "(rt_step plain_v8 one_os (\<lambda>_. ''e'') (\<lambda>_. [CHR ''h'', CHR ''i'', NUL]))\<^sup>*\<^sup>* (rt_start Map.empty 1 (\<lambda>_. [])) one_start"
  unfolding one_start_def by (intro r_into_rtranclp rt_step.call) simp

lemma one_start_state:
  "added (rt_loop one_start) = [1]" "main_pc (rt_loop one_start) = M_Wait" "rt_calls one_start 1 = Some one_read"
  "rt_measure one_start = 39" "rt_reqs one_start 1 \<noteq> None"
  by (simp_all add: one_start_def rt_call_def fs_job_def fs_read_def rt_start_def make_job_def Let_def EV_REQ_ADD_def
      ev_loop_init_x_def rt_measure_def main_steps_def live1_def efd_new_def sum_list_replicate)

lemma runtime_settles_witness: "rt_promise one_start 1 = Pending"
  using runtime_settles [OF one_ok _ one_start_step] one_start_state by auto

lemma rt_own_same: "rt_own V os se data s s' \<Longrightarrow> added (rt_loop s') = added (rt_loop s) \<and> rt_calls s' = rt_calls s"
  unfolding rt_own_def
proof (elim disjE exE conjE)
  fix i k assume w: "rt_work os se data i k s = Next s'"
  then have "rt_calls s' = rt_calls s" by (auto simp: rt_work_def split: option.splits opc.splits if_splits)
  moreover have "ev_work_x i k (rt_loop s) = Some l \<Longrightarrow> added l = added (rt_loop s)" for l
    by (auto simp: ev_work_x_def Let_def split: opc.splits if_splits)
  ultimately show ?thesis using work_fields_rt [OF w] by auto
next
  assume "rt_main V False s = Next s'"
  then show ?thesis
    by (auto simp: rt_main_def ev_loop_run_x_def dispose_def Let_def split: option.splits mpc.splits if_splits list.splits Option.bind_splits)
qed

lemma own_same: "(rt_own V os se data ^^ n) s t \<Longrightarrow> added (rt_loop t) = added (rt_loop s) \<and> rt_calls t = rt_calls s"
proof (induction n arbitrary: t)
  case (Suc n)
  then obtain u where "(rt_own V os se data ^^ n) s u" "rt_own V os se data u t" by auto
  with Suc.IH [of u] rt_own_same show ?case by metis
qed simp

lemma own_stops:
  assumes "rt_inv V os se data mem0 s" "system_ok V os se data"
  shows "\<exists>n t. (rt_own V os se data ^^ n) s t \<and> (\<nexists>t'. rt_own V os se data t t')"
  using assms(1)
proof (induction "rt_measure s" arbitrary: s rule: less_induct)
  case less
  show ?case
  proof (cases "\<exists>u. rt_own V os se data s u")
    case True
    then obtain u where u: "rt_own V os se data s u" by blast
    from less.hyps [OF rt_own_steps [OF u less.prems] rt_step_inv [OF rt_own_step [OF u] assms(2) less.prems]]
    obtain n t where "(rt_own V os se data ^^ n) u t" "\<nexists>t'. rt_own V os se data t t'" by blast
    with u have "(rt_own V os se data ^^ Suc n) s t" by (simp only: relpowp_Suc_I2)
    then show ?thesis using \<open>\<nexists>t'. rt_own V os se data t t'\<close> by blast
  next
    case False
    then show ?thesis by (intro exI [of _ 0] exI [of _ s]) simp
  qed
qed

lemma runtime_delivers_witness:
  "\<exists>n t. n \<le> 39 \<and> (rt_own plain_v8 one_os (\<lambda>_. ''e'') (\<lambda>_. [CHR ''h'', CHR ''i'', NUL]) ^^ n) one_start t \<and>
    rt_promise t 1 = Fulfilled 2 \<and> rt_mem t = Map.empty"
proof -
  let ?own = "rt_own plain_v8 one_os (\<lambda>_. ''e'') (\<lambda>_. [CHR ''h'', CHR ''i'', NUL])"
  obtain n t where t: "(?own ^^ n) one_start t" "\<nexists>t'. ?own t t'"
    using own_stops [OF rt_reachable_inv [OF one_start_step one_ok] one_ok] by auto
  have "phase_of (main_pc (rt_loop one_start)) \<noteq> Off" by (simp add: one_start_state)
  have "\<not> no_nul [CHR ''h'', CHR ''i'', NUL]" by (simp add: no_nul_def)
  with runtime_delivers [OF one_ok _ one_start_step \<open>phase_of (main_pc (rt_loop one_start)) \<noteq> Off\<close> t(1)] t own_same [OF t(1)] one_start_state
  have "n \<le> 39" "rt_mem t = Map.empty" "answer plain_v8 (one_os 1) (\<lambda>_. ''e'') [CHR ''h'', CHR ''i'', NUL] one_read 1 = Some (rt_promise t 1)"
    by auto
  with t(1) show ?thesis by (auto simp: answer_def one_os_def sys_of_def no_nul_def plain_v8_def)
qed

end
