(* ===== verification/Main22.thy ===== *)
theory Main22
  imports Notify
begin

text \<open>
  The program \<open>xxx/main22.c\<close>: \<open>main\<close> queues nine requests, starts four threads that take them until the
  queue is empty, and handles the finished ones until \<open>epoll_wait\<close> has reported nothing for three seconds;
  then it frees everything and returns. A critical section is one step, as in \<open>OldLoop\<close>. The results of the
  requests and what is printed of them are left out; a thread prints its result with \<open>%s\<close>, also a null one, which the
  C standard leaves undefined and glibc prints as \<open>(null)\<close>.
\<close>

section \<open>State\<close>

text \<open>A thread: before the first lock, in \<open>req->func\<close>, before the second lock, returned. The main thread: in
  \<open>epoll_wait\<close>, before \<open>read\<close>, in \<open>process_work\<close>, past \<open>ev_loop_destroy\<close>, returned (which ends the process).\<close>

datatype tpc = T_Lock0 | T_Func nat | T_Lock1 nat | T_Exit

datatype main_pc22 = P_Wait | P_Read | P_Process | P_Destroyed | P_Return

record pool22 =
  p_head0 :: "nat list"
  p_head1 :: "nat list"
  p_efd :: efd
  p_freed :: bool
  p_pcs :: "tpc list"
  p_main :: main_pc22
  p_done :: "nat list"

text \<open>\<open>p_done\<close> is history: the requests that were destroyed.\<close>

section \<open>Operations\<close>

definition ev_loop_init22 :: pool22 where
  "ev_loop_init22 =
     \<lparr>p_head0 = [], p_head1 = [], p_efd = efd_new, p_freed = False, p_pcs = [], p_main = P_Wait, p_done = []\<rparr>"

text \<open>\<open>main\<close> up to its loop: the requests, then the threads.\<close>

definition main22 :: pool22 where
  "main22 = ev_loop_init22\<lparr>p_head0 := [0..<9], p_pcs := replicate 4 T_Lock0\<rparr>"

text \<open>A step of thread \<open>i\<close>; \<open>loop\<close>, its mutexes and lists must not be freed when it uses them.\<close>

definition etp_work :: "nat \<Rightarrow> pool22 \<Rightarrow> pool22 outcome" where
  "etp_work i s =
     (case p_pcs s ! i of
        T_Lock0 \<Rightarrow>
          (if p_freed s then Undefined
           else case p_head0 s of
               [] \<Rightarrow> Next (s\<lparr>p_pcs := (p_pcs s)[i := T_Exit]\<rparr>)
             | entry # rest \<Rightarrow> Next (s\<lparr>p_head0 := rest, p_pcs := (p_pcs s)[i := T_Func entry]\<rparr>))
      | T_Func entry \<Rightarrow> Next (s\<lparr>p_pcs := (p_pcs s)[i := T_Lock1 entry]\<rparr>)
      | T_Lock1 entry \<Rightarrow>
          (if p_freed s then Undefined
           else Next (s\<lparr>p_head1 := p_head1 s @ [entry], p_efd := efd_post 1 (p_efd s),
                        p_pcs := (p_pcs s)[i := T_Lock0]\<rparr>))
      | T_Exit \<Rightarrow> Blocked)"

text \<open>\<open>process_work\<close> under the second mutex: every finished request is destroyed and freed.\<close>

definition process_work :: "pool22 \<Rightarrow> pool22" where
  "process_work s = s\<lparr>p_done := p_done s @ p_head1 s, p_head1 := []\<rparr>"

definition ev_loop_destroy22 :: "pool22 \<Rightarrow> pool22" where
  "ev_loop_destroy22 s = s\<lparr>p_freed := True\<rparr>"

text \<open>The loop of \<open>main\<close>; \<open>expired\<close>: the three seconds are over without an event.\<close>

definition main_loop :: "bool \<Rightarrow> pool22 \<Rightarrow> pool22 option" where
  "main_loop expired s =
     (case p_main s of
        P_Wait \<Rightarrow>
          (if efd_ready (p_efd s) then Some (s\<lparr>p_efd := efd_wake (p_efd s), p_main := P_Read\<rparr>)
           else if expired then Some ((ev_loop_destroy22 s)\<lparr>p_main := P_Destroyed\<rparr>)
           else None)
      | P_Read \<Rightarrow> Some (s\<lparr>p_efd := efd_read (p_efd s), p_main := P_Process\<rparr>)
      | P_Process \<Rightarrow> Some ((process_work s)\<lparr>p_main := P_Wait\<rparr>)
      | P_Destroyed \<Rightarrow> Some (s\<lparr>p_main := P_Return\<rparr>)
      | P_Return \<Rightarrow> None)"

text \<open>\<open>ev_fs_read\<close>: \<open>fd\<close> is what \<open>open\<close> returned, \<open>n\<close> the size of the file, \<open>data\<close> what one \<open>read\<close> put into
  the buffer. The result is the buffer, or a null pointer.\<close>

definition ev_fs_read :: "int \<Rightarrow> nat \<Rightarrow> string \<Rightarrow> buf option option" where
  "ev_fs_read fd n data =
     (if fd < 0 then Some None
      else do {
        b0 \<leftarrow> malloc (n + 1);
        b1 \<leftarrow> wr b0 n (Some NUL);
        b2 \<leftarrow> memcpy b1 0 (map Some data) 0 (length data);
        Some (Some b2)
      })"

section \<open>Interleavings\<close>

text \<open>\<open>quiet_step\<close>: a step of a thread, or of the main thread before a timeout. \<open>pool_step\<close> has the timeout too.
  The threads end with the process.\<close>

inductive quiet_step :: "pool22 \<Rightarrow> pool22 \<Rightarrow> bool" where
  work: "p_main s \<noteq> P_Return \<Longrightarrow> i < length (p_pcs s) \<Longrightarrow> etp_work i s = Next s' \<Longrightarrow> quiet_step s s'"
| main: "main_loop False s = Some s' \<Longrightarrow> quiet_step s s'"

inductive pool_step :: "pool22 \<Rightarrow> pool22 \<Rightarrow> bool" where
  quiet: "quiet_step s s' \<Longrightarrow> pool_step s s'"
| timeout: "main_loop True s = Some s' \<Longrightarrow> pool_step s s'"

inductive_cases quiet_stepE: "quiet_step s s'"

definition phase22 :: "main_pc22 \<Rightarrow> phase" where
  "phase22 m = (case m of P_Wait \<Rightarrow> Idle | P_Read \<Rightarrow> Woken | P_Process \<Rightarrow> Cleared | _ \<Rightarrow> Off)"

lemma phase22_simps [simp]:
  "phase22 P_Wait = Idle" "phase22 P_Read = Woken" "phase22 P_Process = Cleared"
  "phase22 P_Destroyed = Off" "phase22 P_Return = Off"
  by (simp_all add: phase22_def)

lemma etp_work_law:
  assumes "etp_work i s = Next s'"
  shows "edge_law (p_head1 s, p_efd s, phase22 (p_main s)) (p_head1 s', p_efd s', phase22 (p_main s'))"
proof (cases "p_pcs s ! i")
  case (T_Lock1 e)
  with assms edge_law.put [of 1] show ?thesis by (auto simp: etp_work_def split: if_splits)
qed (use assms in \<open>auto simp: etp_work_def intro: edge_law.other split: if_splits list.splits\<close>)

lemma main_loop_law:
  assumes "main_loop b s = Some s'"
  shows "edge_law (p_head1 s, p_efd s, phase22 (p_main s)) (p_head1 s', p_efd s', phase22 (p_main s'))"
  using assms
  by (auto simp: main_loop_def process_work_def ev_loop_destroy22_def intro: edge_law.intros
      split: main_pc22.splits if_splits)

lemma pool_step_law:
  "pool_step s s' \<Longrightarrow>
     edge_law (p_head1 s, p_efd s, phase22 (p_main s)) (p_head1 s', p_efd s', phase22 (p_main s'))"
  by (auto elim!: pool_step.cases quiet_step.cases intro: etp_work_law main_loop_law)

interpretation mq: edge_queue pool_step "\<lambda>s. s = main22" p_head1 p_efd "\<lambda>s. phase22 (p_main s)"
  by unfold_locales (simp add: main22_def ev_loop_init22_def, rule pool_step_law)

section \<open>Invariant and measure\<close>

fun hold22 :: "tpc \<Rightarrow> nat list" where
  "hold22 (T_Func e) = [e]"
| "hold22 (T_Lock1 e) = [e]"
| "hold22 _ = []"

definition inv22 :: "pool22 \<Rightarrow> bool" where
  "inv22 s \<longleftrightarrow>
     mset (p_head0 s) + in_hands hold22 (p_pcs s) + mset (p_head1 s) + mset (p_done s) = mset [0..<9] \<and>
     (p_freed s \<longleftrightarrow> p_main s = P_Destroyed \<or> p_main s = P_Return) \<and> length (p_pcs s) = 4 \<and>
     (T_Exit \<in> set (p_pcs s) \<longrightarrow> p_head0 s = [])"

lemma exit_update22: "T_Exit \<in> set (ps[i := p]) \<Longrightarrow> p \<noteq> T_Exit \<Longrightarrow> T_Exit \<in> set ps"
  using set_update_subset_insert [of ps i p] by auto

lemma etp_work_inv:
  assumes "inv22 s" "i < length (p_pcs s)" "etp_work i s = Next s'"
  shows "inv22 s'"
proof (cases "p_pcs s ! i")
  case T_Lock0
  with assms in_hands_update [of i "p_pcs s" hold22 "T_Func (hd (p_head0 s))"] in_hands_same [of i "p_pcs s" hold22 T_Exit]
  show ?thesis by (auto simp: etp_work_def inv22_def dest!: exit_update22 split: if_splits list.splits)
next
  case (T_Func e)
  with assms in_hands_same [of i "p_pcs s" hold22 "T_Lock1 e"] show ?thesis
    by (auto simp: etp_work_def inv22_def dest!: exit_update22)
next
  case (T_Lock1 e)
  with assms in_hands_update [of i "p_pcs s" hold22 T_Lock0, symmetric] show ?thesis
    by (auto simp: etp_work_def inv22_def dest!: exit_update22 split: if_splits)
qed (use assms in \<open>auto simp: etp_work_def\<close>)

lemma main_loop_inv: "inv22 s \<Longrightarrow> main_loop b s = Some s' \<Longrightarrow> inv22 s'"
  by (auto simp: main_loop_def inv22_def process_work_def ev_loop_destroy22_def union_ac split: main_pc22.splits if_splits)

lemma main22_inv: "inv22 main22"
  by (simp add: inv22_def main22_def ev_loop_init22_def in_hands_def eval_nat_numeral)

lemma quiet_inv: "quiet_step s s' \<Longrightarrow> inv22 s \<Longrightarrow> inv22 s'"
  by (auto elim!: quiet_step.cases intro: etp_work_inv main_loop_inv)

lemma pool_inv: "pool_step\<^sup>*\<^sup>* main22 s \<Longrightarrow> inv22 s"
  by (induction rule: rtranclp_induct) (auto simp: main22_inv elim!: pool_step.cases intro: quiet_inv main_loop_inv)

text \<open>A bound for the steps: each request passes three steps of a thread and may cause a turn of the main loop of
  three steps.\<close>

fun rank22 :: "tpc \<Rightarrow> nat" where
  "rank22 T_Lock0 = 1"
| "rank22 (T_Func e) = 7"
| "rank22 (T_Lock1 e) = 6"
| "rank22 T_Exit = 0"

fun main_rank :: "main_pc22 \<Rightarrow> nat" where
  "main_rank P_Wait = 1"
| "main_rank P_Read = 3"
| "main_rank P_Process = 2"
| "main_rank P_Destroyed = 1"
| "main_rank P_Return = 0"

definition measure22 :: "pool22 \<Rightarrow> nat" where
  "measure22 s = 7 * length (p_head0 s) + sum_list (map rank22 (p_pcs s)) + main_rank (p_main s) +
     (if ef_edge (p_efd s) then 4 else 0)"

lemma quiet_measure:
  assumes "quiet_step s s'"
  shows "measure22 s' < measure22 s"
  using assms
proof (cases rule: quiet_step.cases)
  case (work i)
  note u = sum_map_update [OF work(2), of rank22]
  show ?thesis
  proof (cases "p_pcs s ! i")
    case T_Lock0
    with work u [of T_Exit] u [of "T_Func (hd (p_head0 s))"] show ?thesis
      by (auto simp: etp_work_def measure22_def split: if_splits list.splits)
  next
    case (T_Func e)
    with work u [of "T_Lock1 e"] show ?thesis by (auto simp: etp_work_def measure22_def)
  next
    case (T_Lock1 e)
    with work u [of T_Lock0] show ?thesis
      by (auto simp: etp_work_def measure22_def efd_post_def split: if_splits)
  qed (use work in \<open>auto simp: etp_work_def\<close>)
next
  case main
  then show ?thesis
    by (auto simp: main_loop_def measure22_def process_work_def efd_ready_def efd_wake_def efd_read_def
        split: main_pc22.splits if_splits)
qed

section \<open>Properties\<close>

lemma quiet_keeps:
  "quiet_step\<^sup>*\<^sup>* main22 s \<Longrightarrow> pool_step\<^sup>*\<^sup>* main22 s \<and> inv22 s \<and> p_main s \<noteq> P_Destroyed \<and> p_main s \<noteq> P_Return"
proof (induction rule: rtranclp_induct)
  case base
  show ?case using main22_inv by (simp add: main22_def ev_loop_init22_def)
next
  case (step s s')
  then have "p_main s' \<noteq> P_Destroyed \<and> p_main s' \<noteq> P_Return"
    by (auto elim!: quiet_step.cases
      simp: etp_work_def main_loop_def process_work_def split: tpc.splits main_pc22.splits if_splits list.splits)
  with step quiet_inv pool_step.quiet show ?case by (meson rtranclp.rtrancl_into_rtrancl)
qed

lemma all_exit:
  assumes "\<And>s'. \<not> quiet_step s s'" "inv22 s" "p_main s \<noteq> P_Destroyed" "p_main s \<noteq> P_Return" "i < length (p_pcs s)"
  shows "p_pcs s ! i = T_Exit"
proof (rule ccontr)
  assume "p_pcs s ! i \<noteq> T_Exit"
  moreover have "\<not> p_freed s" using assms(2-4) by (simp add: inv22_def)
  ultimately obtain s' where "etp_work i s = Next s'"
    by (cases "p_pcs s ! i"; cases "p_head0 s") (auto simp: etp_work_def)
  with assms(1,4,5) quiet_step.work show False by blast
qed

text \<open>C33. As long as \<open>epoll_wait\<close> does not time out, the program reaches, after at most 100 steps of its threads in
  any order, a state where all threads have returned, nothing is queued, and each of the nine requests was
  destroyed exactly once.\<close>

theorem main22_delivers:
  assumes "(quiet_step ^^ n) main22 s"
  shows "n \<le> 100 \<and> ((\<nexists>s'. quiet_step s s') \<longrightarrow>
    p_head0 s = [] \<and> p_head1 s = [] \<and> mset (p_done s) = mset [0..<9] \<and> (\<forall>p \<in> set (p_pcs s). p = T_Exit))"
proof -
  have "n + measure22 s \<le> measure22 main22" using quiet_measure assms by (rule relpow_measure)
  then have n: "n \<le> 100"
    by (simp add: measure22_def main22_def ev_loop_init22_def efd_new_def eval_nat_numeral)
  moreover have "p_head0 s = [] \<and> p_head1 s = [] \<and> mset (p_done s) = mset [0..<9] \<and> (\<forall>p \<in> set (p_pcs s). p = T_Exit)"
    if stuck: "\<nexists>s'. quiet_step s s'"
  proof -
    have "quiet_step\<^sup>*\<^sup>* main22 s" using assms by (simp add: relpowp_imp_rtranclp)
    note k = quiet_keeps [OF this]
    then have ex: "\<forall>p \<in> set (p_pcs s). p = T_Exit" using all_exit stuck by (metis in_set_conv_nth)
    have "length (p_pcs s) = 4" using k by (simp add: inv22_def)
    have hands: "in_hands hold22 (p_pcs s) = {#}" using ex by (auto simp: in_hands_def)
    have m: "p_main s = P_Wait \<and> \<not> efd_ready (p_efd s)"
      using stuck k quiet_step.main [of s] by (cases "p_main s") (auto simp: main_loop_def split: if_splits)
    then have h1: "p_head1 s = []" using mq.no_stranded_work [OF refl, of s] k by simp
    from ex \<open>length (p_pcs s) = 4\<close> have "T_Exit \<in> set (p_pcs s)" by (cases "p_pcs s") auto
    with k have "p_head0 s = []" by (simp add: inv22_def)
    with k hands h1 ex show ?thesis by (simp add: inv22_def)
  qed
  ultimately show ?thesis by blast
qed

lemma main22_delivers_witness: "\<exists>s. (quiet_step ^^ 1) main22 s \<and> p_head0 s = [1, 2, 3, 4, 5, 6, 7, 8]"
proof -
  let ?s = "main22\<lparr>p_head0 := [1, 2, 3, 4, 5, 6, 7, 8], p_pcs := [T_Func 0, T_Lock0, T_Lock0, T_Lock0]\<rparr>"
  have "(quiet_step ^^ 1) main22 ?s"
    unfolding relpowp_1 by (rule quiet_step.work [of _ 0])
      (simp_all add: main22_def ev_loop_init22_def etp_work_def eval_nat_numeral)
  with main22_delivers [OF this] show ?thesis by (intro exI [of _ ?s]) simp
qed

text \<open>The timeout does not wait for the threads: three seconds without an event while a thread is inside
  \<open>req->func\<close> make \<open>main\<close> free the loop, and that thread then locks a freed mutex, unless \<open>main\<close> has
  returned before.\<close>

lemma main22_use_after_free: "\<exists>s i. pool_step\<^sup>*\<^sup>* main22 s \<and> i < length (p_pcs s) \<and> etp_work i s = Undefined"
proof -
  let ?s1 = "main22\<lparr>p_head0 := [1, 2, 3, 4, 5, 6, 7, 8], p_pcs := [T_Func 0, T_Lock0, T_Lock0, T_Lock0]\<rparr>"
  let ?s2 = "?s1\<lparr>p_freed := True, p_main := P_Destroyed\<rparr>"
  have "quiet_step main22 ?s1"
    by (rule quiet_step.work [of _ 0]) (simp_all add: main22_def ev_loop_init22_def etp_work_def eval_nat_numeral)
  moreover have "pool_step ?s1 ?s2"
    by (rule pool_step.timeout)
      (simp add: main22_def ev_loop_init22_def main_loop_def ev_loop_destroy22_def efd_ready_def efd_new_def)
  ultimately have "pool_step\<^sup>*\<^sup>* main22 ?s2" by (meson converse_rtranclp_into_rtranclp pool_step.quiet r_into_rtranclp)
  moreover have "etp_work 1 ?s2 = Undefined" by (simp add: etp_work_def)
  ultimately show ?thesis by (intro exI [of _ ?s2] exI [of _ 1]) simp
qed

text \<open>\<open>ev_fs_read\<close> of a file that \<open>read\<close> returns whole is the file's contents.\<close>

lemma ev_fs_read_contents:
  assumes "0 \<le> fd" "length data + 1 < obj_limit" "no_nul data"
  shows "\<exists>b. ev_fs_read fd (length data) data = Some (Some b) \<and> c_str b = Some data"
proof -
  have "(replicate (length data + 1) None)[length data := Some NUL] = replicate (length data) None @ [Some NUL]"
    by (simp only: replicate_add) (simp add: list_update_append)
  with assms show ?thesis by (simp add: ev_fs_read_def memcpy_def del: replicate_Suc list_update.simps)
qed

end
