(* ===== verification/EpollTasks.thy ===== *)
theory EpollTasks
  imports Notify UtilNet
begin

text \<open>
  The program \<open>epoll.cc\<close>: four threads add three tasks each to a shared list and write to the event counter
  after each; the main thread runs the tasks when \<open>epoll_wait\<close> reports the counter, until it has reported
  nothing for three milliseconds. Unlike the loops of \<open>OldLoop\<close> and \<open>Main22\<close>, \<open>process_task\<close> empties the list
  first and reads the counter afterwards.
\<close>

section \<open>State\<close>

text \<open>A thread: at the test of its loop with \<open>count\<close> tasks to go, before \<open>write\<close>, returned. The main thread: in
  \<open>epoll_wait\<close>, before the lock of \<open>process_task\<close>, before its \<open>read\<close>, past the freeing, returned.\<close>

datatype epc = X_Loop nat | X_Write nat | X_Exit

datatype emain = E_Wait | E_Process | E_Read | E_Freed | E_Return

record task_info =
  thread_id :: nat
  task_arg :: string

record ep =
  ep_head :: "task_info list"
  ep_efd :: efd
  ep_freed :: bool
  ep_pcs :: "epc list"
  ep_main :: emain
  ep_created :: "task_info list"
  ep_done :: "task_info list"

text \<open>The last two are history: the tasks created and the tasks run and freed.\<close>

section \<open>Operations\<close>

definition epoll_main :: ep where
  "epoll_main =
     \<lparr>ep_head = [], ep_efd = efd_new, ep_freed = False, ep_pcs = replicate 4 (X_Loop 3), ep_main = E_Wait,
      ep_created = [], ep_done = []\<rparr>"

text \<open>\<open>thread_func\<close>: the thread number stands for the thread's id. The critical section adds a task.\<close>

definition thread_func :: "nat \<Rightarrow> ep \<Rightarrow> ep outcome" where
  "thread_func i s =
     (case ep_pcs s ! i of
        X_Loop n \<Rightarrow>
          (if n = 0 then Next (s\<lparr>ep_pcs := (ep_pcs s)[i := X_Exit]\<rparr>)
           else if ep_freed s then Undefined
           else (let task = \<lparr>thread_id = i, task_arg = ''./js/file.txt''\<rparr> in
             Next (s\<lparr>ep_head := ep_head s @ [task], ep_created := ep_created s @ [task],
                     ep_pcs := (ep_pcs s)[i := X_Write n]\<rparr>)))
      | X_Write n \<Rightarrow>
          Next (s\<lparr>ep_efd := (if ep_freed s then ep_efd s else efd_post 123 (ep_efd s)),
                  ep_pcs := (ep_pcs s)[i := X_Loop (n - 1)]\<rparr>)
      | X_Exit \<Rightarrow> Blocked)"

text \<open>\<open>process_task\<close>: under the mutex, every task is unlinked, run and freed; then \<open>read\<close>.\<close>

definition process_task :: "ep \<Rightarrow> ep" where
  "process_task s = s\<lparr>ep_done := ep_done s @ ep_head s, ep_head := []\<rparr>"

definition epoll_loop :: "bool \<Rightarrow> ep \<Rightarrow> ep option" where
  "epoll_loop expired s =
     (case ep_main s of
        E_Wait \<Rightarrow>
          (if efd_ready (ep_efd s) then Some (s\<lparr>ep_efd := efd_wake (ep_efd s), ep_main := E_Process\<rparr>)
           else if expired then Some (s\<lparr>ep_freed := True, ep_main := E_Freed\<rparr>)
           else None)
      | E_Process \<Rightarrow> Some ((process_task s)\<lparr>ep_main := E_Read\<rparr>)
      | E_Read \<Rightarrow> Some (s\<lparr>ep_efd := efd_read (ep_efd s), ep_main := E_Wait\<rparr>)
      | E_Freed \<Rightarrow> Some (s\<lparr>ep_main := E_Return\<rparr>)
      | E_Return \<Rightarrow> None)"

text \<open>\<open>read_file\<close> here is the text of the one in \<open>util.c\<close> without the message; a task's callback is a call
  of it.\<close>

definition read_file_ep :: "nat \<Rightarrow> cfile option \<Rightarrow> buf call option" where
  "read_file_ep fuel fp = read_file fuel fp"

definition task_callback :: "nat \<Rightarrow> (string \<Rightarrow> cfile option) \<Rightarrow> task_info \<Rightarrow> buf call option" where
  "task_callback fuel files task = read_file_ep fuel (files (task_arg task))"

text \<open>The moves of a schedule: thread \<open>i\<close>, or the main thread (with the timeout, where it can expire).\<close>

datatype move = Thread nat | Main | Expire

definition ep_move :: "move \<Rightarrow> ep \<Rightarrow> ep outcome" where
  "ep_move m s =
     (case m of
        Thread i \<Rightarrow> (if ep_main s \<noteq> E_Return \<and> i < length (ep_pcs s) then thread_func i s else Blocked)
      | Main \<Rightarrow> (case epoll_loop False s of None \<Rightarrow> Blocked | Some s' \<Rightarrow> Next s')
      | Expire \<Rightarrow> (case epoll_loop True s of None \<Rightarrow> Blocked | Some s' \<Rightarrow> Next s'))"

fun ep_run :: "move list \<Rightarrow> ep \<Rightarrow> ep outcome" where
  "ep_run [] s = Next s"
| "ep_run (m # ms) s = (case ep_move m s of Next s' \<Rightarrow> ep_run ms s' | x \<Rightarrow> x)"

section \<open>Invariant\<close>

fun todo :: "epc \<Rightarrow> nat" where
  "todo (X_Loop n) = n"
| "todo (X_Write n) = n - 1"
| "todo X_Exit = 0"

text \<open>Every task is queued or run, in the order of creation, and each thread makes three.\<close>

definition ep_inv :: "ep \<Rightarrow> bool" where
  "ep_inv s \<longleftrightarrow> ep_created s = ep_done s @ ep_head s \<and> length (ep_pcs s) = 4 \<and>
     (\<forall>i < 4. length (filter (\<lambda>t. thread_id t = i) (ep_created s)) + todo (ep_pcs s ! i) = 3) \<and>
     (\<forall>n. X_Write n \<in> set (ep_pcs s) \<longrightarrow> 0 < n)"

lemma write_update: "X_Write n \<in> set (ps[i := p]) \<Longrightarrow> X_Write n = p \<or> X_Write n \<in> set ps"
  using set_update_subset_insert [of ps i p] by auto

lemma thread_func_inv:
  assumes v: "ep_inv s" and i: "i < length (ep_pcs s)" and t: "thread_func i s = Next s'"
  shows "ep_inv s'"
proof (cases "ep_pcs s ! i")
  case (X_Loop n)
  have "length (filter (\<lambda>t. thread_id t = i) (ep_created s)) + n = 3"
    using v i X_Loop by (auto simp: ep_inv_def)
  with v i t X_Loop show ?thesis
    by (auto simp: ep_inv_def thread_func_def Let_def nth_list_update dest!: write_update split: if_splits)
next
  case (X_Write n)
  then have "0 < n" using v i nth_mem [OF i] by (auto simp: ep_inv_def)
  moreover have "length (filter (\<lambda>t. thread_id t = i) (ep_created s)) + (n - 1) = 3"
    using v i X_Write by (auto simp: ep_inv_def)
  with v i t X_Write show ?thesis
    by (auto simp: ep_inv_def thread_func_def Let_def nth_list_update dest!: write_update)
qed (use t in \<open>simp add: thread_func_def\<close>)

lemma ep_move_inv: "ep_move m s = Next s' \<Longrightarrow> ep_inv s \<Longrightarrow> ep_inv s'"
  by (auto simp: ep_move_def epoll_loop_def process_task_def intro: thread_func_inv
      split: move.splits emain.splits if_splits option.splits) (auto simp: ep_inv_def)

lemma ep_run_inv: "ep_run ms s = Next s' \<Longrightarrow> ep_inv s \<Longrightarrow> ep_inv s'"
  by (induction ms arbitrary: s) (auto split: outcome.splits dest: ep_move_inv)

lemma epoll_main_inv: "ep_inv epoll_main"
  by (auto simp: ep_inv_def epoll_main_def nth_Cons' numeral_nat)

section \<open>Properties\<close>

text \<open>Whatever the schedule, tasks are run in the order in which they were created, each at most once: the
  tasks created are those run followed by those still queued, and a thread has created three of them when
  it has returned.\<close>

lemma epoll_tasks_in_order:
  assumes "ep_run ms epoll_main = Next s"
  shows "ep_created s = ep_done s @ ep_head s \<and>
    (\<forall>i < 4. ep_pcs s ! i = X_Exit \<longrightarrow> length (filter (\<lambda>t. thread_id t = i) (ep_created s)) = 3)"
  using ep_run_inv [OF assms epoll_main_inv] by (auto simp: ep_inv_def)

lemma epoll_tasks_in_order_witness:
  "\<exists>s. ep_run [Thread 2, Thread 2, Main, Main] epoll_main = Next s \<and> ep_created s = ep_done s @ ep_head s"
proof -
  have "case ep_run [Thread 2, Thread 2, Main, Main] epoll_main of Next s \<Rightarrow> True | _ \<Rightarrow> False" by code_simp
  then obtain s where "ep_run [Thread 2, Thread 2, Main, Main] epoll_main = Next s" by (simp split: outcome.splits)
  with epoll_tasks_in_order [OF this] show ?thesis by blast
qed

text \<open>The order of \<open>process_task\<close> loses notifications. In this schedule the threads finish, the last task is
  added between the emptying of the list and the \<open>read\<close>, which swallows its notification.\<close>

definition lost_schedule :: "move list" where
  "lost_schedule =
     concat (map (\<lambda>i. replicate 7 (Thread i)) [0, 1, 2]) @ replicate 4 (Thread 3) @ [Main, Main] @
     [Thread 3, Thread 3, Thread 3, Main]"

text \<open>The hand-over of \<open>epoll.cc\<close> is broken, unlike that of the event loops: there is a schedule after which all
  threads have returned, a task is still queued, and \<open>epoll_wait\<close> has nothing to report; the program then
  ends without running it.\<close>

lemma epoll_lost_task:
  "\<exists>s s'. ep_run lost_schedule epoll_main = Next s \<and> set (ep_pcs s) = {X_Exit} \<and> ep_main s = E_Wait \<and>
     length (ep_head s) = 1 \<and> epoll_loop False s = None \<and> epoll_loop True s = Some s' \<and> ep_main s' = E_Freed"
proof -
  have "case ep_run lost_schedule epoll_main of
      Next s \<Rightarrow> ep_pcs s = [X_Exit, X_Exit, X_Exit, X_Exit] \<and> ep_main s = E_Wait \<and> length (ep_head s) = 1 \<and>
        \<not> efd_ready (ep_efd s)
    | _ \<Rightarrow> False" by code_simp
  then obtain s where "ep_run lost_schedule epoll_main = Next s" "ep_pcs s = [X_Exit, X_Exit, X_Exit, X_Exit]"
      "ep_main s = E_Wait" "length (ep_head s) = 1" "\<not> efd_ready (ep_efd s)"
    by (simp split: outcome.splits)
  then show ?thesis by (simp add: epoll_loop_def)
qed

text \<open>The timeout also frees the mutex and the list under the threads: three quiet milliseconds at the start
  are enough for undefined behaviour.\<close>

lemma epoll_use_after_free: "ep_run [Expire, Thread 0] epoll_main = Undefined"
  by (simp add: ep_move_def thread_func_def epoll_main_def epoll_loop_def efd_ready_def efd_new_def eval_nat_numeral)

end
