(* ===== verification/TaskList.thy ===== *)
theory TaskList
  imports Notify UtilNet
begin

text \<open>
  The program \<open>epoll2.cc\<close>: its doubly linked list of items in memory, and the hand-over of one task from a
  thread to the main thread through it.
\<close>

section \<open>The list\<close>

record item =
  it_prev :: "nat option"
  it_next :: "nat option"
  it_data :: nat

text \<open>The list with the items allocated so far; \<open>li_fresh\<close> is the address of the next allocation.\<close>

record tlist =
  li_head :: "nat option"
  li_tail :: "nat option"
  li_items :: "nat \<Rightarrow> item option"
  li_fresh :: nat

definition list_init2 :: tlist where
  "list_init2 = \<lparr>li_head = None, li_tail = None, li_items = Map.empty, li_fresh = 0\<rparr>"

text \<open>\<open>list_free\<close> frees the list, its mutex and its condition variable: what stays allocated is every item.\<close>

definition list_free :: "tlist \<Rightarrow> nat \<Rightarrow> item option" where
  "list_free li = li_items li"

definition list_add2 :: "nat \<Rightarrow> tlist \<Rightarrow> tlist option" where
  "list_add2 data li =
     (let it = li_fresh li;
          li0 = li\<lparr>li_items := (li_items li)(it \<mapsto> \<lparr>it_prev = None, it_next = None, it_data = data\<rparr>), li_fresh := it + 1\<rparr>
      in case li_head li of
           None \<Rightarrow> Some (li0\<lparr>li_head := Some it, li_tail := Some it\<rparr>)
         | Some _ \<Rightarrow> do {
             t \<leftarrow> li_tail li;
             ti \<leftarrow> li_items li0 t;
             let items1 = (li_items li0)(t \<mapsto> ti\<lparr>it_next := Some it\<rparr>);
             ni \<leftarrow> items1 it;
             Some (li0\<lparr>li_items := items1(it \<mapsto> ni\<lparr>it_prev := Some t\<rparr>), li_tail := Some it\<rparr>)
           })"

definition list_remove2 :: "tlist \<Rightarrow> (nat option \<times> tlist) option" where
  "list_remove2 li =
     (case li_tail li of
        None \<Rightarrow> Some (None, li)
      | Some t \<Rightarrow>
          (if li_head li = li_tail li then Some (Some t, li\<lparr>li_head := None, li_tail := None\<rparr>)
           else do {
             ti \<leftarrow> li_items li t;
             p \<leftarrow> it_prev ti;
             pi \<leftarrow> li_items li p;
             let items1 = (li_items li)(p \<mapsto> pi\<lparr>it_next := None\<rparr>);
             ti1 \<leftarrow> items1 t;
             Some (Some t, li\<lparr>li_tail := Some p, li_items := items1(t \<mapsto> ti1\<lparr>it_prev := None\<rparr>)\<rparr>)
           }))"

text \<open>\<open>process_task\<close> up to its \<open>read\<close>: the task of the item removed; the item is freed. A null item is
  dereferenced.\<close>

definition process_task2 :: "tlist \<Rightarrow> (nat \<times> tlist) option" where
  "process_task2 li = do {
     (it, li1) \<leftarrow> list_remove2 li;
     a \<leftarrow> it;
     i \<leftarrow> li_items li1 a;
     Some (it_data i, li1\<lparr>li_items := (li_items li1)(a := None)\<rparr>)
   }"

definition task_callback2 :: "nat \<Rightarrow> (string \<Rightarrow> cfile option) \<Rightarrow> string \<Rightarrow> buf call option" where
  "task_callback2 fuel files arg = read_file fuel (files arg)"

section \<open>What the list represents\<close>

definition first_or :: "nat option \<Rightarrow> (nat \<times> nat) list \<Rightarrow> nat option" where
  "first_or n ads = (case ads of [] \<Rightarrow> n | ad # _ \<Rightarrow> Some (fst ad))"

definition last_or :: "nat option \<Rightarrow> (nat \<times> nat) list \<Rightarrow> nat option" where
  "last_or p ads = (if ads = [] then p else Some (fst (last ads)))"

text \<open>The items at the addresses of \<open>ads\<close> hold its data and are chained between \<open>p\<close> and \<open>n\<close>.\<close>

fun seg :: "(nat \<Rightarrow> item option) \<Rightarrow> nat option \<Rightarrow> (nat \<times> nat) list \<Rightarrow> nat option \<Rightarrow> bool" where
  "seg m p [] n = True"
| "seg m p (ad # ads) n =
     (m (fst ad) = Some \<lparr>it_prev = p, it_next = first_or n ads, it_data = snd ad\<rparr> \<and> seg m (Some (fst ad)) ads n)"

definition tl_rep :: "tlist \<Rightarrow> (nat \<times> nat) list \<Rightarrow> bool" where
  "tl_rep li ads \<longleftrightarrow> seg (li_items li) None ads None \<and> li_head li = first_or None ads \<and> li_tail li = last_or None ads \<and>
     distinct (map fst ads) \<and> (\<forall>a \<in> fst ` set ads. a < li_fresh li) \<and>
     (\<forall>a. li_items li a \<noteq> None \<longleftrightarrow> a \<in> fst ` set ads)"

lemma first_or_simps [simp]: "first_or n [] = n" "first_or n (ad # ads) = Some (fst ad)"
  by (simp_all add: first_or_def)

lemma last_or_simps [simp]: "last_or p [] = p" "last_or p (ads @ [ad]) = Some (fst ad)" "last_or p (ads @ [bd, ad]) = Some (fst ad)"
  by (simp_all add: last_or_def)

lemma first_or_append [simp]: "first_or n (xs @ ys) = first_or (first_or n ys) xs"
  by (cases xs) auto

lemma last_or_Cons [simp]: "last_or p (ad # ads) = last_or (Some (fst ad)) ads"
  by (simp add: last_or_def)

lemma seg_append: "seg m p (xs @ ys) n \<longleftrightarrow> seg m p xs (first_or n ys) \<and> seg m (last_or p xs) ys n"
  by (induction xs arbitrary: p) auto

lemma seg_upd [simp]: "a \<notin> fst ` set ads \<Longrightarrow> seg (m(a := x)) p ads n = seg m p ads n"
  by (induction ads arbitrary: p) auto

lemma list_init2_rep: "tl_rep list_init2 []"
  by (simp add: tl_rep_def list_init2_def)

lemma list_add2_rep:
  assumes r: "tl_rep li ads"
  shows "\<exists>li'. list_add2 d li = Some li' \<and> tl_rep li' (ads @ [(li_fresh li, d)])"
proof (cases ads rule: rev_cases)
  case Nil
  then show ?thesis using r by (auto simp: list_add2_def tl_rep_def Let_def)
next
  case (snoc xs t)
  let ?f = "li_fresh li" and ?m = "li_items li"
  have r': "seg ?m None xs (Some (fst t))" "distinct (map fst xs)" "\<forall>a \<in> fst ` set xs. a < ?f" "fst t < ?f"
    "fst t \<notin> fst ` set xs" "li_tail li = Some (fst t)" "li_head li = first_or (Some (fst t)) xs"
    "?m (fst t) = Some \<lparr>it_prev = last_or None xs, it_next = None, it_data = snd t\<rparr>"
    "\<forall>a. ?m a \<noteq> None \<longleftrightarrow> a = fst t \<or> a \<in> fst ` set xs"
    using r snoc by (auto simp: tl_rep_def seg_append)
  then have f: "?f \<notin> fst ` set xs" "fst t \<noteq> ?f" by force+
  obtain h where h: "li_head li = Some h" using r'(7) by (cases xs) auto
  define m' where "m' = ?m(?f \<mapsto> \<lparr>it_prev = Some (fst t), it_next = None, it_data = d\<rparr>,
    fst t \<mapsto> \<lparr>it_prev = last_or None xs, it_next = Some ?f, it_data = snd t\<rparr>)"
  define li' where "li' = li\<lparr>li_items := m', li_fresh := ?f + 1, li_tail := Some ?f\<rparr>"
  have "list_add2 d li = Some li'"
    using f r'(6,8) h by (simp add: list_add2_def Let_def li'_def m'_def fun_upd_twist)
  moreover have "seg m' None (xs @ [t] @ [(?f, d)]) None"
    using r'(1) f r'(5) by (simp add: seg_append m'_def)
  moreover have "\<forall>a. m' a \<noteq> None \<longleftrightarrow> a \<in> fst ` set (xs @ [t] @ [(?f, d)])"
    using r'(9) by (simp add: m'_def)
  ultimately show ?thesis
    using r' f by (intro exI [of _ li']) (auto simp: tl_rep_def li'_def snoc)
qed

lemma list_remove2_rep:
  assumes r: "tl_rep li (ads @ [t])"
  shows "\<exists>li'. process_task2 li = Some (snd t, li') \<and> tl_rep li' ads"
proof (cases ads rule: rev_cases)
  case Nil
  then show ?thesis using r
    by (auto simp: process_task2_def list_remove2_def tl_rep_def)
next
  case (snoc xs u)
  let ?m = "li_items li"
  have r': "seg ?m None xs (Some (fst u))" "distinct (map fst xs)" "fst t \<notin> fst ` set xs" "fst u \<notin> fst ` set xs"
    "fst t \<noteq> fst u" "\<forall>a \<in> fst ` set (xs @ [u]). a < li_fresh li" "li_tail li = Some (fst t)"
    "li_head li = first_or (Some (fst u)) xs"
    "?m (fst t) = Some \<lparr>it_prev = Some (fst u), it_next = None, it_data = snd t\<rparr>"
    "?m (fst u) = Some \<lparr>it_prev = last_or None xs, it_next = Some (fst t), it_data = snd u\<rparr>"
    "\<forall>a. ?m a \<noteq> None \<longleftrightarrow> a = fst t \<or> a = fst u \<or> a \<in> fst ` set xs"
    using r snoc by (auto simp: tl_rep_def seg_append)
  have h: "li_head li \<noteq> Some (fst t)" using r'(3,5,8) by (cases xs) auto
  define m' where "m' = ?m(fst u \<mapsto> \<lparr>it_prev = last_or None xs, it_next = None, it_data = snd u\<rparr>, fst t := None)"
  define li' where "li' = li\<lparr>li_tail := Some (fst u), li_items := m'\<rparr>"
  have "process_task2 li = Some (snd t, li')"
    using r'(5,7,9,10) h by (simp add: process_task2_def list_remove2_def Let_def li'_def m'_def)
  moreover have "seg m' None (xs @ [u]) None"
    using r'(1,3,4,5) by (simp add: seg_append m'_def)
  moreover have "\<forall>a. m' a \<noteq> None \<longleftrightarrow> a \<in> fst ` set (xs @ [u])"
    using r'(3,5,11) by (auto simp: m'_def)
  ultimately show ?thesis
    using r' by (intro exI [of _ li']) (auto simp: tl_rep_def li'_def snoc)
qed

section \<open>A stack\<close>

text \<open>The contract of the list: the task added last is taken first.\<close>

locale task_stack =
  fixes add :: "'d \<Rightarrow> 's \<Rightarrow> 's option" and take1 :: "'s \<Rightarrow> ('d \<times> 's) option" and holds :: "'s \<Rightarrow> 'd list \<Rightarrow> bool"
  assumes add_holds: "holds s ds \<Longrightarrow> \<exists>s'. add d s = Some s' \<and> holds s' (ds @ [d])"
    and take_holds: "holds s (ds @ [d]) \<Longrightarrow> \<exists>s'. take1 s = Some (d, s') \<and> holds s' ds"

fun add_all :: "('d \<Rightarrow> 's \<Rightarrow> 's option) \<Rightarrow> 'd list \<Rightarrow> 's \<Rightarrow> 's option" where
  "add_all add [] s = Some s"
| "add_all add (d # ds) s = do { s' \<leftarrow> add d s; add_all add ds s' }"

fun take_all :: "('s \<Rightarrow> ('d \<times> 's) option) \<Rightarrow> nat \<Rightarrow> 's \<Rightarrow> ('d list \<times> 's) option" where
  "take_all take1 0 s = Some ([], s)"
| "take_all take1 (Suc n) s = do { (d, s') \<leftarrow> take1 s; (ds, s'') \<leftarrow> take_all take1 n s'; Some (d # ds, s'') }"

context task_stack
begin

lemma add_all_holds: "holds s ds \<Longrightarrow> \<exists>s'. add_all add es s = Some s' \<and> holds s' (ds @ es)"
proof (induction es arbitrary: s ds)
  case (Cons e es)
  obtain s1 where "add e s = Some s1" "holds s1 (ds @ [e])" using add_holds [OF Cons.prems] by blast
  with Cons.IH [of s1 "ds @ [e]"] show ?case by auto
qed auto

lemma take_all_holds: "holds s (ds @ es) \<Longrightarrow> \<exists>s'. take_all take1 (length es) s = Some (rev es, s') \<and> holds s' ds"
proof (induction es arbitrary: s rule: rev_induct)
  case (snoc e es)
  obtain s1 where "take1 s = Some (e, s1)" "holds s1 (ds @ es)" using take_holds [of s "ds @ es" e] snoc.prems by auto
  with snoc.IH [of s1] show ?case by auto
qed auto

lemma lifo: "holds s [] \<Longrightarrow> \<exists>s1 s2. add_all add ds s = Some s1 \<and> take_all take1 (length ds) s1 = Some (rev ds, s2) \<and> holds s2 []"
  using add_all_holds [of s "[]" ds] take_all_holds [of _ "[]" ds] by fastforce

end

text \<open>What a list holds, without the addresses.\<close>

definition holds2 :: "tlist \<Rightarrow> nat list \<Rightarrow> bool" where
  "holds2 li ds \<longleftrightarrow> (\<exists>ads. tl_rep li ads \<and> map snd ads = ds)"

interpretation ts: task_stack list_add2 process_task2 holds2
proof unfold_locales
  fix li ds d
  assume "holds2 li ds"
  then show "\<exists>li'. list_add2 d li = Some li' \<and> holds2 li' (ds @ [d])"
    using list_add2_rep by (fastforce simp: holds2_def)
next
  fix li ds d
  assume "holds2 li (ds @ [d])"
  then obtain ads where ads: "tl_rep li ads" "map snd ads = ds @ [d]" by (auto simp: holds2_def)
  then obtain bds t where "ads = bds @ [t]" "map snd bds = ds" "snd t = d" by (auto simp: map_eq_append_conv)
  with ads(1) list_remove2_rep show "\<exists>li'. process_task2 li = Some (d, li') \<and> holds2 li' ds"
    by (fastforce simp: holds2_def)
qed

section \<open>The program\<close>

text \<open>The thread: asleep, before \<open>write\<close>, returned. The main thread: in \<open>epoll_wait\<close>, in \<open>process_task\<close>, after
  the loop, at the end. The only task is the number 0.\<close>

datatype place2 = Sleeping | Writing | Gone

datatype main2 = At_Wait | At_Process | At_Free | At_End

record prog2 =
  s_list :: tlist
  s_efd :: efd
  s_thread :: place2
  s_main :: main2
  s_run :: "nat list"
  s_leaked :: "nat \<Rightarrow> item option"

definition epoll2_main :: prog2 where
  "epoll2_main =
     \<lparr>s_list = list_init2, s_efd = efd_new, s_thread = Sleeping, s_main = At_Wait, s_run = [], s_leaked = Map.empty\<rparr>"

definition thread_func2 :: "prog2 \<Rightarrow> prog2 outcome" where
  "thread_func2 s =
     (case s_thread s of
        Sleeping \<Rightarrow>
          (case list_add2 0 (s_list s) of
             None \<Rightarrow> Undefined
           | Some li \<Rightarrow> Next (s\<lparr>s_list := li, s_thread := Writing\<rparr>))
      | Writing \<Rightarrow> Next (s\<lparr>s_efd := efd_post 123 (s_efd s), s_thread := Gone\<rparr>)
      | Gone \<Rightarrow> Blocked)"

definition epoll2_loop :: "prog2 \<Rightarrow> prog2 outcome" where
  "epoll2_loop s =
     (case s_main s of
        At_Wait \<Rightarrow>
          (if efd_ready (s_efd s) then Next (s\<lparr>s_efd := efd_wake (s_efd s), s_main := At_Process\<rparr>) else Blocked)
      | At_Process \<Rightarrow>
          (case process_task2 (s_list s) of
             None \<Rightarrow> Undefined
           | Some (task, li) \<Rightarrow>
               Next (s\<lparr>s_list := li, s_run := s_run s @ [task], s_efd := efd_read (s_efd s), s_main := At_Free\<rparr>))
      | At_Free \<Rightarrow> Next (s\<lparr>s_leaked := list_free (s_list s), s_main := At_End\<rparr>)
      | At_End \<Rightarrow> Blocked)"

inductive step2 :: "prog2 \<Rightarrow> prog2 outcome \<Rightarrow> bool" where
  thread: "s_main s \<noteq> At_End \<Longrightarrow> thread_func2 s \<noteq> Blocked \<Longrightarrow> step2 s (thread_func2 s)"
| main: "epoll2_loop s \<noteq> Blocked \<Longrightarrow> step2 s (epoll2_loop s)"

text \<open>The course of the program: the thread first, then the main thread.\<close>

definition at2 :: "nat \<Rightarrow> prog2 \<Rightarrow> bool" where
  "at2 n s \<longleftrightarrow>
     (n = 0 \<and> s = epoll2_main) \<or>
     (n = 1 \<and> s_thread s = Writing \<and> s_main s = At_Wait \<and> holds2 (s_list s) [0] \<and> s_efd s = efd_new \<and> s_run s = []) \<or>
     (n = 2 \<and> s_thread s = Gone \<and> s_main s = At_Wait \<and> holds2 (s_list s) [0] \<and> s_efd s = efd_post 123 efd_new \<and> s_run s = []) \<or>
     (n = 3 \<and> s_thread s = Gone \<and> s_main s = At_Process \<and> holds2 (s_list s) [0] \<and> s_run s = []) \<or>
     (n = 4 \<and> s_thread s = Gone \<and> s_main s = At_Free \<and> holds2 (s_list s) [] \<and> s_run s = [0]) \<or>
     (n = 5 \<and> s_thread s = Gone \<and> s_main s = At_End \<and> s_run s = [0] \<and> s_leaked s = Map.empty)"

lemma holds2_init: "holds2 list_init2 []"
  using list_init2_rep by (force simp: holds2_def)

lemma step2_iff:
  "step2 s x \<longleftrightarrow>
     (s_main s \<noteq> At_End \<and> thread_func2 s \<noteq> Blocked \<and> x = thread_func2 s) \<or> (epoll2_loop s \<noteq> Blocked \<and> x = epoll2_loop s)"
  by (auto elim: step2.cases intro: step2.intros)

lemma eq_all [simp]: "(\<forall>x. (x = a) = (x = b)) \<longleftrightarrow> a = b"
  by auto

lemma at2_step:
  assumes "at2 n s" "n < 5"
  shows "\<exists>s'. (\<forall>x. step2 s x \<longleftrightarrow> x = Next s') \<and> at2 (Suc n) s'"
  using assms(1) [unfolded at2_def]
proof (elim disjE conjE)
  assume s: "n = 0" "s = epoll2_main"
  obtain li where "list_add2 0 list_init2 = Some li" "holds2 li [0]" using ts.add_holds [OF holds2_init, of 0] by auto
  with s show "\<exists>s'. (\<forall>x. step2 s x \<longleftrightarrow> x = Next s') \<and> at2 (Suc n) s'"
    by (intro exI [of _ "epoll2_main\<lparr>s_list := li, s_thread := Writing\<rparr>"])
      (simp add: step2_iff at2_def thread_func2_def epoll2_loop_def epoll2_main_def efd_ready_def efd_new_def)
next
  assume "n = 3" "s_thread s = Gone" "s_main s = At_Process" "holds2 (s_list s) [0]" "s_run s = []"
  moreover from this obtain li where "process_task2 (s_list s) = Some (0, li)" "holds2 li []"
    using ts.take_holds [of "s_list s" "[]" 0] by auto
  ultimately show "\<exists>s'. (\<forall>x. step2 s x \<longleftrightarrow> x = Next s') \<and> at2 (Suc n) s'"
    by (simp add: step2_iff at2_def thread_func2_def epoll2_loop_def)
next
  assume "n = 4" "s_thread s = Gone" "s_main s = At_Free" "holds2 (s_list s) []" "s_run s = [0]"
  moreover from this have "li_items (s_list s) = Map.empty" by (auto simp: holds2_def tl_rep_def)
  ultimately show "\<exists>s'. (\<forall>x. step2 s x \<longleftrightarrow> x = Next s') \<and> at2 (Suc n) s'"
    by (simp add: step2_iff at2_def thread_func2_def epoll2_loop_def list_free_def)
qed (use assms(2) in \<open>simp_all add: step2_iff at2_def thread_func2_def epoll2_loop_def efd_ready_def efd_new_def efd_post_def\<close>)

lemma at2_end: "at2 5 s \<Longrightarrow> \<not> step2 s x \<and> s_main s = At_End \<and> s_run s = [0] \<and> s_leaked s = Map.empty"
  by (auto simp: at2_def step2_iff thread_func2_def epoll2_loop_def)

lemma at2_bound: "at2 n s \<Longrightarrow> n \<le> 5"
  by (auto simp: at2_def)

lemma run_at2: "((\<lambda>s s'. step2 s (Next s')) ^^ n) epoll2_main s \<Longrightarrow> at2 n s"
proof (induction n arbitrary: s)
  case (Suc n)
  then obtain s1 where s1: "at2 n s1" "step2 s1 (Next s)" by auto
  then have "n < 5" using at2_end [of s1] at2_bound [of n s1] by (cases "n = 5") auto
  then obtain s' where "\<forall>x. step2 s1 x \<longleftrightarrow> x = Next s'" "at2 (Suc n) s'" using at2_step [OF s1(1)] by blast
  with s1(2) show ?case by simp
qed (simp add: at2_def)

text \<open>\<open>setnonblock\<close>, which nothing calls, from what the two calls of \<open>fcntl\<close> return: the flags that it sets and the
  messages. An error of the first does not keep it from setting all flags.\<close>

definition setnonblock :: "int \<Rightarrow> int \<Rightarrow> int \<times> string list" where
  "setnonblock opts ret =
     (semiring_bit_operations_class.or opts 2048,
      (if opts < 0 then [''fcntl(F_GETFL)''] else []) @ (if ret < 0 then [''fcntl(F_SETFL)''] else []))"

section \<open>Properties\<close>

text \<open>C34. The list of \<open>epoll2.cc\<close> is a stack: with any number of tasks added, none is lost and no null pointer is
  followed, but they are run in the reverse order, and nothing is left allocated.\<close>

theorem task_list_lifo:
  "\<exists>li1 li2. add_all list_add2 ds list_init2 = Some li1 \<and> take_all process_task2 (length ds) li1 = Some (rev ds, li2) \<and>
     list_free li2 = Map.empty"
proof -
  from ts.lifo [OF holds2_init, of ds] obtain li1 li2 where
    l: "add_all list_add2 ds list_init2 = Some li1" "take_all process_task2 (length ds) li1 = Some (rev ds, li2)" "holds2 li2 []"
    by (elim exE conjE) (rule that)
  from l(3) have "list_free li2 = Map.empty" by (auto simp: holds2_def tl_rep_def list_free_def)
  with l show ?thesis by (intro exI conjI)
qed

text \<open>On an empty list \<open>process_task\<close> follows the null pointer that \<open>list_remove\<close> returns.\<close>

lemma process_task2_empty: "holds2 li [] \<Longrightarrow> process_task2 li = None"
  by (auto simp: holds2_def tl_rep_def process_task2_def list_remove2_def)

text \<open>\<open>list_free\<close> frees no item: what a list still holds is leaked.\<close>

lemma list_free_leaks: "tl_rep li ads \<Longrightarrow> dom (list_free li) = fst ` set ads"
  by (auto simp: tl_rep_def list_free_def dom_def)

text \<open>The program ends after exactly five steps, whatever the schedule: without undefined behaviour, with the task
  run once and no item leaked.\<close>

lemma epoll2_terminates:
  assumes "((\<lambda>s s'. step2 s (Next s')) ^^ n) epoll2_main s"
  shows "n \<le> 5 \<and> \<not> step2 s Undefined \<and> ((\<exists>s'. step2 s (Next s')) \<longleftrightarrow> n < 5) \<and>
    (n = 5 \<longrightarrow> s_main s = At_End \<and> s_run s = [0] \<and> s_leaked s = Map.empty)"
proof (cases "n < 5")
  case True
  with at2_step [OF run_at2 [OF assms]] show ?thesis by auto
next
  case False
  with at2_bound [OF run_at2 [OF assms]] have "n = 5" by simp
  with at2_end [of s] run_at2 [OF assms] show ?thesis by auto
qed

lemma epoll2_terminates_witness: "\<not> step2 epoll2_main Undefined \<and> (\<exists>s'. step2 epoll2_main (Next s'))"
  using epoll2_terminates [of 0 epoll2_main] by simp

lemma setnonblock_error: "fst (setnonblock (-1) ret) = -1"
  by (simp add: setnonblock_def)

end
