(* ===== verification/ThreadPool.thy ===== *)
theory ThreadPool
  imports Notify UtilNet
begin

text \<open>
  The thread pool of \<open>ev_thread_pool.cc\<close>: each thread has a task queue, a mutex and a condition variable of its
  own. The tasks are cells of a heap, which \<open>malloc\<close> and \<open>free\<close> change; a queue is what the code makes of
  them, a head, a tail and \<open>next\<close> links. A critical section is one step; a mutex is shown as held only where
  a thread goes on without unlocking it. The \<open>malloc\<close> of a task, which only its maker can see, is in the step that
  links it. An access to a cell that is not allocated is undefined.
\<close>

section \<open>State\<close>

text \<open>A task: its argument stands for it (\<open>main\<close> gives every task the same functions).\<close>

record ev_task_info =
  ti_arg :: nat
  ti_next :: "nat option"

type_synonym task_heap = "nat \<Rightarrow> ev_task_info option"

text \<open>A thread: before the lock, waiting, woken, running the task at an address, before its last signal, returned.\<close>

datatype qpc = Q_Lock | Q_Wait | Q_Wake | Q_Run nat | Q_Signal | Q_Exit

record ev_thread_info =
  t_status :: int
  t_ready :: bool
  t_locked :: bool
  t_head :: "nat option"
  t_tail :: "nat option"
  t_pc :: qpc
  t_added :: "nat list"
  t_run :: "nat list"
  t_dropped :: "nat list"

text \<open>\<open>t_ready\<close>: the fields other than \<open>status\<close> are initialised. The last three are history: the tasks added, those
  run, and those freed without being run. The thread that uses
  the pool is in \<open>ev_thread_pool_init\<close> with \<open>k\<close> threads made, there after the creation of thread \<open>k\<close>,
  between calls, before the signal of \<open>ev_task_info_add\<close>, in the first loop of \<open>ev_thread_pool_destroy\<close>, before
  its signal, in the second loop, or before its signal.\<close>

datatype upc =
    I_Create nat | I_Init nat | U_Ready | A_Signal nat
  | D_Mark nat | D_Signal nat | D_Check nat | D_Again nat

record ev_thread_pool =
  min_num :: nat
  max_num :: nat
  infos :: "ev_thread_info list"
  u_pc :: upc
  p_tasks :: task_heap
  p_fresh :: nat

definition set_info :: "nat \<Rightarrow> task_heap \<Rightarrow> ev_thread_info \<Rightarrow> upc \<Rightarrow> ev_thread_pool \<Rightarrow> ev_thread_pool" where
  "set_info k m ti pc p = p\<lparr>p_tasks := m, infos := (infos p)[k := ti], u_pc := pc\<rparr>"

section \<open>The threads\<close>

text \<open>Holding the mutex with a non-empty queue: unlink the first task and unlock.\<close>

definition take_task :: "task_heap \<Rightarrow> ev_thread_info \<Rightarrow> ev_thread_info option" where
  "take_task m ti = do {
     task \<leftarrow> t_head ti;
     if t_head ti = t_tail ti then Some (ti\<lparr>t_head := None, t_tail := None, t_pc := Q_Run task\<rparr>)
     else do {
       i \<leftarrow> m task;
       Some (ti\<lparr>t_head := ti_next i, t_pc := Q_Run task\<rparr>)
     }
   }"

definition ran_task :: "task_heap \<Rightarrow> nat \<Rightarrow> ev_thread_info \<Rightarrow> (task_heap \<times> ev_thread_info) option" where
  "ran_task m task ti = do {
     i \<leftarrow> m task;
     Some (m(task := None), ti\<lparr>t_run := t_run ti @ [ti_arg i], t_pc := Q_Lock\<rparr>)
   }"

text \<open>\<open>ev_task_info_func\<close>. Woken with an empty queue and status 0, the thread continues with the next turn of
  its loop and with the mutex, which it then locks again. A task is read and freed after the mutex is unlocked.\<close>

definition ev_task_info_func :: "task_heap \<Rightarrow> ev_thread_info \<Rightarrow> (task_heap \<times> ev_thread_info) outcome" where
  "ev_task_info_func m ti =
     (case t_pc ti of
        Q_Lock \<Rightarrow>
          (if \<not> t_ready ti then Undefined
           else if t_locked ti then Blocked
           else if t_head ti = None then Next (m, ti\<lparr>t_pc := Q_Wait\<rparr>)
           else of_opt (map_option (Pair m) (take_task m ti)))
      | Q_Wait \<Rightarrow> Blocked
      | Q_Wake \<Rightarrow>
          (if t_head ti = None
           then if t_status ti = 0 then Next (m, ti\<lparr>t_locked := True, t_pc := Q_Lock\<rparr>)
                else Next (m, ti\<lparr>t_status := t_status ti + 1, t_pc := Q_Signal\<rparr>)
           else of_opt (map_option (Pair m) (take_task m ti)))
      | Q_Run task \<Rightarrow> of_opt (ran_task m task ti)
      | Q_Signal \<Rightarrow> Next (m, ti\<lparr>t_pc := Q_Exit\<rparr>)
      | Q_Exit \<Rightarrow> Blocked)"

definition cond_signal_t :: "ev_thread_info \<Rightarrow> ev_thread_info" where
  "cond_signal_t ti = (if t_pc ti = Q_Wait then ti\<lparr>t_pc := Q_Wake\<rparr> else ti)"

definition task_func :: "nat \<Rightarrow> (string \<Rightarrow> cfile option) \<Rightarrow> string \<Rightarrow> buf call option" where
  "task_func fuel files arg = read_file fuel (files arg)"

section \<open>The user of the pool\<close>

definition new_pool :: "nat \<Rightarrow> nat \<Rightarrow> ev_thread_pool" where
  "new_pool mn mx = \<lparr>min_num = mn, max_num = mx, infos = [], u_pc = I_Create 0, p_tasks = Map.empty, p_fresh = 0\<rparr>"

text \<open>One turn of the loop of \<open>ev_thread_pool_init\<close>: the thread is created, and runs, before the rest of its
  structure is initialised.\<close>

definition ev_thread_pool_init :: "ev_thread_pool \<Rightarrow> ev_thread_pool outcome" where
  "ev_thread_pool_init p =
     (case u_pc p of
        I_Create k \<Rightarrow>
          (if k < min_num p
           then Next (p\<lparr>infos := infos p @ [\<lparr>t_status = 0, t_ready = False, t_locked = False, t_head = None, t_tail = None,
                   t_pc = Q_Lock, t_added = [], t_run = [], t_dropped = []\<rparr>], u_pc := I_Init k\<rparr>)
           else Next (p\<lparr>u_pc := U_Ready\<rparr>))
      | I_Init k \<Rightarrow>
          Next (set_info k (p_tasks p) ((infos p ! k)\<lparr>t_ready := True, t_head := None, t_tail := None\<rparr>) (I_Create (k + 1)) p)
      | _ \<Rightarrow> Blocked)"

text \<open>\<open>ev_task_info_add\<close>: the new task is made the head of an empty queue or linked behind the tail, under the
  mutex; the signal comes after it.\<close>

definition link_task :: "nat \<Rightarrow> task_heap \<Rightarrow> ev_thread_info \<Rightarrow> (task_heap \<times> ev_thread_info) option" where
  "link_task task m ti =
     (if t_head ti = None then Some (m, ti\<lparr>t_head := Some task, t_tail := Some task\<rparr>)
      else do {
        t \<leftarrow> t_tail ti;
        i \<leftarrow> m t;
        Some (m(t \<mapsto> i\<lparr>ti_next := Some task\<rparr>), ti\<lparr>t_tail := Some task\<rparr>)
      })"

definition ev_task_info_add :: "nat \<Rightarrow> nat \<Rightarrow> ev_thread_pool \<Rightarrow> ev_thread_pool outcome" where
  "ev_task_info_add k arg p =
     (let ti = infos p ! k; task = p_fresh p; m = (p_tasks p)(task \<mapsto> \<lparr>ti_arg = arg, ti_next = None\<rparr>) in
      if u_pc p \<noteq> U_Ready \<or> length (infos p) \<le> k \<or> t_locked ti then Blocked
      else of_opt (do {
        (m', ti') \<leftarrow> link_task task m ti;
        Some ((set_info k m' (ti'\<lparr>t_added := t_added ti @ [arg]\<rparr>) (A_Signal k) p)\<lparr>p_fresh := task + 1\<rparr>)
      }))"

definition add_signal :: "ev_thread_pool \<Rightarrow> ev_thread_pool outcome" where
  "add_signal p =
     (case u_pc p of
        A_Signal k \<Rightarrow> Next (set_info k (p_tasks p) (cond_signal_t (infos p ! k)) U_Ready p) | _ \<Rightarrow> Blocked)"

text \<open>\<open>ev_thread_pool_destroy\<close>: first every queue is walked and freed and every thread told; then each thread is
  waited for, and its mutex destroyed, by the thread that has it locked, which POSIX leaves undefined. The walk
  collects the arguments of the tasks it frees for the history; it ends, since a cell is freed in every turn.\<close>

partial_function (option) free_tasks :: "task_heap \<Rightarrow> nat option \<Rightarrow> nat list \<Rightarrow> (task_heap \<times> nat list) option" where
  "free_tasks m task_info args =
     (case task_info of
        None \<Rightarrow> Some (m, args)
      | Some task \<Rightarrow> (case m task of None \<Rightarrow> None | Some i \<Rightarrow> free_tasks (m(task := None)) (ti_next i) (args @ [ti_arg i])))"

declare free_tasks.simps [code]

definition ev_thread_pool_destroy :: "ev_thread_pool \<Rightarrow> ev_thread_pool outcome" where
  "ev_thread_pool_destroy p =
     (case u_pc p of
        D_Mark k \<Rightarrow>
          (if k < length (infos p) then
             (let ti = infos p ! k in
              if t_locked ti then Blocked
              else of_opt (do {
                (m, args) \<leftarrow> free_tasks (p_tasks p) (t_head ti) [];
                Some (set_info k m (ti\<lparr>t_status := t_status ti + 1, t_head := None, t_tail := None,
                        t_dropped := t_dropped ti @ args\<rparr>) (D_Signal k) p)
              }))
           else Next (p\<lparr>u_pc := D_Check 0\<rparr>))
      | D_Signal k \<Rightarrow> Next (set_info k (p_tasks p) (cond_signal_t (infos p ! k)) (D_Mark (k + 1)) p)
      | D_Check k \<Rightarrow>
          (if length (infos p) \<le> k then Undefined
           else if t_locked (infos p ! k) then Blocked
           else if t_status (infos p ! k) = 2 then Undefined
           else Next (p\<lparr>u_pc := D_Again k\<rparr>))
      | D_Again k \<Rightarrow> Next (set_info k (p_tasks p) (cond_signal_t (infos p ! k)) (D_Check k) p)
      | _ \<Rightarrow> Blocked)"

text \<open>The calls of \<open>main\<close>: sixteen rounds over the four threads, with the file names in turn.\<close>

definition main_tasks :: "(nat \<times> string) list" where
  "main_tasks = concat (replicate 16
     [(0, ''./test/test1.txt''), (1, ''./test/test2.txt''), (2, ''./test/test3.txt''), (3, ''./test/test4.txt'')])"

section \<open>Schedules\<close>

datatype tmove = T_Worker nat | T_Init | T_Add nat nat | T_Signal | T_Start_Destroy | T_Destroy | T_Spurious nat

definition worker_move :: "nat \<Rightarrow> ev_thread_pool \<Rightarrow> ev_thread_pool outcome" where
  "worker_move k p =
     (if k < length (infos p)
      then (case ev_task_info_func (p_tasks p) (infos p ! k) of
          Blocked \<Rightarrow> Blocked | Undefined \<Rightarrow> Undefined | Next (m, ti) \<Rightarrow> Next (set_info k m ti (u_pc p) p))
      else Blocked)"

definition tp_move :: "tmove \<Rightarrow> ev_thread_pool \<Rightarrow> ev_thread_pool outcome" where
  "tp_move m p =
     (case m of
        T_Worker k \<Rightarrow> worker_move k p
      | T_Init \<Rightarrow> ev_thread_pool_init p
      | T_Add k arg \<Rightarrow> ev_task_info_add k arg p
      | T_Signal \<Rightarrow> add_signal p
      | T_Start_Destroy \<Rightarrow> (if u_pc p = U_Ready then Next (p\<lparr>u_pc := D_Mark 0\<rparr>) else Blocked)
      | T_Destroy \<Rightarrow> ev_thread_pool_destroy p
      | T_Spurious k \<Rightarrow>
          (if k < length (infos p) \<and> t_pc (infos p ! k) = Q_Wait
           then Next (set_info k (p_tasks p) ((infos p ! k)\<lparr>t_pc := Q_Wake\<rparr>) (u_pc p) p) else Blocked))"

fun tp_run :: "tmove list \<Rightarrow> ev_thread_pool \<Rightarrow> ev_thread_pool outcome" where
  "tp_run [] p = Next p"
| "tp_run (m # ms) p = (case tp_move m p of Next p' \<Rightarrow> tp_run ms p' | x \<Rightarrow> x)"

section \<open>What the queue represents\<close>

text \<open>The cells from \<open>x\<close> along the links, down to null.\<close>

fun ti_chain :: "task_heap \<Rightarrow> nat option \<Rightarrow> nat list \<Rightarrow> bool" where
  "ti_chain m x [] \<longleftrightarrow> x = None"
| "ti_chain m x (a # as) \<longleftrightarrow> x = Some a \<and> (case m a of None \<Rightarrow> False | Some i \<Rightarrow> ti_chain m (ti_next i) as)"

definition args_at :: "task_heap \<Rightarrow> nat list \<Rightarrow> nat list" where
  "args_at m as = map (\<lambda>a. ti_arg (the (m a))) as"

definition last_task :: "nat list \<Rightarrow> nat option" where
  "last_task as = (if as = [] then None else Some (last as))"

fun running :: "qpc \<Rightarrow> nat list" where
  "running (Q_Run task) = [task]"
| "running _ = []"

section \<open>Invariant\<close>

text \<open>The cells a thread owns: the task it runs, and those of its queue.\<close>

abbreviation owned :: "ev_thread_info \<Rightarrow> nat list \<Rightarrow> nat list" where
  "owned ti q \<equiv> running (t_pc ti) @ q"

text \<open>\<open>q\<close> is the queue: the chain from \<open>head\<close>, with \<open>tail\<close> its last cell. The tasks added are, in order, those
  run, the one that runs, those dropped and those queued; only a thread that was told to end has dropped any. One
  that has the mutex is about to lock it again.\<close>

definition info_ok :: "task_heap \<Rightarrow> ev_thread_info \<Rightarrow> nat list \<Rightarrow> bool" where
  "info_ok m ti q \<longleftrightarrow> ti_chain m (t_head ti) q \<and> t_tail ti = last_task q \<and> distinct (owned ti q) \<and> set (owned ti q) \<subseteq> dom m \<and>
     t_added ti = t_run ti @ args_at m (running (t_pc ti)) @ t_dropped ti @ args_at m q \<and>
     0 \<le> t_status ti \<and> (t_status ti = 0 \<longrightarrow> t_dropped ti = []) \<and> (t_dropped ti \<noteq> [] \<longrightarrow> q = []) \<and>
     (t_locked ti \<longrightarrow> t_pc ti = Q_Lock \<and> q = []) \<and>
     (\<not> t_ready ti \<longrightarrow> t_pc ti = Q_Lock \<and> q = [])"

text \<open>All threads made are initialised, except the one that is being made; and none is told to end before the
  pool is destroyed.\<close>

definition count_ok :: "upc \<Rightarrow> nat \<Rightarrow> bool" where
  "count_ok pc n = (case pc of I_Create k \<Rightarrow> n = k | I_Init k \<Rightarrow> n = Suc k | _ \<Rightarrow> True)"

definition ending :: "upc \<Rightarrow> bool" where
  "ending pc = (case pc of D_Mark k \<Rightarrow> True | D_Signal k \<Rightarrow> True | D_Check k \<Rightarrow> True | D_Again k \<Rightarrow> True | _ \<Rightarrow> False)"

definition pool_ok :: "ev_thread_pool \<Rightarrow> (nat \<Rightarrow> nat list) \<Rightarrow> bool" where
  "pool_ok p qs \<longleftrightarrow>
     (\<forall>k < length (infos p). info_ok (p_tasks p) (infos p ! k) (qs k) \<and> (t_ready (infos p ! k) \<longleftrightarrow> u_pc p \<noteq> I_Init k) \<and>
        (ending (u_pc p) \<or> t_status (infos p ! k) = 0)) \<and>
     (\<forall>j < length (infos p). \<forall>k < length (infos p). j \<noteq> k \<longrightarrow>
        set (owned (infos p ! j) (qs j)) \<inter> set (owned (infos p ! k) (qs k)) = {}) \<and>
     (\<forall>a. p_fresh p \<le> a \<longrightarrow> p_tasks p a = None) \<and> count_ok (u_pc p) (length (infos p))"

subsection \<open>Chains\<close>

lemma ti_chain_cong: "(\<And>a. a \<in> set as \<Longrightarrow> m' a = m a) \<Longrightarrow> ti_chain m' x as = ti_chain m x as"
  by (induction as arbitrary: x) (auto split: option.splits)

lemma args_at_cong: "(\<And>a. a \<in> set as \<Longrightarrow> m' a = m a) \<Longrightarrow> args_at m' as = args_at m as"
  by (simp add: args_at_def)

lemma args_at_simps [simp]:
  "args_at m [] = []" "args_at m (a # as) = ti_arg (the (m a)) # args_at m as" "args_at m (as @ bs) = args_at m as @ args_at m bs"
  by (simp_all add: args_at_def)

lemma last_task_simps [simp]:
  "last_task [] = None" "last_task (as @ [a]) = Some a" "last_task (as @ [b, a]) = Some a"
  "last_task (a # as) = (if as = [] then Some a else last_task as)"
  by (simp_all add: last_task_def)

lemma last_task_in: "last_task as = Some a \<Longrightarrow> a \<in> set as"
  by (auto simp: last_task_def split: if_splits)

lemma ti_chain_None [simp]: "ti_chain m None as \<longleftrightarrow> as = []"
  by (cases as) simp_all

lemma ti_chain_Some: "ti_chain m (Some a) as \<longleftrightarrow> (\<exists>bs i. as = a # bs \<and> m a = Some i \<and> ti_chain m (ti_next i) bs)"
  by (cases as) (auto split: option.splits)

text \<open>Linking a cell behind the last one.\<close>

lemma ti_chain_snoc:
  assumes "ti_chain m x (as @ [t])" "distinct (as @ [t])" "m t = Some i" "m a = Some \<lparr>ti_arg = v, ti_next = None\<rparr>" "a \<notin> set (as @ [t])"
  shows "ti_chain (m(t \<mapsto> i\<lparr>ti_next := Some a\<rparr>)) x (as @ [t, a])"
  using assms by (induction as arbitrary: x) (auto split: option.splits)

text \<open>The walk of \<open>ev_thread_pool_destroy\<close> frees the chain, and nothing else.\<close>

lemma free_tasks_chain:
  "ti_chain m x as \<Longrightarrow> distinct as \<Longrightarrow> free_tasks m x vs = Some (m |` (- set as), vs @ args_at m as)"
proof (induction as arbitrary: m x vs)
  case Nil
  then show ?case by (subst free_tasks.simps) (simp add: restrict_map_def)
next
  case (Cons a as)
  then obtain i where i: "x = Some a" "m a = Some i" "ti_chain m (ti_next i) as" by (auto split: option.splits)
  have ch: "ti_chain (m(a := None)) (ti_next i) as" using i(3) Cons.prems(2) by (subst ti_chain_cong [of _ _ m]) auto
  then have "free_tasks (m(a := None)) (ti_next i) (vs @ [ti_arg i]) =
      Some ((m(a := None)) |` (- set as), (vs @ [ti_arg i]) @ args_at (m(a := None)) as)"
    using Cons.prems(2) by (intro Cons.IH [OF ch]) simp
  moreover have "(m(a := None)) |` (- set as) = m |` (- set (a # as))" by (auto simp: restrict_map_def)
  moreover have "args_at (m(a := None)) as = args_at m as" using Cons.prems(2) by (intro args_at_cong) auto
  ultimately show ?case using i by (subst free_tasks.simps) simp
qed

subsection \<open>The operations of one thread\<close>

lemma info_ok_frame:
  assumes "info_ok m ti q" "\<And>a. a \<in> set (owned ti q) \<Longrightarrow> m' a = m a"
  shows "info_ok m' ti q"
proof -
  have "ti_chain m' (t_head ti) q = ti_chain m (t_head ti) q" by (rule ti_chain_cong) (simp add: assms(2))
  moreover have "args_at m' q = args_at m q" by (rule args_at_cong) (simp add: assms(2))
  moreover have "args_at m' (running (t_pc ti)) = args_at m (running (t_pc ti))" by (rule args_at_cong) (simp add: assms(2))
  moreover have "set (owned ti q) \<subseteq> dom m'"
  proof
    fix a assume "a \<in> set (owned ti q)"
    moreover from this have "a \<in> dom m" using assms(1) unfolding info_ok_def by blast
    ultimately show "a \<in> dom m'" using assms(2) [of a] by (simp add: dom_def)
  qed
  ultimately show ?thesis using assms(1) unfolding info_ok_def by presburger
qed

lemma cond_signal_t_simps [simp]:
  "t_status (cond_signal_t ti) = t_status ti" "t_locked (cond_signal_t ti) = t_locked ti"
  "t_head (cond_signal_t ti) = t_head ti" "t_tail (cond_signal_t ti) = t_tail ti" "t_added (cond_signal_t ti) = t_added ti"
  "t_run (cond_signal_t ti) = t_run ti" "t_dropped (cond_signal_t ti) = t_dropped ti"
  "t_ready (cond_signal_t ti) = t_ready ti" "running (t_pc (cond_signal_t ti)) = running (t_pc ti)"
  "t_pc (cond_signal_t ti) = Q_Lock \<longleftrightarrow> t_pc ti = Q_Lock"
  by (auto simp: cond_signal_t_def)

lemma cond_signal_t_ok: "info_ok m ti q \<Longrightarrow> info_ok m (cond_signal_t ti) q"
  by (simp add: info_ok_def)

lemma take_task_ok:
  assumes "info_ok m ti q" "t_head ti \<noteq> None" "running (t_pc ti) = []" "t_ready ti"
  shows "\<exists>ti' a q'. take_task m ti = Some ti' \<and> q = a # q' \<and> info_ok m ti' q' \<and> owned ti' q' = q \<and>
    t_ready ti' = t_ready ti \<and> t_status ti' = t_status ti"
proof -
  from assms(1,2) have "ti_chain m (t_head ti) q" "q \<noteq> []" by (auto simp: info_ok_def)
  then obtain a q' i where q: "q = a # q'" "t_head ti = Some a" "m a = Some i" "ti_chain m (ti_next i) q'"
    by (cases q) (auto split: option.splits)
  have tail: "t_tail ti = last_task (a # q')" "distinct (a # q')" "t_dropped ti = []" "\<not> t_locked ti"
    using assms(1) q(1) by (auto simp: info_ok_def)
  have eq: "t_head ti = t_tail ti \<longleftrightarrow> q' = []" using tail q(2) last_task_in [of q' a] by auto
  show ?thesis
  proof (cases "q' = []")
    case True
    with assms q eq tail show ?thesis by (auto simp: take_task_def info_ok_def)
  next
    case False
    with eq q(2) have "take_task m ti = Some (ti\<lparr>t_head := ti_next i, t_pc := Q_Run a\<rparr>)" using q(3) by (simp add: take_task_def)
    with assms q tail False show ?thesis by (auto simp: info_ok_def)
  qed
qed

text \<open>A turn of a thread: it is defined once the thread is initialised, and touches only cells of its own.\<close>

lemma turn_defined:
  assumes "info_ok m ti q" "t_ready ti"
  shows "ev_task_info_func m ti \<noteq> Undefined"
proof (cases "t_pc ti = Q_Lock \<or> t_pc ti = Q_Wake")
  case True
  show ?thesis
  proof (cases "t_head ti = None")
    case False
    from take_task_ok [OF assms(1) False _ assms(2)] True obtain ti' where "take_task m ti = Some ti'" by auto
    with False True assms(2) show ?thesis by (auto simp: ev_task_info_func_def of_opt_def)
  qed (use True assms(2) in \<open>auto simp: ev_task_info_func_def\<close>)
next
  case False
  with assms show ?thesis
    by (auto simp: ev_task_info_func_def of_opt_def ran_task_def info_ok_def split: option.splits qpc.splits)
qed

definition own_turn :: "task_heap \<Rightarrow> ev_thread_info \<Rightarrow> nat list \<Rightarrow> task_heap \<Rightarrow> ev_thread_info \<Rightarrow> nat list \<Rightarrow> bool" where
  "own_turn m ti q m' ti' q' \<longleftrightarrow> info_ok m' ti' q' \<and> t_ready ti' \<and> (t_status ti = 0 \<longrightarrow> t_status ti' = 0) \<and>
     set (owned ti' q') \<subseteq> set (owned ti q) \<and> (\<forall>a. a \<notin> set (owned ti q) \<longrightarrow> m' a = m a) \<and> (\<forall>a. m a = None \<longrightarrow> m' a = None)"

lemma take_turn:
  assumes "info_ok m ti q" "t_ready ti" "t_head ti \<noteq> None" "running (t_pc ti) = []"
    and "of_opt (map_option (Pair m) (take_task m ti)) = Next (m', ti')"
  shows "\<exists>q'. own_turn m ti q m' ti' q'"
proof -
  from take_task_ok [OF assms(1,3,4,2)] obtain ti2 a q2 where
    "take_task m ti = Some ti2" "info_ok m ti2 q2" "owned ti2 q2 = q" "t_ready ti2 = t_ready ti" "t_status ti2 = t_status ti" by auto
  with assms show ?thesis by (intro exI [of _ q2]) (auto simp: of_opt_def own_turn_def)
qed

lemma worker_ok:
  assumes "info_ok m ti q" "t_ready ti" "ev_task_info_func m ti = Next (m', ti')"
  shows "\<exists>q'. own_turn m ti q m' ti' q'"
proof (cases "t_pc ti = Q_Lock \<or> t_pc ti = Q_Wake")
  case True
  show ?thesis
  proof (cases "t_head ti = None")
    case n: True
    with True assms show ?thesis
      by (intro exI [of _ q]) (auto simp: ev_task_info_func_def info_ok_def own_turn_def split: if_splits)
  next
    case False
    with True assms have "of_opt (map_option (Pair m) (take_task m ti)) = Next (m', ti')"
      by (auto simp: ev_task_info_func_def split: if_splits)
    with take_turn [OF assms(1,2) False] True show ?thesis by auto
  qed
next
  case False
  show ?thesis
  proof (cases "t_pc ti")
    case (Q_Run a)
    then obtain i where i: "m a = Some i" "a \<notin> set q" using assms by (auto simp: info_ok_def)
    with Q_Run assms(3) have m': "m' = m(a := None)" "ti' = ti\<lparr>t_run := t_run ti @ [ti_arg i], t_pc := Q_Lock\<rparr>"
      by (auto simp: ev_task_info_func_def of_opt_def ran_task_def)
    have "ti_chain m' (t_head ti) q = ti_chain m (t_head ti) q" "args_at m' q = args_at m q"
      unfolding m'(1) using i(2) by (intro ti_chain_cong args_at_cong; auto)+
    with assms Q_Run i have "info_ok m' ti' q" by (auto simp: info_ok_def m')
    with assms Q_Run m' show ?thesis by (intro exI [of _ q]) (auto simp: own_turn_def)
  qed (use False assms in \<open>auto simp: ev_task_info_func_def info_ok_def own_turn_def intro!: exI [of _ q]\<close>)
qed

text \<open>Linking the new cell \<open>a\<close>.\<close>

lemma link_task_ok:
  assumes "info_ok m ti q" "m a = None" "\<not> t_locked ti" "t_ready ti" "t_status ti = 0"
  shows "\<exists>m' ti'. link_task a (m(a \<mapsto> \<lparr>ti_arg = v, ti_next = None\<rparr>)) ti = Some (m', ti') \<and>
    info_ok m' (ti'\<lparr>t_added := t_added ti @ [v]\<rparr>) (q @ [a]) \<and> t_pc ti' = t_pc ti \<and> t_ready ti' \<and> t_status ti' = 0 \<and>
    (\<forall>b. b \<notin> insert a (set q) \<longrightarrow> m' b = m b)"
proof -
  let ?m = "m(a \<mapsto> \<lparr>ti_arg = v, ti_next = None\<rparr>)"
  have a: "a \<notin> set (owned ti q)" using assms(1,2) by (auto simp: info_ok_def)
  have ok: "info_ok ?m ti q" using a by (intro info_ok_frame [OF assms(1)]) auto
  have d: "t_dropped ti = []" using assms(1,5) by (simp add: info_ok_def)
  show ?thesis
  proof (cases q rule: rev_cases)
    case Nil
    with ok have "t_head ti = None" by (simp add: info_ok_def)
    with Nil ok a assms d show ?thesis by (auto simp: link_task_def info_ok_def)
  next
    case (snoc r t)
    have h: "t_head ti \<noteq> None" "t_tail ti = Some t" "ti_chain ?m (t_head ti) (r @ [t])" "distinct (r @ [t])"
      using ok snoc by (auto simp: info_ok_def)
    have "t \<in> dom ?m" using ok snoc by (simp add: info_ok_def)
    then obtain i where i: "?m t = Some i" by blast
    let ?m' = "?m(t \<mapsto> i\<lparr>ti_next := Some a\<rparr>)"
    have at: "a \<notin> set (r @ [t])" using a snoc by simp
    have lnk: "link_task a ?m ti = Some (?m', ti\<lparr>t_tail := Some a\<rparr>)" using h i by (cases "t_head ti") (simp_all add: link_task_def)
    have "ti_chain ?m' (t_head ti) (r @ [t, a])" by (rule ti_chain_snoc [OF h(3,4) i _ at]) simp
    moreover have "args_at ?m' (r @ [t]) = args_at ?m (r @ [t])" "args_at ?m' (running (t_pc ti)) = args_at ?m (running (t_pc ti))"
      using i by (auto simp: args_at_def)
    ultimately have "info_ok ?m' (ti\<lparr>t_tail := Some a, t_added := t_added ti @ [v]\<rparr>) (q @ [a])"
      using ok a d i at assms(3-5) snoc by (auto simp: info_ok_def)
    with lnk snoc assms show ?thesis by auto
  qed
qed

subsection \<open>The pool\<close>

lemma nth_upd: "ps[i := q] ! k = (if i = k \<and> k < length ps then q else ps ! k)"
  by (cases "i = k"; cases "k < length ps") (auto simp: list_update_beyond)

lemma set_info_simps [simp]:
  "infos (set_info k m ti pc p) = (infos p)[k := ti]" "u_pc (set_info k m ti pc p) = pc"
  "p_tasks (set_info k m ti pc p) = m" "p_fresh (set_info k m ti pc p) = p_fresh p"
  by (simp_all add: set_info_def)

lemma set_info_fresh: "(set_info k m ti pc p)\<lparr>p_fresh := p_fresh p\<rparr> = set_info k m ti pc p"
  by (simp add: set_info_def)

lemma pool_okD:
  assumes "pool_ok p qs" "k < length (infos p)"
  shows "info_ok (p_tasks p) (infos p ! k) (qs k)" "t_ready (infos p ! k) \<longleftrightarrow> u_pc p \<noteq> I_Init k"
    "ending (u_pc p) \<or> t_status (infos p ! k) = 0"
  using assms by (auto simp: pool_ok_def)

lemma pool_ok_below: "pool_ok p qs \<Longrightarrow> k < length (infos p) \<Longrightarrow> a \<in> set (owned (infos p ! k) (qs k)) \<Longrightarrow> a < p_fresh p"
  unfolding pool_ok_def info_ok_def by (meson domIff not_less subset_iff)

lemma pool_ok_apart:
  assumes "pool_ok p qs" "j < length (infos p)" "k < length (infos p)" "j \<noteq> k"
  shows "set (owned (infos p ! j) (qs j)) \<inter> set (owned (infos p ! k) (qs k)) = {}"
  using assms by (auto simp: pool_ok_def)

lemma pool_upc:
  assumes "pool_ok p qs" "\<And>i. i < length (infos p) \<Longrightarrow> pc = I_Init i \<longleftrightarrow> u_pc p = I_Init i"
    and "count_ok pc (length (infos p))" "ending (u_pc p) \<Longrightarrow> ending pc"
  shows "pool_ok (p\<lparr>u_pc := pc\<rparr>) qs"
  using assms by (simp add: pool_ok_def) blast

text \<open>Thread \<open>k\<close> changes, with cells of its own and new ones.\<close>

lemma pool_update:
  assumes "pool_ok p qs" "k < length (infos p)"
    and ti: "info_ok m ti q" "t_ready ti \<longleftrightarrow> pc \<noteq> I_Init k" "ending pc \<or> t_status ti = 0"
    and own: "set (owned ti q) \<subseteq> set (owned (infos p ! k) (qs k)) \<union> {a. p_fresh p \<le> a}"
    and keep: "\<And>a. a < p_fresh p \<Longrightarrow> a \<notin> set (owned (infos p ! k) (qs k)) \<Longrightarrow> m a = p_tasks p a"
    and f: "\<And>a. f \<le> a \<Longrightarrow> m a = None"
    and pc: "\<And>i. i < length (infos p) \<Longrightarrow> i \<noteq> k \<Longrightarrow> pc = I_Init i \<longleftrightarrow> u_pc p = I_Init i"
      "count_ok pc (length (infos p))" "ending (u_pc p) \<Longrightarrow> ending pc"
  shows "pool_ok ((set_info k m ti pc p)\<lparr>p_fresh := f\<rparr>) (qs(k := q))"
proof -
  let ?o = "\<lambda>i. set (owned (infos p ! i) (qs i))"
  let ?infos = "(infos p)[k := ti]"
  have other: "info_ok m (infos p ! i) (qs i)" if "i < length (infos p)" "i \<noteq> k" for i
    using that pool_ok_below [OF assms(1) that(1)] pool_ok_apart [OF assms(1) that(1) assms(2)] keep
    by (intro info_ok_frame [OF pool_okD(1) [OF assms(1) that(1)]]) blast
  have apart: "set (owned ti q) \<inter> ?o i = {}" if "i < length (infos p)" "i \<noteq> k" for i
    using own pool_ok_apart [OF assms(1) that(1) assms(2)] that pool_ok_below [OF assms(1) that(1)] by fastforce
  have one: "info_ok m (?infos ! i) ((qs(k := q)) i) \<and> (t_ready (?infos ! i) \<longleftrightarrow> pc \<noteq> I_Init i) \<and>
      (ending pc \<or> t_status (?infos ! i) = 0)" if "i < length (infos p)" for i
    using that other [OF that] ti pool_okD [OF assms(1) that] pc(1) [OF that] pc(3) assms(2) by (cases "i = k") auto
  have two: "set (owned (?infos ! i) ((qs(k := q)) i)) \<inter> set (owned (?infos ! j) ((qs(k := q)) j)) = {}"
    if "i < length (infos p)" "j < length (infos p)" "i \<noteq> j" for i j
    using that apart [OF that(1)] apart [OF that(2)] pool_ok_apart [OF assms(1) that] assms(2)
    by (cases "i = k"; cases "j = k") (simp_all add: Int_commute)
  show ?thesis using one two f pc(2) by (simp add: pool_ok_def)
qed

text \<open>The same without a new cell.\<close>

lemma pool_turn:
  assumes "pool_ok p qs" "k < length (infos p)"
    and "own_turn (p_tasks p) (infos p ! k) (qs k) m ti q" "u_pc p \<noteq> I_Init k"
  shows "\<exists>qs'. pool_ok (set_info k m ti (u_pc p) p) qs'"
proof -
  have "pool_ok ((set_info k m ti (u_pc p) p)\<lparr>p_fresh := p_fresh p\<rparr>) (qs(k := q))"
    using assms pool_okD [OF assms(1,2)] by (intro pool_update [OF assms(1,2)]) (auto simp: own_turn_def pool_ok_def)
  then show ?thesis by (auto simp: set_info_fresh)
qed

lemma pool_pc:
  assumes "pool_ok p qs" "k < length (infos p) \<Longrightarrow> info_ok (p_tasks p) ti (qs k) \<and> t_ready ti \<and>
      t_status ti = t_status (infos p ! k) \<and> running (t_pc ti) = running (t_pc (infos p ! k))"
    and "\<And>i. u_pc p \<noteq> I_Init i" "\<And>i. pc \<noteq> I_Init i" "\<And>i. pc \<noteq> I_Create i" "ending (u_pc p) \<Longrightarrow> ending pc"
  shows "pool_ok (set_info k (p_tasks p) ti pc p) qs"
proof (cases "k < length (infos p)")
  case True
  have "pool_ok ((set_info k (p_tasks p) ti pc p)\<lparr>p_fresh := p_fresh p\<rparr>) (qs(k := qs k))"
    using assms(2-) True pool_okD [OF assms(1) True] assms(1)
    by (intro pool_update [OF assms(1) True]) (auto simp: count_ok_def pool_ok_def split: upc.splits)
  then show ?thesis by (simp add: set_info_fresh)
next
  case False
  then have "set_info k (p_tasks p) ti pc p = p\<lparr>u_pc := pc\<rparr>" by (simp add: set_info_def list_update_beyond)
  moreover have "count_ok pc (length (infos p))" using assms(4,5) by (simp add: count_ok_def split: upc.splits)
  ultimately show ?thesis using assms(3-) by (auto intro!: pool_upc [OF assms(1)])
qed

lemma signal_ok:
  assumes "pool_ok p qs" "\<And>i. u_pc p \<noteq> I_Init i" "\<And>i. pc \<noteq> I_Init i" "\<And>i. pc \<noteq> I_Create i" "ending (u_pc p) \<Longrightarrow> ending pc"
  shows "pool_ok (set_info k (p_tasks p) (cond_signal_t (infos p ! k)) pc p) qs"
  using pool_okD [OF assms(1)] assms cond_signal_t_ok by (intro pool_pc) auto

text \<open>No call is undefined, except the waiting loop of \<open>ev_thread_pool_destroy\<close>.\<close>

lemma add_ok:
  assumes "pool_ok p qs"
  shows "ev_task_info_add k arg p \<noteq> Undefined \<and> (ev_task_info_add k arg p = Next p' \<longrightarrow> (\<exists>qs'. pool_ok p' qs'))"
proof (cases "u_pc p \<noteq> U_Ready \<or> length (infos p) \<le> k \<or> t_locked (infos p ! k)")
  case True
  then show ?thesis by (auto simp: ev_task_info_add_def Let_def)
next
  case False
  let ?ti = "infos p ! k" and ?a = "p_fresh p"
  have k: "k < length (infos p)" using False by simp
  have free: "p_tasks p ?a = None" using assms by (simp add: pool_ok_def)
  have st: "t_ready ?ti" "t_status ?ti = 0" using pool_okD(2,3) [OF assms k] False by (auto simp: ending_def)
  obtain m ti where l: "link_task ?a ((p_tasks p)(?a \<mapsto> \<lparr>ti_arg = arg, ti_next = None\<rparr>)) ?ti = Some (m, ti)"
      "info_ok m (ti\<lparr>t_added := t_added ?ti @ [arg]\<rparr>) (qs k @ [?a])" "t_pc ti = t_pc ?ti" "t_ready ti" "t_status ti = 0"
      "\<forall>b. b \<notin> insert ?a (set (qs k)) \<longrightarrow> m b = p_tasks p b"
    using link_task_ok [OF pool_okD(1) [OF assms k] free _ st, of arg] False by blast
  let ?p = "(set_info k m (ti\<lparr>t_added := t_added ?ti @ [arg]\<rparr>) (A_Signal k) p)\<lparr>p_fresh := ?a + 1\<rparr>"
  have "ev_task_info_add k arg p = Next ?p" using False l(1) by (simp add: ev_task_info_add_def Let_def of_opt_def)
  moreover have "pool_ok ?p (qs(k := qs k @ [?a]))"
  proof (rule pool_update [OF assms k l(2)])
    fix a assume "?a + 1 \<le> a"
    moreover from this have "a \<notin> insert ?a (set (qs k))" using pool_ok_below [OF assms k, of a] by auto
    ultimately show "m a = None" using l(6) assms by (auto simp: pool_ok_def)
  qed (use l False in \<open>auto simp: count_ok_def ending_def\<close>)
  ultimately show ?thesis by auto
qed

lemma destroy_ok:
  assumes "pool_ok p qs" "ev_thread_pool_destroy p = Next p'"
  shows "\<exists>qs'. pool_ok p' qs'"
proof (cases "u_pc p")
  case (D_Mark k)
  let ?ti = "infos p ! k"
  show ?thesis
  proof (cases "k < length (infos p)")
    case True
    let ?m = "p_tasks p |` (- set (qs k))"
    let ?t = "?ti\<lparr>t_status := t_status ?ti + 1, t_head := None, t_tail := None,
        t_dropped := t_dropped ?ti @ args_at (p_tasks p) (qs k)\<rparr>"
    have ok: "info_ok (p_tasks p) ?ti (qs k)" by (rule pool_okD(1) [OF assms(1) True])
    then have "free_tasks (p_tasks p) (t_head ?ti) [] = Some (?m, [] @ args_at (p_tasks p) (qs k))"
      by (intro free_tasks_chain) (auto simp: info_ok_def)
    with assms(2) D_Mark True have p': "p' = (set_info k ?m ?t (D_Signal k) p)\<lparr>p_fresh := p_fresh p\<rparr>"
      by (auto simp: ev_thread_pool_destroy_def Let_def of_opt_def set_info_fresh split: if_splits)
    have "ti_chain ?m None []" "args_at ?m (running (t_pc ?ti)) = args_at (p_tasks p) (running (t_pc ?ti))"
      using ok by (auto simp: info_ok_def args_at_def restrict_map_def)
    moreover have "set (running (t_pc ?ti)) \<subseteq> dom ?m" using ok by (simp add: info_ok_def) blast
    ultimately have "info_ok ?m ?t []" using ok by (simp add: info_ok_def)
    then have "pool_ok p' (qs(k := []))" unfolding p'
      using pool_okD [OF assms(1) True] D_Mark assms(1)
      by (intro pool_update [OF assms(1) True]) (auto simp: count_ok_def ending_def pool_ok_def restrict_map_def)
    then show ?thesis by blast
  next
    case False
    with assms(2) D_Mark have "p' = p\<lparr>u_pc := D_Check 0\<rparr>" by (simp add: ev_thread_pool_destroy_def)
    with D_Mark have "pool_ok p' qs" by (auto simp: count_ok_def ending_def intro!: pool_upc [OF assms(1)])
    then show ?thesis by blast
  qed
next
  case (D_Check k)
  with assms(2) have "p' = p\<lparr>u_pc := D_Again k\<rparr>" by (auto simp: ev_thread_pool_destroy_def split: if_splits)
  with D_Check have "pool_ok p' qs" by (auto simp: count_ok_def ending_def intro!: pool_upc [OF assms(1)])
  then show ?thesis by blast
qed (use assms in \<open>auto simp: ev_thread_pool_destroy_def ending_def intro!: exI [of _ qs] signal_ok\<close>)

lemma init_ok:
  assumes "pool_ok p qs" "ev_thread_pool_init p = Next p'"
  shows "\<exists>qs'. pool_ok p' qs'"
proof (cases "u_pc p")
  case (I_Create k)
  then have k: "length (infos p) = k" using assms(1) by (simp add: pool_ok_def count_ok_def)
  show ?thesis
  proof (cases "k < min_num p")
    case True
    let ?t = "\<lparr>t_status = 0, t_ready = False, t_locked = False, t_head = None, t_tail = None,
        t_pc = Q_Lock, t_added = [], t_run = [], t_dropped = []\<rparr>"
    have p': "p' = p\<lparr>infos := infos p @ [?t], u_pc := I_Init k\<rparr>" using assms(2) I_Create True by (simp add: ev_thread_pool_init_def)
    have nth: "(infos p @ [?t]) ! i = (if i < k then infos p ! i else ?t)" if "i < Suc k" for i
      using that k by (auto simp: nth_append less_Suc_eq)
    have "pool_ok p' (qs(k := []))" using assms(1) I_Create unfolding p' pool_ok_def
      by (auto simp: nth k count_ok_def ending_def info_ok_def less_Suc_eq)
    then show ?thesis by blast
  next
    case False
    with assms(2) I_Create have "p' = p\<lparr>u_pc := U_Ready\<rparr>" by (simp add: ev_thread_pool_init_def)
    with I_Create have "pool_ok p' qs" by (auto simp: count_ok_def ending_def intro!: pool_upc [OF assms(1)])
    then show ?thesis by blast
  qed
next
  case (I_Init k)
  then have k: "length (infos p) = Suc k" using assms(1) by (simp add: pool_ok_def count_ok_def)
  then have kl: "k < length (infos p)" by simp
  let ?t = "(infos p ! k)\<lparr>t_ready := True, t_head := None, t_tail := None\<rparr>"
  have p': "p' = (set_info k (p_tasks p) ?t (I_Create (k + 1)) p)\<lparr>p_fresh := p_fresh p\<rparr>"
    unfolding set_info_fresh using assms(2) I_Init by (simp add: ev_thread_pool_init_def)
  have "info_ok (p_tasks p) (infos p ! k) (qs k)" "\<not> t_ready (infos p ! k)" using pool_okD [OF assms(1) kl] I_Init by auto
  then have "info_ok (p_tasks p) ?t (qs k)" by (auto simp: info_ok_def)
  then have "pool_ok p' (qs(k := qs k))" unfolding p'
    using pool_okD(3) [OF assms(1) kl] I_Init assms(1)
    by (intro pool_update [OF assms(1) kl]) (auto simp: count_ok_def ending_def pool_ok_def k)
  then show ?thesis by blast
qed (use assms(2) in \<open>simp_all add: ev_thread_pool_init_def\<close>)

lemma worker_move_ok:
  assumes "pool_ok p qs" "worker_move k p = Next p'"
  shows "\<exists>qs'. pool_ok p' qs'"
proof -
  from assms(2) obtain m ti where t: "k < length (infos p)" "ev_task_info_func (p_tasks p) (infos p ! k) = Next (m, ti)"
      "p' = set_info k m ti (u_pc p) p"
    by (auto simp: worker_move_def split: if_splits outcome.splits)
  have ok: "info_ok (p_tasks p) (infos p ! k) (qs k)" by (rule pool_okD(1) [OF assms(1) t(1)])
  have r: "t_ready (infos p ! k)"
    using ok t(2) by (cases "t_ready (infos p ! k)") (auto simp: info_ok_def ev_task_info_func_def)
  then have "u_pc p \<noteq> I_Init k" using pool_okD(2) [OF assms(1) t(1)] by simp
  with worker_ok [OF ok r t(2)] pool_turn [OF assms(1) t(1)] t(3) show ?thesis by blast
qed

lemma tp_move_ok:
  assumes "pool_ok p qs" "tp_move m p = Next p'"
  shows "\<exists>qs'. pool_ok p' qs'"
proof (cases m)
  case T_Signal
  with assms show ?thesis
    by (auto simp: tp_move_def add_signal_def ending_def intro!: exI [of _ qs] signal_ok split: upc.splits)
next
  case T_Start_Destroy
  with assms(2) have "u_pc p = U_Ready" "p' = p\<lparr>u_pc := D_Mark 0\<rparr>" by (auto simp: tp_move_def split: if_splits)
  then have "pool_ok p' qs" by (auto simp: count_ok_def ending_def intro!: pool_upc [OF assms(1)])
  then show ?thesis by blast
next
  case (T_Spurious k)
  then have s: "k < length (infos p)" "t_pc (infos p ! k) = Q_Wait"
      "p' = set_info k (p_tasks p) ((infos p ! k)\<lparr>t_pc := Q_Wake\<rparr>) (u_pc p) p"
    using assms(2) by (auto simp: tp_move_def split: if_splits)
  have ok: "info_ok (p_tasks p) (infos p ! k) (qs k)" by (rule pool_okD(1) [OF assms(1) s(1)])
  then have "own_turn (p_tasks p) (infos p ! k) (qs k) (p_tasks p) ((infos p ! k)\<lparr>t_pc := Q_Wake\<rparr>) (qs k)"
    using s(2) by (auto simp: own_turn_def info_ok_def)
  moreover have "u_pc p \<noteq> I_Init k" using ok s(2) pool_okD(2) [OF assms(1) s(1)] by (auto simp: info_ok_def)
  ultimately show ?thesis unfolding s(3) by (rule pool_turn [OF assms(1) s(1)])
next
  case (T_Worker k)
  with assms worker_move_ok [of p qs k p'] show ?thesis by (simp add: tp_move_def)
next
  case T_Init
  with assms init_ok [of p qs p'] show ?thesis by (simp add: tp_move_def)
next
  case (T_Add k task)
  with assms add_ok [of p qs k task p'] show ?thesis by (simp add: tp_move_def)
next
  case T_Destroy
  with assms destroy_ok [of p qs p'] show ?thesis by (simp add: tp_move_def)
qed

lemma tp_run_ok: "tp_run ms p = Next p' \<Longrightarrow> pool_ok p qs \<Longrightarrow> \<exists>qs'. pool_ok p' qs'"
  by (induction ms arbitrary: p qs) (auto split: outcome.splits dest: tp_move_ok)

lemma new_pool_ok: "pool_ok (new_pool mn mx) (\<lambda>k. [])"
  by (simp add: pool_ok_def new_pool_def count_ok_def)

lemma pool_reaches: "tp_run ms (new_pool mn mx) = Next p \<Longrightarrow> \<exists>qs. pool_ok p qs"
  using tp_run_ok new_pool_ok by blast

subsection \<open>The calls of a schedule\<close>

text \<open>The arguments with which \<open>ev_task_info_add\<close> was called for thread \<open>k\<close>.\<close>

fun adds :: "nat \<Rightarrow> tmove list \<Rightarrow> nat list" where
  "adds k [] = []"
| "adds k (T_Add j arg # ms) = (if j = k then arg # adds k ms else adds k ms)"
| "adds k (_ # ms) = adds k ms"

definition added_of :: "nat \<Rightarrow> ev_thread_pool \<Rightarrow> nat list" where
  "added_of k p = (if k < length (infos p) then t_added (infos p ! k) else [])"

lemma worker_added: "ev_task_info_func m ti = Next (m', ti') \<Longrightarrow> t_added ti' = t_added ti"
  by (auto simp: ev_task_info_func_def take_task_def ran_task_def of_opt_def
      split: qpc.splits if_splits option.splits Option.bind_splits)

lemma link_added: "link_task a m ti = Some (m', ti') \<Longrightarrow> t_added ti' = t_added ti"
  by (auto simp: link_task_def split: if_splits Option.bind_splits)

lemma added_fresh [simp]: "added_of k (p\<lparr>p_fresh := f\<rparr>) = added_of k p" "added_of k (p\<lparr>u_pc := pc\<rparr>) = added_of k p"
  by (simp_all add: added_of_def)

lemma added_move:
  assumes "tp_move m p = Next p'"
  shows "added_of k p' = added_of k p @ adds k [m]"
proof (cases m)
  case (T_Worker j)
  with assms show ?thesis
    by (auto simp: tp_move_def worker_move_def added_of_def nth_upd dest: worker_added split: if_splits outcome.splits)
next
  case T_Init
  with assms show ?thesis
    by (auto simp: tp_move_def ev_thread_pool_init_def added_of_def nth_upd nth_append split: if_splits upc.splits)
next
  case (T_Add j arg)
  with assms show ?thesis
    by (auto simp: tp_move_def ev_task_info_add_def Let_def of_opt_def added_of_def nth_upd
        split: if_splits option.splits Option.bind_splits)
next
  case T_Destroy
  with assms show ?thesis
    by (auto simp: tp_move_def ev_thread_pool_destroy_def Let_def of_opt_def added_of_def nth_upd
        split: if_splits option.splits Option.bind_splits upc.splits)
qed (use assms in \<open>auto simp: tp_move_def add_signal_def added_of_def nth_upd split: if_splits upc.splits\<close>)

lemma adds_Cons: "adds k (m # ms) = adds k [m] @ adds k ms"
  by (cases m) auto

lemma added_run: "tp_run ms p = Next p' \<Longrightarrow> added_of k p' = added_of k p @ adds k ms"
proof (induction ms arbitrary: p)
  case (Cons m ms)
  then obtain p1 where "tp_move m p = Next p1" "tp_run ms p1 = Next p'" by (auto split: outcome.splits)
  with Cons.IH added_move show ?case by (simp add: adds_Cons [of k m ms])
qed simp

lemma tp_run_append: "tp_run (ms @ ns) p = (case tp_run ms p of Next p' \<Rightarrow> tp_run ns p' | x \<Rightarrow> x)"
  by (induction ms arbitrary: p) (auto split: outcome.splits)

text \<open>A thread that holds its mutex before its lock, for good.\<close>

definition lost :: "nat \<Rightarrow> ev_thread_pool \<Rightarrow> bool" where
  "lost k p \<longleftrightarrow> k < length (infos p) \<and> t_ready (infos p ! k) \<and> t_locked (infos p ! k) \<and> t_pc (infos p ! k) = Q_Lock"

lemma lost_move: "tp_move m p = Next p' \<Longrightarrow> lost k p \<Longrightarrow> lost k p'"
  by (cases m)
    (auto simp: tp_move_def worker_move_def ev_task_info_func_def ev_thread_pool_init_def ev_task_info_add_def
      add_signal_def ev_thread_pool_destroy_def lost_def nth_upd nth_append Let_def of_opt_def
      split: if_splits outcome.splits upc.splits option.splits Option.bind_splits)

lemma lost_run: "lost k p \<Longrightarrow> tp_run ms p = Next p' \<Longrightarrow> lost k p'"
  by (induction ms arbitrary: p) (auto split: outcome.splits dest: lost_move)

section \<open>Properties\<close>

text \<open>C35. The queue of each thread is first in, first out, under every schedule of the threads, of the user's calls
  and of spurious wake-ups. The links of the queue of thread \<open>k\<close> lead from \<open>head\<close> over distinct allocated tasks to null,
  \<open>tail\<close> being the last of them, and the arguments with which \<open>ev_task_info_add\<close> was called for the thread are, in that
  order and each once, those of the tasks run, of the one being run, of those that
  \<open>ev_thread_pool_destroy\<close> freed without running them, and of those in the queue; a thread whose \<open>status\<close> is 0, one not
  yet told to end, has had none freed. No call of \<open>ev_task_info_add\<close>, no turn of an initialised thread, and
  no step of \<open>ev_thread_pool_destroy\<close> before its waiting loop is undefined.\<close>

theorem pool_fifo:
  assumes "tp_run ms (new_pool mn mx) = Next p" "k < length (infos p)"
  shows "(\<exists>q. ti_chain (p_tasks p) (t_head (infos p ! k)) q \<and> t_tail (infos p ! k) = last_task q \<and>
       distinct (running (t_pc (infos p ! k)) @ q) \<and> set (running (t_pc (infos p ! k)) @ q) \<subseteq> dom (p_tasks p) \<and>
       adds k ms = t_run (infos p ! k) @ args_at (p_tasks p) (running (t_pc (infos p ! k))) @ t_dropped (infos p ! k) @
         args_at (p_tasks p) q) \<and>
     (t_status (infos p ! k) = 0 \<longrightarrow> t_dropped (infos p ! k) = []) \<and>
     tp_move (T_Add k arg) p \<noteq> Undefined \<and> (t_ready (infos p ! k) \<longrightarrow> tp_move (T_Worker k) p \<noteq> Undefined) \<and>
     (u_pc p = D_Mark k \<longrightarrow> tp_move T_Destroy p \<noteq> Undefined)"
proof -
  obtain qs where qs: "pool_ok p qs" using pool_reaches [OF assms(1)] by blast
  note ok = pool_okD(1) [OF qs assms(2)]
  have "t_added (infos p ! k) = adds k ms"
    using added_run [OF assms(1), of k] assms(2) by (simp add: added_of_def new_pool_def)
  moreover have "tp_move (T_Worker k) p \<noteq> Undefined" if "t_ready (infos p ! k)"
    using turn_defined [OF ok that] assms(2) by (auto simp: tp_move_def worker_move_def split: outcome.splits)
  moreover have "tp_move (T_Add k arg) p \<noteq> Undefined" using add_ok [OF qs] by (simp add: tp_move_def)
  moreover have "tp_move T_Destroy p \<noteq> Undefined" if "u_pc p = D_Mark k"
  proof -
    have "free_tasks (p_tasks p) (t_head (infos p ! k)) [] \<noteq> None"
      using ok free_tasks_chain [of "p_tasks p" "t_head (infos p ! k)" "qs k" "[]"] by (auto simp: info_ok_def)
    with that assms(2) show ?thesis by (auto simp: tp_move_def ev_thread_pool_destroy_def Let_def of_opt_def)
  qed
  ultimately show ?thesis using ok by (intro conjI exI [of _ "qs k"]) (auto simp: info_ok_def)
qed

text \<open>One task run, and three more added of which one is taken when the pool is destroyed: the other two are dropped.\<close>

definition some_tasks :: "tmove list" where
  "some_tasks = [T_Init, T_Init, T_Init, T_Add 0 7, T_Worker 0, T_Signal, T_Worker 0, T_Add 0 8, T_Signal, T_Add 0 9, T_Signal,
     T_Add 0 5, T_Worker 0, T_Signal, T_Start_Destroy, T_Destroy]"

lemma pool_fifo_witness:
  "\<exists>p. tp_run some_tasks (new_pool 1 1) = Next p \<and> adds 0 some_tasks = [7, 8, 9, 5] \<and> t_run (infos p ! 0) = [7] \<and>
     t_dropped (infos p ! 0) = [9, 5] \<and> args_at (p_tasks p) (running (t_pc (infos p ! 0))) = [8]"
proof -
  have "case tp_run some_tasks (new_pool 1 1) of
      Next p \<Rightarrow> length (infos p) = 1 \<and> t_run (infos p ! 0) = [7] \<and> t_dropped (infos p ! 0) = [9, 5] \<and> t_head (infos p ! 0) = None
    | _ \<Rightarrow> False" by code_simp
  then obtain p where p: "tp_run some_tasks (new_pool 1 1) = Next p" "length (infos p) = 1" "t_run (infos p ! 0) = [7]"
      "t_dropped (infos p ! 0) = [9, 5]" "t_head (infos p ! 0) = None"
    by (simp split: outcome.splits)
  moreover have "adds 0 some_tasks = [7, 8, 9, 5]" by code_simp
  ultimately show ?thesis using pool_fifo [OF p(1), of 0] by (intro exI [of _ p]) auto
qed

text \<open>C36. A thread that is woken while its queue is empty, while the pool is not being destroyed (its \<open>status\<close> is 0), is
  lost: it waits for the mutex that it holds itself, and under
  every further schedule its state stays as it is, so that adding to it and destroying the pool
  block for good. (A thread woken with an empty queue after \<open>ev_thread_pool_destroy\<close> has marked it, with a status
  other than 0, takes the other branch and returns.)\<close>

theorem pool_self_deadlock:
  assumes "k < length (infos p)" "t_ready (infos p ! k)" "t_pc (infos p ! k) = Q_Wake" "t_head (infos p ! k) = None"
    and "t_status (infos p ! k) = 0" "tp_run (T_Worker k # ms) p = Next p'"
  shows "t_pc (infos p' ! k) = Q_Lock \<and> tp_move (T_Worker k) p' = Blocked \<and> tp_move (T_Add k arg) p' = Blocked \<and>
    (u_pc p' = D_Mark k \<longrightarrow> tp_move T_Destroy p' = Blocked)"
proof -
  obtain p1 where p1: "tp_move (T_Worker k) p = Next p1" "tp_run ms p1 = Next p'"
    using assms(6) by (auto split: outcome.splits)
  have "lost k p1" using p1(1) assms(1-5) by (auto simp: tp_move_def worker_move_def ev_task_info_func_def lost_def)
  then have "lost k p'" using p1(2) by (rule lost_run)
  then show ?thesis
    by (auto simp: lost_def tp_move_def worker_move_def ev_task_info_func_def ev_task_info_add_def ev_thread_pool_destroy_def)
qed

lemma pool_self_deadlock_witness:
  "\<exists>p. tp_run [T_Init, T_Init, T_Init, T_Worker 0, T_Spurious 0, T_Worker 0] (new_pool 1 1) = Next p \<and>
     tp_move (T_Worker 0) p = Blocked"
proof -
  have "case tp_run [T_Init, T_Init, T_Init, T_Worker 0, T_Spurious 0] (new_pool 1 1) of
      Next p \<Rightarrow> length (infos p) = 1 \<and> t_ready (infos p ! 0) \<and> t_pc (infos p ! 0) = Q_Wake \<and> t_head (infos p ! 0) = None \<and>
        t_status (infos p ! 0) = 0 \<and> (case tp_run [T_Worker 0] p of Next p' \<Rightarrow> True | _ \<Rightarrow> False)
    | _ \<Rightarrow> False" by code_simp
  then obtain p p' where p: "tp_run [T_Init, T_Init, T_Init, T_Worker 0, T_Spurious 0] (new_pool 1 1) = Next p"
      "length (infos p) = 1" "t_ready (infos p ! 0)" "t_pc (infos p ! 0) = Q_Wake" "t_head (infos p ! 0) = None"
      "t_status (infos p ! 0) = 0" "tp_run [T_Worker 0] p = Next p'"
    by (simp split: outcome.splits)
  from pool_self_deadlock [of 0 p "[]" p'] p have "tp_move (T_Worker 0) p' = Blocked" by simp
  moreover have "tp_run ([T_Init, T_Init, T_Init, T_Worker 0, T_Spurious 0] @ [T_Worker 0]) (new_pool 1 1) = Next p'"
    unfolding tp_run_append p(1) using p(7) by simp
  ultimately show ?thesis by (intro exI [of _ p']) simp
qed

text \<open>No spurious wake-up is needed for that: \<open>ev_task_info_add\<close> signals after it has unlocked, so the thread may
  have run the task and be waiting again.\<close>

definition late_signal :: "tmove list" where
  "late_signal = [T_Init, T_Init, T_Init, T_Add 0 7, T_Worker 0, T_Worker 0, T_Worker 0, T_Signal, T_Worker 0]"

lemma pool_late_signal:
  "\<exists>p. tp_run late_signal (new_pool 1 1) = Next p \<and> t_locked (infos p ! 0) \<and> tp_move (T_Worker 0) p = Blocked"
proof -
  have "case tp_run late_signal (new_pool 1 1) of
      Next p \<Rightarrow> t_locked (infos p ! 0) \<and> (case tp_move (T_Worker 0) p of Blocked \<Rightarrow> True | _ \<Rightarrow> False) | _ \<Rightarrow> False" by code_simp
  then show ?thesis by (auto split: outcome.splits)
qed

text \<open>The threads start before their mutex is initialised: one that is fast enough locks it uninitialised.\<close>

lemma pool_init_race: "tp_run [T_Init, T_Worker 0] (new_pool 4 8) = Undefined"
proof -
  have "case tp_run [T_Init, T_Worker 0] (new_pool 4 8) of Undefined \<Rightarrow> True | _ \<Rightarrow> False" by code_simp
  then show ?thesis by (auto split: outcome.splits)
qed

end
