(* ===== verification/MainBak.thy ===== *)
theory MainBak
  imports Notify UtilNet
begin

text \<open>
  The program \<open>xxx/main-bak.c\<close>: nine tasks in a singly linked list without a lock. Four threads walk the list and
  claim a task by an atomic increment of its counter; the main thread sweeps the list whenever the event
  counter reports, marks the tasks with a result and frees marked ones. A pass of \<open>process_task\<close> is
  one step here, as is each atomic action of a thread. Freed memory is not reused. The pass has fuel for ten
  turns, and its end would look like undefined behaviour, but the list has nine tasks.
\<close>

section \<open>State\<close>

text \<open>What \<open>task->result\<close> holds: the bytes of fresh memory, a null pointer, or a text.\<close>

datatype result = Garbage | Null_Result | Text

record ev_task_t =
  k_next :: "nat option"
  k_finish :: int
  k_count :: nat
  k_result :: result

text \<open>A thread: at the test of its loop with its pointer; having claimed a task; before \<open>write\<close>; before
  \<open>p = p->next\<close>; returned.\<close>

datatype bpc = B_Start | B_At "nat option" | B_Func nat | B_Write nat | B_Next nat | B_Exit

datatype bmain = K_Wait | K_Read | K_Process | K_Return

record bak =
  k_heap :: "nat \<Rightarrow> ev_task_t option"
  k_efd :: efd
  k_pcs :: "bpc list"
  k_main :: bmain
  k_ran :: "nat list"

section \<open>The list\<close>

text \<open>\<open>task_alloc\<close> sets every field but \<open>result\<close>.\<close>

definition task_alloc :: ev_task_t where
  "task_alloc = \<lparr>k_next = None, k_finish = 0, k_count = 0, k_result = Garbage\<rparr>"

text \<open>\<open>task_add\<close> on the heap; its assignment to its own parameter has no effect.\<close>

definition task_add :: "nat \<Rightarrow> nat \<Rightarrow> (nat \<Rightarrow> ev_task_t option) \<Rightarrow> (nat \<Rightarrow> ev_task_t option) option" where
  "task_add tail task h = do { t \<leftarrow> h tail; Some (h(tail \<mapsto> t\<lparr>k_next := Some task\<rparr>)) }"

text \<open>The loop of \<open>main\<close> that makes the tasks \<open>1\<close> to \<open>9\<close>; the head is \<open>0\<close>.\<close>

fun make_tasks :: "nat list \<Rightarrow> nat \<Rightarrow> (nat \<Rightarrow> ev_task_t option) \<Rightarrow> (nat \<Rightarrow> ev_task_t option) option" where
  "make_tasks [] tail h = Some h"
| "make_tasks (task # ts) tail h = do { h1 \<leftarrow> task_add tail task (h(task \<mapsto> task_alloc)); make_tasks ts task h1 }"

definition task_destroy :: "nat \<Rightarrow> (nat \<Rightarrow> ev_task_t option) \<Rightarrow> nat \<Rightarrow> ev_task_t option" where
  "task_destroy p h = h(p := None)"

text \<open>A task with a result that is not null is printed and marked.\<close>

definition mark :: "ev_task_t \<Rightarrow> ev_task_t" where
  "mark t = (if k_finish t = 0 \<and> k_result t \<noteq> Null_Result then t\<lparr>k_finish := 1\<rparr> else t)"

text \<open>\<open>process_task\<close> from its loop on; \<open>fuel\<close> bounds the turns. \<^term>\<open>None\<close> is undefined behaviour: a freed task, or
  a result that was never set.\<close>

fun sweep :: "nat \<Rightarrow> nat \<Rightarrow> nat \<Rightarrow> nat option \<Rightarrow> (nat \<Rightarrow> ev_task_t option) \<Rightarrow> (nat \<Rightarrow> ev_task_t option) option" where
  "sweep fuel head before None h = Some h"
| "sweep 0 head before (Some p) h = None"
| "sweep (Suc fuel) head before (Some p) h = do {
     t \<leftarrow> h p;
     pr \<leftarrow> h before;
     if k_finish t \<noteq> 0 \<and> (k_finish pr \<noteq> 0 \<or> before = head)
     then sweep fuel head before (k_next t) (task_destroy p (h(before \<mapsto> pr\<lparr>k_next := k_next t\<rparr>)))
     else if k_finish t = 0 \<and> k_result t = Garbage then None
     else sweep fuel head p (k_next t) (h(p \<mapsto> mark t))
   }"

definition process_task_bak :: "nat \<Rightarrow> (nat \<Rightarrow> ev_task_t option) \<Rightarrow> (nat \<Rightarrow> ev_task_t option) option" where
  "process_task_bak head h = do { t \<leftarrow> h head; sweep 10 head head (k_next t) h }"

section \<open>The threads and the main thread\<close>

text \<open>The task's function reads the file; \<open>found\<close>: it could be opened and read.\<close>

definition task_func_bak :: "nat \<Rightarrow> cfile option \<Rightarrow> buf call option" where
  "task_func_bak fuel fp = read_file fuel fp"

definition thread_func_bak :: "bool \<Rightarrow> nat \<Rightarrow> bak \<Rightarrow> bak outcome" where
  "thread_func_bak found i s =
     (let goto = (\<lambda>pc s. s\<lparr>k_pcs := (k_pcs s)[i := pc]\<rparr>) in
      case k_pcs s ! i of
        B_Start \<Rightarrow> (case k_heap s 0 of None \<Rightarrow> Undefined | Some t \<Rightarrow> Next (goto (B_At (k_next t)) s))
      | B_At None \<Rightarrow> Next (goto B_Exit s)
      | B_At (Some p) \<Rightarrow>
          (case k_heap s p of
             None \<Rightarrow> Undefined
           | Some t \<Rightarrow>
               Next (goto (if k_count t = 0 then B_Func p else B_Next p)
                 (s\<lparr>k_heap := (k_heap s)(p \<mapsto> t\<lparr>k_count := k_count t + 1\<rparr>)\<rparr>)))
      | B_Func p \<Rightarrow>
          (case k_heap s p of
             None \<Rightarrow> Undefined
           | Some t \<Rightarrow>
               Next (goto (B_Write p)
                 (s\<lparr>k_heap := (k_heap s)(p \<mapsto> t\<lparr>k_result := (if found then Text else Null_Result)\<rparr>),
                    k_ran := k_ran s @ [p]\<rparr>)))
      | B_Write p \<Rightarrow>
          (case k_heap s p of
             None \<Rightarrow> Undefined
           | Some t \<Rightarrow> Next (goto (B_Next p) (s\<lparr>k_efd := efd_post 1 (k_efd s)\<rparr>)))
      | B_Next p \<Rightarrow> (case k_heap s p of None \<Rightarrow> Undefined | Some t \<Rightarrow> Next (goto (B_At (k_next t)) s))
      | B_Exit \<Rightarrow> Blocked)"

definition main_bak :: bak where
  "main_bak =
     \<lparr>k_heap = the (make_tasks [1, 2, 3, 4, 5, 6, 7, 8, 9] 0 [0 \<mapsto> task_alloc]), k_efd = efd_new,
      k_pcs = replicate 4 B_Start, k_main = K_Wait, k_ran = []\<rparr>"

definition bak_loop :: "bool \<Rightarrow> bak \<Rightarrow> bak outcome" where
  "bak_loop expired s =
     (case k_main s of
        K_Wait \<Rightarrow>
          (if efd_ready (k_efd s) then Next (s\<lparr>k_efd := efd_wake (k_efd s), k_main := K_Read\<rparr>)
           else if expired then Next (s\<lparr>k_main := K_Return\<rparr>)
           else Blocked)
      | K_Read \<Rightarrow> Next (s\<lparr>k_efd := efd_read (k_efd s), k_main := K_Process\<rparr>)
      | K_Process \<Rightarrow>
          (case process_task_bak 0 (k_heap s) of
             None \<Rightarrow> Undefined
           | Some h \<Rightarrow> Next (s\<lparr>k_heap := h, k_main := K_Wait\<rparr>))
      | K_Return \<Rightarrow> Blocked)"

datatype bmove = B_Thread nat bool | B_Main | B_Expire

definition bak_move :: "bmove \<Rightarrow> bak \<Rightarrow> bak outcome" where
  "bak_move m s =
     (case m of
        B_Thread i found \<Rightarrow>
          (if k_main s \<noteq> K_Return \<and> i < length (k_pcs s) then thread_func_bak found i s else Blocked)
      | B_Main \<Rightarrow> bak_loop False s
      | B_Expire \<Rightarrow> bak_loop True s)"

fun bak_run :: "bmove list \<Rightarrow> bak \<Rightarrow> bak outcome" where
  "bak_run [] s = Next s"
| "bak_run (m # ms) s = (case bak_move m s of Next s' \<Rightarrow> bak_run ms s' | x \<Rightarrow> x)"

section \<open>Claims are exclusive\<close>

fun claim :: "bpc \<Rightarrow> nat list" where
  "claim (B_Func p) = [p]"
| "claim _ = []"

text \<open>No task is run twice, or run and still claimed; a task that was claimed has a counter above 0 as long as it
  is not freed.\<close>

definition bak_inv :: "bak \<Rightarrow> bool" where
  "bak_inv s \<longleftrightarrow> distinct (k_ran s @ concat (map claim (k_pcs s))) \<and>
     (\<forall>p \<in> set (k_ran s @ concat (map claim (k_pcs s))). \<forall>t. k_heap s p = Some t \<longrightarrow> 0 < k_count t)"

text \<open>A sweep frees tasks and changes marks and links, not counters.\<close>

definition same_counts :: "(nat \<Rightarrow> ev_task_t option) \<Rightarrow> (nat \<Rightarrow> ev_task_t option) \<Rightarrow> bool" where
  "same_counts h h' \<longleftrightarrow> (\<forall>p t'. h' p = Some t' \<longrightarrow> (\<exists>t. h p = Some t \<and> k_count t = k_count t'))"

lemma same_counts_trans: "same_counts h h1 \<Longrightarrow> same_counts h1 h2 \<Longrightarrow> same_counts h h2"
  unfolding same_counts_def by metis

lemma sweep_counts: "sweep fuel head before p h = Some h' \<Longrightarrow> same_counts h h'"
proof (induction fuel head before p h rule: sweep.induct)
  case (3 fuel head before p h)
  from "3.prems" obtain t pr where t: "h p = Some t" "h before = Some pr" by (auto split: Option.bind_splits)
  show ?case
  proof (cases "k_finish t \<noteq> 0 \<and> (k_finish pr \<noteq> 0 \<or> before = head)")
    case True
    then have "same_counts (task_destroy p (h(before \<mapsto> pr\<lparr>k_next := k_next t\<rparr>))) h'"
      using "3.IH"(1) [OF t True] "3.prems" t by simp
    moreover have "same_counts h (task_destroy p (h(before \<mapsto> pr\<lparr>k_next := k_next t\<rparr>)))"
      using t by (auto simp: same_counts_def task_destroy_def)
    ultimately show ?thesis by (rule same_counts_trans [rotated])
  next
    case False
    have g: "\<not> (k_finish t = 0 \<and> k_result t = Garbage)" using "3.prems" t False by (auto split: if_splits)
    have "same_counts (h(p \<mapsto> mark t)) h'"
      using "3.IH"(2) [OF t False g] "3.prems" t False g by (simp add: fun_upd_def split: if_splits)
    moreover have "same_counts h (h(p \<mapsto> mark t))" using t by (auto simp: same_counts_def mark_def)
    ultimately show ?thesis by (rule same_counts_trans [rotated])
  qed
qed (auto simp: same_counts_def)

lemma claims_update:
  "i < length ps \<Longrightarrow> mset (concat (map claim (ps[i := p]))) + mset (claim (ps ! i)) = mset (concat (map claim ps)) + mset (claim p)"
  using in_hands_update [of i ps claim p] by (simp add: in_hands_def)

text \<open>The tasks run or claimed, in either order, and the counters.\<close>

definition claimed :: "bak \<Rightarrow> nat list" where
  "claimed s = k_ran s @ concat (map claim (k_pcs s))"

lemma bak_inv_claimed:
  "bak_inv s \<longleftrightarrow> distinct (claimed s) \<and> (\<forall>p \<in> set (claimed s). \<forall>t. k_heap s p = Some t \<longrightarrow> 0 < k_count t)"
  by (simp add: bak_inv_def claimed_def)

lemma bak_inv_same:
  assumes "bak_inv s" "mset (claimed s') = mset (claimed s)"
    and "\<And>p t'. k_heap s' p = Some t' \<Longrightarrow> \<exists>t. k_heap s p = Some t \<and> k_count t \<le> k_count t'"
  shows "bak_inv s'"
proof -
  have "distinct (claimed s')" "set (claimed s') = set (claimed s)"
    using assms(1) mset_eq_imp_distinct_iff [OF assms(2)] mset_eq_setD [OF assms(2)] by (auto simp: bak_inv_claimed)
  with assms(1,3) show ?thesis unfolding bak_inv_claimed by (metis order.strict_trans2)
qed

lemma thread_func_bak_inv:
  assumes v: "bak_inv s" and i: "i < length (k_pcs s)" and t: "thread_func_bak found i s = Next s'"
  shows "bak_inv s'"
proof (cases "k_pcs s ! i")
  case (B_At q)
  show ?thesis
  proof (cases q)
    case None
    with t i B_At claims_update [of i "k_pcs s" B_Exit] show ?thesis
      by (intro bak_inv_same [OF v]) (auto simp: thread_func_bak_def claimed_def)
  next
    case (Some p)
    with t B_At obtain tk where tk: "k_heap s p = Some tk" by (auto simp: thread_func_bak_def split: option.splits)
    let ?h = "(k_heap s)(p \<mapsto> tk\<lparr>k_count := k_count tk + 1\<rparr>)"
    show ?thesis
    proof (cases "k_count tk = 0")
      case True
      then have new: "p \<notin> set (claimed s)" using v tk by (auto simp: bak_inv_claimed)
      have s': "s' = s\<lparr>k_heap := ?h, k_pcs := (k_pcs s)[i := B_Func p]\<rparr>"
        using t B_At Some tk True by (simp add: thread_func_bak_def)
      have m: "mset (claimed s') = mset (p # claimed s)"
        using claims_update [OF i, of "B_Func p"] B_At by (simp add: s' claimed_def)
      have "distinct (claimed s')" "set (claimed s') = insert p (set (claimed s))"
        using v new mset_eq_imp_distinct_iff [OF m] mset_eq_setD [OF m] by (auto simp: bak_inv_claimed)
      with v show ?thesis by (auto simp: bak_inv_claimed s')
    next
      case False
      then have s': "s' = s\<lparr>k_heap := ?h, k_pcs := (k_pcs s)[i := B_Next p]\<rparr>"
        using t B_At Some tk by (simp add: thread_func_bak_def)
      show ?thesis
        by (rule bak_inv_same [OF v]) (use claims_update [OF i, of "B_Next p"] B_At tk in
          \<open>auto simp: s' claimed_def split: if_splits\<close>)
    qed
  qed
next
  case (B_Func p)
  with t obtain tk where tk: "k_heap s p = Some tk" by (auto simp: thread_func_bak_def split: option.splits)
  with t B_Func claims_update [OF i, of "B_Write p"] show ?thesis
    by (intro bak_inv_same [OF v]) (auto simp: thread_func_bak_def claimed_def split: if_splits)
next
  case B_Start
  with t claims_update [OF i] show ?thesis
    by (intro bak_inv_same [OF v]) (auto simp: thread_func_bak_def claimed_def split: option.splits)
next
  case (B_Write p)
  with t claims_update [OF i] show ?thesis
    by (intro bak_inv_same [OF v]) (auto simp: thread_func_bak_def claimed_def split: option.splits)
next
  case (B_Next p)
  with t claims_update [OF i] show ?thesis
    by (intro bak_inv_same [OF v]) (auto simp: thread_func_bak_def claimed_def split: option.splits)
next
  case B_Exit
  with t show ?thesis by (simp add: thread_func_bak_def)
qed

lemma bak_loop_inv:
  assumes "bak_inv s" "bak_loop b s = Next s'"
  shows "bak_inv s'"
proof -
  have "k_ran s' = k_ran s \<and> k_pcs s' = k_pcs s \<and> same_counts (k_heap s) (k_heap s')"
    using assms(2) by (auto simp: bak_loop_def process_task_bak_def same_counts_def
      dest: sweep_counts split: bmain.splits if_splits option.splits Option.bind_splits)
  with assms(1) show ?thesis by (fastforce simp: bak_inv_def same_counts_def)
qed

lemma bak_run_inv: "bak_run ms s = Next s' \<Longrightarrow> bak_inv s \<Longrightarrow> bak_inv s'"
proof (induction ms arbitrary: s)
  case (Cons m ms)
  then obtain s1 where s1: "bak_move m s = Next s1" "bak_run ms s1 = Next s'" by (auto split: outcome.splits)
  then have "bak_inv s1"
    using Cons.prems(2) by (auto simp: bak_move_def intro: thread_func_bak_inv bak_loop_inv split: bmove.splits if_splits)
  with Cons.IH s1(2) show ?case by blast
qed simp

lemma main_bak_inv: "bak_inv main_bak"
  by (simp add: bak_inv_claimed claimed_def main_bak_def map_replicate_const)

section \<open>A sweep\<close>

text \<open>The tasks \<open>as\<close> are linked from \<open>p\<close> to the end.\<close>

fun chain :: "(nat \<Rightarrow> ev_task_t option) \<Rightarrow> nat option \<Rightarrow> nat list \<Rightarrow> bool" where
  "chain h p [] \<longleftrightarrow> p = None"
| "chain h p (a # as) \<longleftrightarrow> p = Some a \<and> (\<exists>t. h a = Some t \<and> chain h (k_next t) as)"

lemma chain_upd [simp]: "a \<notin> set as \<Longrightarrow> chain (h(a := x)) p as = chain h p as"
  by (induction as arbitrary: p) auto

text \<open>A pass over marked tasks from the head frees them all.\<close>

lemma sweep_frees:
  "chain h p as \<Longrightarrow> length as \<le> fuel \<Longrightarrow> distinct (hd0 # as) \<Longrightarrow> h hd0 = Some t0 \<Longrightarrow> k_next t0 = p \<Longrightarrow>
     \<forall>a \<in> set as. \<forall>t. h a = Some t \<longrightarrow> k_finish t \<noteq> 0 \<Longrightarrow>
     sweep fuel hd0 hd0 p h = Some ((h |` (- set as))(hd0 \<mapsto> t0\<lparr>k_next := None\<rparr>))"
proof (induction as arbitrary: h p fuel t0)
  case Nil
  then show ?case by (cases t0) (auto simp: fun_eq_iff)
next
  case (Cons a as)
  then obtain f where f: "fuel = Suc f" "length as \<le> f" by (cases fuel) auto
  obtain t where t: "h a = Some t" "chain h (k_next t) as" "p = Some a" using Cons.prems(1) by auto
  let ?h = "h(hd0 \<mapsto> t0\<lparr>k_next := k_next t\<rparr>, a := None)"
  have c: "chain ?h (k_next t) as" using t(2) Cons.prems(3) by simp
  have m: "\<forall>b \<in> set as. \<forall>t. ?h b = Some t \<longrightarrow> k_finish t \<noteq> 0" using Cons.prems(3,6) by (auto split: if_splits)
  have "sweep f hd0 hd0 (k_next t) ?h =
      Some ((?h |` (- set as))(hd0 \<mapsto> (t0\<lparr>k_next := k_next t\<rparr>)\<lparr>k_next := None\<rparr>))"
    by (rule Cons.IH [OF c f(2) _ _ _ m]) (use Cons.prems(3) in auto)
  moreover have "sweep fuel hd0 hd0 p h = sweep f hd0 hd0 (k_next t) ?h"
    using f t Cons.prems(4,6) by (simp add: task_destroy_def)
  moreover have "(?h |` (- set as))(hd0 \<mapsto> t0\<lparr>k_next := None\<rparr>) = (h |` (- set (a # as)))(hd0 \<mapsto> t0\<lparr>k_next := None\<rparr>)"
    using Cons.prems(3) by (auto simp: restrict_map_def fun_eq_iff)
  ultimately have "sweep fuel hd0 hd0 p h = Some ((h |` (- set (a # as)))(hd0 \<mapsto> t0\<lparr>k_next := None\<rparr>))" by simp
  then show ?case by (simp only: fun_upd_def)
qed

text \<open>A pass over tasks with a text that are not marked marks them.\<close>

definition mark_all :: "nat list \<Rightarrow> (nat \<Rightarrow> ev_task_t option) \<Rightarrow> nat \<Rightarrow> ev_task_t option" where
  "mark_all as h = (\<lambda>a. if a \<in> set as then map_option mark (h a) else h a)"

lemma sweep_marks:
  "chain h p as \<Longrightarrow> length as \<le> fuel \<Longrightarrow> distinct (before # as) \<Longrightarrow> h before \<noteq> None \<Longrightarrow>
     \<forall>a \<in> set as. \<forall>t. h a = Some t \<longrightarrow> k_finish t = 0 \<and> k_result t = Text \<Longrightarrow>
     sweep fuel hd0 before p h = Some (mark_all as h)"
proof (induction as arbitrary: h p fuel before)
  case Nil
  then show ?case by (simp add: mark_all_def)
next
  case (Cons a as)
  then obtain f where f: "fuel = Suc f" "length as \<le> f" by (cases fuel) auto
  obtain t where t: "h a = Some t" "chain h (k_next t) as" "p = Some a" using Cons.prems(1) by auto
  let ?h = "h(a \<mapsto> mark t)"
  have c: "chain ?h (k_next t) as" using t(2) Cons.prems(3) by simp
  have m: "\<forall>b \<in> set as. \<forall>t. ?h b = Some t \<longrightarrow> k_finish t = 0 \<and> k_result t = Text"
    using Cons.prems(3,5) by auto
  have "sweep f hd0 a (k_next t) ?h = Some (mark_all as ?h)"
    by (rule Cons.IH [OF c f(2) _ _ m]) (use Cons.prems(3) in auto)
  moreover have "sweep fuel hd0 before p h = sweep f hd0 a (k_next t) ?h"
    using f t Cons.prems(4,5) by auto
  moreover have "mark_all as ?h = mark_all (a # as) h"
    using t(1) Cons.prems(3) by (auto simp: mark_all_def fun_eq_iff)
  ultimately show ?case by simp
qed

section \<open>Properties\<close>

text \<open>C37. The atomic counters do their work: under every schedule no task is run twice, nor run by one thread while
  another has claimed it.\<close>

theorem bak_claims_exclusive:
  assumes "bak_run ms main_bak = Next s"
  shows "distinct (k_ran s @ concat (map claim (k_pcs s)))"
  using bak_run_inv [OF assms main_bak_inv] by (simp add: bak_inv_def)

lemma bak_claims_exclusive_witness:
  "\<exists>s. bak_run [B_Thread 0 True, B_Thread 1 True, B_Thread 0 True, B_Thread 1 True, B_Thread 0 True] main_bak = Next s \<and>
     distinct (k_ran s @ concat (map claim (k_pcs s)))"
proof -
  let ?ms = "[B_Thread 0 True, B_Thread 1 True, B_Thread 0 True, B_Thread 1 True, B_Thread 0 True]"
  have "case bak_run ?ms main_bak of Next s \<Rightarrow> True | _ \<Rightarrow> False" by code_simp
  then obtain s where "bak_run ?ms main_bak = Next s" by (simp split: outcome.splits)
  with bak_claims_exclusive [OF this] show ?thesis by blast
qed

text \<open>Once every task of the list has its text and no thread walks the list, two passes of \<open>process_task\<close>
  dispose of the list: the first marks every task, the second frees all but the head.\<close>

lemma bak_two_passes:
  assumes "chain h (k_next t0) as" "length as \<le> 10" "distinct (hd0 # as)" "h hd0 = Some t0"
    and "\<forall>a \<in> set as. \<forall>t. h a = Some t \<longrightarrow> k_finish t = 0 \<and> k_result t = Text"
  shows "(do { h1 \<leftarrow> process_task_bak hd0 h; process_task_bak hd0 h1 }) =
    Some ((h |` (- set as))(hd0 \<mapsto> t0\<lparr>k_next := None\<rparr>))"
proof -
  let ?h1 = "mark_all as h"
  have p1: "process_task_bak hd0 h = Some ?h1"
    using sweep_marks [of h "k_next t0" as 10 hd0 hd0] assms by (simp add: process_task_bak_def)
  have ht: "?h1 hd0 = Some t0" using assms(3,4) by (simp add: mark_all_def)
  have next_mark: "k_next (mark t) = k_next t" for t by (simp add: mark_def)
  have "chain h p bs \<Longrightarrow> chain ?h1 p bs" for p bs
    by (induction bs arbitrary: p) (auto simp: mark_all_def next_mark)
  then have c: "chain ?h1 (k_next t0) as" using assms(1) by simp
  have fin: "\<forall>a \<in> set as. \<forall>t. ?h1 a = Some t \<longrightarrow> k_finish t \<noteq> 0"
  proof (intro ballI allI impI)
    fix a t assume "a \<in> set as" "?h1 a = Some t"
    then obtain t1 where "h a = Some t1" "t = mark t1" by (auto simp: mark_all_def)
    with assms(5) \<open>a \<in> set as\<close> show "k_finish t \<noteq> 0" by (simp add: mark_def)
  qed
  have "sweep 10 hd0 hd0 (k_next t0) ?h1 = Some ((?h1 |` (- set as))(hd0 \<mapsto> t0\<lparr>k_next := None\<rparr>))"
    by (rule sweep_frees [OF c assms(2,3) ht refl fin])
  moreover have "?h1 |` (- set as) = h |` (- set as)" by (auto simp: mark_all_def restrict_map_def fun_eq_iff)
  moreover have "process_task_bak hd0 ?h1 = sweep 10 hd0 hd0 (k_next t0) ?h1" by (simp add: process_task_bak_def ht)
  ultimately show ?thesis unfolding p1 by (simp only: bind.bind_lunit)
qed

lemma bak_two_passes_witness:
  "(do { h1 \<leftarrow> process_task_bak 0 [0 \<mapsto> task_alloc\<lparr>k_next := Some 1\<rparr>, 1 \<mapsto> task_alloc\<lparr>k_result := Text\<rparr>];
         process_task_bak 0 h1 }) = Some [0 \<mapsto> task_alloc]"
proof -
  let ?h = "[0 \<mapsto> task_alloc\<lparr>k_next := Some 1\<rparr>, 1 \<mapsto> task_alloc\<lparr>k_result := Text\<rparr>]"
  have e: "(?h |` (- set [1]))(0 \<mapsto> (task_alloc\<lparr>k_next := Some 1\<rparr>)\<lparr>k_next := None\<rparr>) = [0 \<mapsto> task_alloc]"
    by (rule ext) (simp add: task_alloc_def restrict_map_def)
  show ?thesis unfolding e [symmetric]
    by (rule bak_two_passes) (simp_all add: task_alloc_def)
qed

text \<open>\<open>task_alloc\<close> leaves \<open>result\<close> uninitialised and \<open>process_task\<close> reads it: the first notification, after
  the first task, already makes the main thread read the indeterminate result of the second.\<close>

definition first_notification :: "bmove list" where
  "first_notification = [B_Thread 0 True, B_Thread 0 True, B_Thread 0 True, B_Thread 0 True, B_Main, B_Main, B_Main]"

lemma bak_reads_garbage: "bak_run first_notification main_bak = Undefined"
proof -
  have "case bak_run first_notification main_bak of Undefined \<Rightarrow> True | _ \<Rightarrow> False" by code_simp
  then show ?thesis by (simp split: outcome.splits)
qed

end
