(* ===== verification/Esm.thy ===== *)
theory Esm
  imports UtilNet
begin

text \<open>
  The module loader \<open>src/esm/esm.cc\<close> and the program around it, \<open>src/main.cc\<close>: paths are resolved with \<open>util.c\<close>,
  sources read from files or over HTTP, compiled by V8, and each module's path is kept in a map from the
  module's identity hash, from which the paths of its imports are resolved. The paths are \<open>malloc\<close>ed strings, freed
  by \<open>esm_destroy\<close> or on the failure path of \<open>esm_init\<close>.

  V8 is a parameter: what compiling a text under a name gives (the identity hash of a module, or nothing), which
  imports it asks for while it links (the hash of the importing module and the specifier, in order), whether
  it finds the graph linked, and how evaluation ends.
\<close>

section \<open>State\<close>

text \<open>A computation has undefined behaviour, does not end, or is done.\<close>

datatype 'a run_result = Undef | Spins | Done 'a

definition andthen :: "'a run_result \<Rightarrow> ('a \<Rightarrow> 'b run_result) \<Rightarrow> 'b run_result" where
  "andthen r f = (case r of Undef \<Rightarrow> Undef | Spins \<Rightarrow> Spins | Done a \<Rightarrow> f a)"

definition known :: "'a option \<Rightarrow> 'a run_result" where
  "known x = (case x of None \<Rightarrow> Undef | Some a \<Rightarrow> Done a)"

datatype evaluation = Eval_Fails | Eval_Settled | Eval_Pending

record host =
  hs_cwd :: "string option"
  hs_files :: "string \<Rightarrow> cfile option"
  hs_fuel :: nat
  hs_resolves :: "string \<Rightarrow> bool"
  hs_peer :: "string \<Rightarrow> int \<Rightarrow> string \<Rightarrow> string list"
  hs_compile :: "string \<Rightarrow> string \<Rightarrow> int option"
  hs_imports :: "(int \<times> string) list"
  hs_linked :: bool
  hs_eval :: evaluation

text \<open>\<open>module_path_map\<close>, the strings on the heap, and the next address.\<close>

record esm =
  module_path_map :: "(int \<times> nat) list"
  es_mem :: "nat \<Rightarrow> string option"
  es_next :: nat

definition esm_start :: esm where
  "esm_start = \<lparr>module_path_map = [], es_mem = Map.empty, es_next = 0\<rparr>"

text \<open>\<open>unordered_map::insert\<close> leaves an entry with the same key as it is.\<close>

definition map_insert :: "int \<Rightarrow> nat \<Rightarrow> (int \<times> nat) list \<Rightarrow> (int \<times> nat) list" where
  "map_insert k a m = (if map_of m k = None then m @ [(k, a)] else m)"

definition new_string :: "string \<Rightarrow> esm \<Rightarrow> esm" where
  "new_string s st = st\<lparr>es_mem := (es_mem st)(es_next st \<mapsto> s), es_next := es_next st + 1\<rparr>"

definition free_string :: "nat \<Rightarrow> esm \<Rightarrow> esm run_result" where
  "free_string a st = (if es_mem st a = None then Undef else Done (st\<lparr>es_mem := (es_mem st)(a := None)\<rparr>))"

section \<open>Loading\<close>

text \<open>The source of a path as a C string. A null pointer as its text is undefined.\<close>

definition load_text :: "host \<Rightarrow> string \<Rightarrow> string run_result" where
  "load_text hs path =
     (let content = (if is_http_path path
          then (case http_get (hs_resolves hs) (hs_peer hs) path of
              None \<Rightarrow> None | Some None \<Rightarrow> Some Null | Some (Some b) \<Rightarrow> Some (Value b))
          else read_file (hs_fuel hs) (hs_files hs path))
      in case content of
           None \<Rightarrow> Undef
         | Some Running \<Rightarrow> Spins
         | Some Null \<Rightarrow> Undef
         | Some (Value b) \<Rightarrow> known (c_str b))"

text \<open>\<open>resolve_module_callback\<close>: the module, or nothing; the path of one that does not compile is not freed.\<close>

definition resolve_module_callback :: "host \<Rightarrow> int \<Rightarrow> string \<Rightarrow> esm \<Rightarrow> (int option \<times> esm) run_result" where
  "resolve_module_callback hs referer specifier st =
     andthen (known (map_of (module_path_map st) referer)) (\<lambda>it.
     andthen (known (es_mem st it)) (\<lambda>referer_path.
     andthen (known (dirname referer_path)) (\<lambda>dir.
     andthen (known (normalized specifier dir)) (\<lambda>path.
     let a = es_next st; st1 = new_string path st in
     andthen (load_text hs path) (\<lambda>content.
     case hs_compile hs content specifier of
       Some module \<Rightarrow> Done (Some module, st1\<lparr>module_path_map := map_insert module a (module_path_map st1)\<rparr>)
     | None \<Rightarrow> Done (None, st1))))))"

text \<open>\<open>import_meta_obj_callback\<close>: the value of \<open>import.meta.url\<close>.\<close>

definition import_meta_obj_callback :: "int \<Rightarrow> esm \<Rightarrow> string run_result" where
  "import_meta_obj_callback module st =
     andthen (known (map_of (module_path_map st) module)) (\<lambda>it. known (es_mem st it))"

text \<open>\<open>InstantiateModule\<close>: the imports V8 asks for, until one gives no module.\<close>

fun instantiate :: "host \<Rightarrow> (int \<times> string) list \<Rightarrow> esm \<Rightarrow> (bool \<times> esm) run_result" where
  "instantiate hs [] st = Done (hs_linked hs, st)"
| "instantiate hs ((referer, specifier) # rest) st =
     andthen (resolve_module_callback hs referer specifier st) (\<lambda>(m, st1).
       if m = None then Done (False, st1) else instantiate hs rest st1)"

text \<open>The path of the entry module: a copy, or resolved against the working directory.\<close>

definition entry_path :: "host \<Rightarrow> string \<Rightarrow> string run_result" where
  "entry_path hs file_path =
     (if is_absolute_path file_path then Done file_path
      else andthen (known (hs_cwd hs)) (\<lambda>p. known (normalized file_path p)))"

text \<open>\<open>esm_init\<close>. The loop on the state of the promise does not run anything that could settle it.\<close>

definition esm_init :: "host \<Rightarrow> string \<Rightarrow> esm \<Rightarrow> (int \<times> esm) run_result" where
  "esm_init hs file_path st =
     andthen (entry_path hs file_path) (\<lambda>path.
     let a = es_next st; st1 = new_string path st;
         fail = (\<lambda>s. andthen (free_string a s) (\<lambda>s'. Done (0, s'))) in
     andthen (load_text hs path) (\<lambda>content.
     case hs_compile hs content path of
       None \<Rightarrow> fail st1
     | Some module \<Rightarrow>
         andthen (instantiate hs (hs_imports hs)
           (st1\<lparr>module_path_map := map_insert module a (module_path_map st1)\<rparr>)) (\<lambda>(linked, st2).
         if linked then
           (case hs_eval hs of
              Eval_Settled \<Rightarrow> Done (1, st2)
            | Eval_Pending \<Rightarrow> Spins
            | Eval_Fails \<Rightarrow> fail st2)
         else fail st2)))"

fun free_paths :: "(int \<times> nat) list \<Rightarrow> esm \<Rightarrow> esm run_result" where
  "free_paths [] st = Done st"
| "free_paths ((k, a) # m) st = andthen (free_string a st) (free_paths m)"

definition esm_destroy :: "esm \<Rightarrow> esm run_result" where
  "esm_destroy st = andthen (free_paths (module_path_map st) st) (\<lambda>s. Done (s\<lparr>module_path_map := []\<rparr>))"

text \<open>\<open>main\<close> of \<open>src/main.cc\<close> (without the set-up of V8): the messages it prints, the exit status and the state
  at the end.\<close>

definition esm_main :: "host \<Rightarrow> string list \<Rightarrow> (string list \<times> int \<times> esm) run_result" where
  "esm_main hs argv =
     (if length argv < 2
      then andthen (esm_destroy esm_start) (\<lambda>st. Done ([''Error: can not find entry file''], 0, st))
      else andthen (esm_init hs (argv ! 1) esm_start) (\<lambda>(r, st).
        andthen (esm_destroy st) (\<lambda>st'.
          Done (if r = 0 then [''Error: fail to init es module''] else [], 0, st'))))"

section \<open>Library\<close>

lemma andthen_simps [simp]: "andthen (Done a) f = f a" "andthen Undef f = Undef" "andthen Spins f = Spins"
  by (simp_all add: andthen_def)

lemma known_simps [simp]: "known (Some a) = Done a" "known None = Undef" "known x = Done a \<longleftrightarrow> x = Some a"
  by (auto simp: known_def split: option.split)

lemma andthen_Done: "andthen r f = Done b \<longleftrightarrow> (\<exists>a. r = Done a \<and> f a = Done b)"
  by (cases r) auto

text \<open>The entries have paths of their own, each allocated; nothing is allocated from the next address on.\<close>

definition esm_ok :: "esm \<Rightarrow> bool" where
  "esm_ok st \<longleftrightarrow> distinct (map fst (module_path_map st)) \<and> distinct (map snd (module_path_map st)) \<and>
     (\<forall>a \<in> snd ` set (module_path_map st). es_mem st a \<noteq> None) \<and> (\<forall>a \<ge> es_next st. es_mem st a = None)"

lemma esm_ok_next: "esm_ok st \<Longrightarrow> es_next st \<notin> snd ` set (module_path_map st)"
  by (auto simp: esm_ok_def)

lemma insert_new_ok:
  assumes "esm_ok st"
  shows "esm_ok ((new_string path st)\<lparr>module_path_map := map_insert k (es_next st) (module_path_map (new_string path st))\<rparr>)"
  using assms esm_ok_next [OF assms] by (auto simp: esm_ok_def new_string_def map_insert_def map_of_eq_None_iff)

lemma new_string_ok: "esm_ok st \<Longrightarrow> esm_ok (new_string path st)"
  by (auto simp: esm_ok_def new_string_def)

lemma resolve_ok:
  assumes "esm_ok st" "resolve_module_callback hs r s st = Done (m, st')"
  shows "esm_ok st' \<and> (\<exists>es. module_path_map st' = module_path_map st @ es)"
proof -
  from assms(2) obtain path where
    "st' = new_string path st \<or>
       (\<exists>k. st' = (new_string path st)\<lparr>module_path_map := map_insert k (es_next st) (module_path_map (new_string path st))\<rparr>)"
    by (auto simp: resolve_module_callback_def andthen_Done Let_def split: option.splits)
  then show ?thesis
  proof (elim disjE exE)
    assume "st' = new_string path st"
    with new_string_ok [OF assms(1), of path] show ?thesis by (simp add: new_string_def)
  next
    fix k assume k: "st' = (new_string path st)\<lparr>module_path_map := map_insert k (es_next st) (module_path_map (new_string path st))\<rparr>"
    from insert_new_ok [OF assms(1)] show ?thesis unfolding k by (simp add: map_insert_def new_string_def)
  qed
qed

lemma instantiate_ok:
  "esm_ok st \<Longrightarrow> instantiate hs cs st = Done (b, st') \<Longrightarrow> esm_ok st' \<and> (\<exists>es. module_path_map st' = module_path_map st @ es)"
proof (induction hs cs st rule: instantiate.induct)
  case (2 hs r s rest st)
  then obtain m st1 where m: "resolve_module_callback hs r s st = Done (m, st1)"
      "(if m = None then Done (False, st1) else instantiate hs rest st1) = Done (b, st')"
    by (auto simp: andthen_Done)
  from resolve_ok [OF "2.prems"(1) m(1)] obtain es where o: "esm_ok st1" "module_path_map st1 = module_path_map st @ es" by blast
  show ?case
  proof (cases "m = None")
    case True
    with m(2) o show ?thesis by auto
  next
    case False
    with m(2) have "instantiate hs rest st1 = Done (b, st')" by simp
    from "2.IH" [OF False o(1) this] o(2) show ?thesis by auto
  qed
qed auto

lemma free_paths_ok:
  "distinct (map snd m) \<Longrightarrow> \<forall>a \<in> snd ` set m. es_mem st a \<noteq> None \<Longrightarrow>
     free_paths m st = Done (st\<lparr>es_mem := es_mem st |` (- snd ` set m)\<rparr>)"
proof (induction m arbitrary: st)
  case Nil
  show ?case by (cases st) (simp add: restrict_map_def)
next
  case (Cons e m)
  obtain k a where e: "e = (k, a)" by (cases e)
  define s1 where "s1 = st\<lparr>es_mem := (es_mem st)(a := None)\<rparr>"
  have f: "free_string a st = Done s1" using Cons.prems(2) by (auto simp: free_string_def e s1_def)
  have "\<forall>b \<in> snd ` set m. es_mem s1 b \<noteq> None" using Cons.prems by (auto simp: e s1_def)
  with Cons.IH [of s1] Cons.prems(1) have "free_paths m s1 = Done (s1\<lparr>es_mem := es_mem s1 |` (- snd ` set m)\<rparr>)"
    by (simp add: e)
  moreover have r: "es_mem s1 |` (- snd ` set m) = es_mem st |` (- snd ` set (e # m))"
    by (auto simp: e s1_def restrict_map_def fun_eq_iff)
  moreover have "s1\<lparr>es_mem := x\<rparr> = st\<lparr>es_mem := x\<rparr>" for x by (simp add: s1_def)
  ultimately have "free_paths (e # m) st = Done (st\<lparr>es_mem := es_mem st |` (- snd ` set (e # m))\<rparr>)"
    unfolding e free_paths.simps f andthen_simps by simp
  then show ?case .
qed

text \<open>Freeing a path that is freed already is undefined.\<close>

lemma free_paths_double: "a \<in> snd ` set m \<Longrightarrow> es_mem st a = None \<Longrightarrow> free_paths m st = Undef"
proof (induction m arbitrary: st)
  case (Cons e m)
  obtain k b where e: "e = (k, b)" by (cases e)
  show ?case
  proof (cases "es_mem st b = None")
    case False
    then have b: "free_string b st = Done (st\<lparr>es_mem := (es_mem st)(b := None)\<rparr>)" by (simp add: free_string_def)
    have "a \<in> snd ` set m" using Cons.prems False by (auto simp: e)
    then have "free_paths m (st\<lparr>es_mem := (es_mem st)(b := None)\<rparr>) = Undef"
      using Cons.prems(2) by (intro Cons.IH) simp_all
    then show ?thesis unfolding e free_paths.simps b by simp
  qed (simp add: e free_string_def)
qed simp

text \<open>The start of \<open>esm_init\<close>: the entry module, compiled to \<open>k\<close>, is in the map with its path at address 0.\<close>

definition entered :: "int \<Rightarrow> string \<Rightarrow> esm" where
  "entered k path = \<lparr>module_path_map = [(k, 0)], es_mem = [0 \<mapsto> path], es_next = 1\<rparr>"

lemma entered_ok: "esm_ok (entered k path)"
  by (simp add: esm_ok_def entered_def)

lemma entered_eq:
  "(new_string path esm_start)\<lparr>module_path_map := map_insert k (es_next esm_start) (module_path_map (new_string path esm_start))\<rparr>
     = entered k path"
  by (simp add: entered_def new_string_def map_insert_def esm_start_def fun_eq_iff)

lemma esm_init_entered:
  assumes "entry_path hs f = Done path" "load_text hs path = Done content" "hs_compile hs content path = Some k"
    and "instantiate hs (hs_imports hs) (entered k path) = Done (linked, st)"
  shows "esm_init hs f esm_start =
    (if linked \<and> hs_eval hs = Eval_Settled then Done (1, st)
     else if linked \<and> hs_eval hs = Eval_Pending then Spins
     else andthen (free_string 0 st) (\<lambda>s. Done (0, s)))"
  using assms entered_eq [where path = path and k = k]
  by (simp add: esm_init_def Let_def esm_start_def split: evaluation.split)

section \<open>Properties\<close>

text \<open>C26. Resolving \<open>./g\<close>, imported by the module at \<open>dir/f\<close>, loads \<open>dir/g\<close>, for a directory below the root of the disk or of a
  server (\<open>ds\<close>, its components, is not empty) whose components and the two file names are ordinary ones;
  if the text loads and compiles to a module not recorded yet, its recorded path, also its \<open>import.meta.url\<close>, is
  \<open>dir/g\<close>, so that its own imports are resolved from the same directory, and the importing module keeps its own. In
  the root directory itself the code gives another path: \<open>import_at_origin_root\<close> and \<open>normalize_path_root\<close> of theory
  \<open>UtilPath\<close>.\<close>

theorem esm_import_relative:
  assumes "map_of (module_path_map st) referer = Some it" "es_mem st it = Some (pre @ render (ds @ [f]))"
    and "origin pre" "list_all ordinary ds" "ds \<noteq> []" "ordinary f" "ordinary g"
    and "length pre + length (render ds) + length f + length g + 6 < obj_limit"
    and "load_text hs (pre @ render (ds @ [g])) = Done content" "hs_compile hs content (''./'' @ g) = Some k"
    and "map_of (module_path_map st) k = None" "esm_ok st"
  shows "\<exists>st'. resolve_module_callback hs referer (''./'' @ g) st = Done (Some k, st') \<and>
    import_meta_obj_callback k st' = Done (pre @ render (ds @ [g])) \<and>
    import_meta_obj_callback referer st' = import_meta_obj_callback referer st"
proof -
  have p: "dirname (pre @ render (ds @ [f])) = Some (pre @ render ds)"
      "normalized (''./'' @ g) (pre @ render ds) = Some (pre @ render (ds @ [g]))"
    using import_relative [OF assms(3-8)] by blast+
  let ?st = "(new_string (pre @ render (ds @ [g])) st)\<lparr>module_path_map := module_path_map st @ [(k, es_next st)]\<rparr>"
  have r: "resolve_module_callback hs referer (''./'' @ g) st = Done (Some k, ?st)"
    unfolding resolve_module_callback_def assms(1,2) known_simps andthen_simps p Let_def assms(9,10) option.case
    using assms(11) by (simp add: map_insert_def new_string_def)
  have "it < es_next st" using assms(2,12) by (auto simp: esm_ok_def not_less [symmetric])
  then have "import_meta_obj_callback k ?st = Done (pre @ render (ds @ [g]))"
      "import_meta_obj_callback referer ?st = import_meta_obj_callback referer st"
    using assms(1,2,11) by (auto simp: import_meta_obj_callback_def new_string_def map_add_def)
  with r show ?thesis by blast
qed

text \<open>C27. When the entry module compiles but linking or evaluation fails, \<open>esm_init\<close> frees a path that is in the module
  map, and \<open>esm_destroy\<close> frees it again: whatever the modules are, the program then has undefined behaviour.\<close>

theorem esm_failure_double_free:
  assumes "entry_path hs f = Done path" "load_text hs path = Done content" "hs_compile hs content path = Some k"
    and "instantiate hs (hs_imports hs) (entered k path) = Done (linked, st)"
    and "\<not> linked \<or> hs_eval hs = Eval_Fails"
  shows "esm_main hs [prog, f] = Undef"
proof -
  obtain es where ok: "esm_ok st" "module_path_map st = (k, 0) # es"
    using instantiate_ok [OF entered_ok assms(4)] by (auto simp: entered_def)
  have i: "esm_init hs f esm_start = andthen (free_string 0 st) (\<lambda>s. Done (0, s))"
    using esm_init_entered [OF assms(1-4)] assms(5) by auto
  have "es_mem st 0 \<noteq> None" using ok by (auto simp: esm_ok_def)
  then have "free_string 0 st = Done (st\<lparr>es_mem := (es_mem st)(0 := None)\<rparr>)" by (simp add: free_string_def)
  moreover have "free_paths (module_path_map st) (st\<lparr>es_mem := (es_mem st)(0 := None)\<rparr>) = Undef"
    by (rule free_paths_double [of 0]) (simp_all add: ok(2))
  ultimately show ?thesis by (simp add: esm_main_def i esm_destroy_def)
qed

text \<open>C28. Linking keeps the module map well-formed, whatever imports V8 asks for and wherever it stops: modules have
  different, allocated paths, no earlier entry changes, and from there \<open>esm_destroy\<close> is defined, frees the path of
  each entry once and touches no other.\<close>

theorem esm_map_typed:
  assumes "esm_ok st" "instantiate hs imports st = Done (linked, st')"
  shows "esm_ok st' \<and> (\<exists>es. module_path_map st' = module_path_map st @ es) \<and>
    esm_destroy st' = Done (st'\<lparr>es_mem := es_mem st' |` (- snd ` set (module_path_map st')), module_path_map := []\<rparr>)"
proof -
  have k: "esm_ok st' \<and> (\<exists>es. module_path_map st' = module_path_map st @ es)"
    using instantiate_ok [OF assms] .
  then have "free_paths (module_path_map st') st' = Done (st'\<lparr>es_mem := es_mem st' |` (- snd ` set (module_path_map st'))\<rparr>)"
    by (intro free_paths_ok) (auto simp: esm_ok_def)
  with k show ?thesis by (simp add: esm_destroy_def)
qed

text \<open>When all goes well the program ends with status 0 and nothing printed, and every path in the module map is
  freed, each once; a path that did not get into the map, because its module was there already, stays allocated.\<close>

lemma esm_success:
  assumes "entry_path hs f = Done path" "load_text hs path = Done content" "hs_compile hs content path = Some k"
    and "instantiate hs (hs_imports hs) (entered k path) = Done (True, st)" "hs_eval hs = Eval_Settled"
  shows "\<exists>st'. esm_main hs [prog, f] = Done ([], 0, st') \<and> module_path_map st' = [] \<and>
    es_mem st' = es_mem st |` (- snd ` set (module_path_map st))"
proof -
  have "esm_ok st" using instantiate_ok [OF entered_ok assms(4)] by blast
  then have "free_paths (module_path_map st) st = Done (st\<lparr>es_mem := es_mem st |` (- snd ` set (module_path_map st))\<rparr>)"
    by (intro free_paths_ok) (auto simp: esm_ok_def)
  moreover have "esm_init hs f esm_start = Done (1, st)"
    using esm_init_entered [OF assms(1-4)] assms(5) by simp
  ultimately show ?thesis by (simp add: esm_main_def esm_destroy_def)
qed

text \<open>A file system with two modules.\<close>

definition file_of :: "string \<Rightarrow> cfile" where
  "file_of s = \<lparr>cf_data = s, cf_pos = 0, cf_tell = int (length s), cf_err = None\<rparr>"

definition two_modules :: host where
  "two_modules = \<lparr>hs_cwd = Some ''/w'',
     hs_files = [''/w/d/a.js'' \<mapsto> file_of ''A'', ''/w/d/b.js'' \<mapsto> file_of ''B''],
     hs_fuel = 2, hs_resolves = (\<lambda>_. False), hs_peer = (\<lambda>_ _ _. []),
     hs_compile = (\<lambda>text name. if text = ''A'' then Some 1 else if text = ''B'' then Some 2 else None),
     hs_imports = [(1, ''./b.js'')], hs_linked = True, hs_eval = Eval_Settled\<rparr>"

lemma two_modules_facts:
  "entry_path two_modules ''d/a.js'' = Done ''/w/d/a.js''"
  "load_text two_modules ''/w/d/a.js'' = Done ''A''" "load_text two_modules ''/w/d/b.js'' = Done ''B''"
  by (code_simp, code_simp, code_simp)

lemma esm_import_relative_witness:
  "\<exists>st'. resolve_module_callback two_modules 1 ''./b.js'' (entered 1 ''/w/d/a.js'') = Done (Some 2, st') \<and>
     import_meta_obj_callback 2 st' = Done ''/w/d/b.js''"
proof -
  have c: "hs_compile two_modules ''B'' ''./b.js'' = Some 2" by (simp add: two_modules_def)
  show ?thesis
    using esm_import_relative [of "entered 1 ''/w/d/a.js''" 1 0 "[]" "[''w'', ''d'']" "''a.js''" "''b.js''" two_modules "''B''" 2]
      two_modules_facts(3) c entered_ok [of 1 "''/w/d/a.js''"]
    by (auto simp: entered_def origin_def ordinary_def obj_limit_def)
qed

lemma two_modules_linked: "\<exists>st. instantiate (two_modules\<lparr>hs_linked := b\<rparr>) [(1, ''./b.js'')] (entered 1 ''/w/d/a.js'') = Done (b, st)"
proof -
  have n: "dirname ''/w/d/a.js'' = Some ''/w/d''" "normalized ''./b.js'' ''/w/d'' = Some ''/w/d/b.js''" by (code_simp, code_simp)
  have "load_text (two_modules\<lparr>hs_linked := b\<rparr>) ''/w/d/b.js'' = load_text two_modules ''/w/d/b.js''"
    by (simp add: load_text_def two_modules_def)
  then show ?thesis
    by (simp add: resolve_module_callback_def entered_def n two_modules_facts(3) Let_def) (simp add: two_modules_def)
qed

lemma two_modules_entry:
  "entry_path (two_modules\<lparr>hs_linked := b\<rparr>) ''d/a.js'' = Done ''/w/d/a.js''"
  "load_text (two_modules\<lparr>hs_linked := b\<rparr>) ''/w/d/a.js'' = Done ''A''"
  "hs_compile (two_modules\<lparr>hs_linked := b\<rparr>) ''A'' ''/w/d/a.js'' = Some 1"
  "hs_imports (two_modules\<lparr>hs_linked := b\<rparr>) = [(1, ''./b.js'')]"
proof -
  have e: "entry_path (hs\<lparr>hs_linked := b\<rparr>) = entry_path hs" "load_text (hs\<lparr>hs_linked := b\<rparr>) = load_text hs" for hs
    by (simp_all add: entry_path_def load_text_def fun_eq_iff)
  show "entry_path (two_modules\<lparr>hs_linked := b\<rparr>) ''d/a.js'' = Done ''/w/d/a.js''"
    by (simp only: e two_modules_facts)
  show "load_text (two_modules\<lparr>hs_linked := b\<rparr>) ''/w/d/a.js'' = Done ''A''"
    by (simp only: e two_modules_facts)
qed (simp_all add: two_modules_def)

lemma esm_failure_double_free_witness: "esm_main (two_modules\<lparr>hs_linked := False\<rparr>) [''ryze'', ''d/a.js''] = Undef"
proof -
  let ?hs = "two_modules\<lparr>hs_linked := False\<rparr>"
  obtain st where "instantiate ?hs (hs_imports ?hs) (entered 1 ''/w/d/a.js'') = Done (False, st)"
    using two_modules_linked [of False] by (auto simp: two_modules_entry(4))
  from esm_failure_double_free [OF two_modules_entry(1-3) this] show ?thesis by simp
qed

lemma esm_map_typed_witness:
  "\<exists>st'. instantiate (two_modules\<lparr>hs_linked := False\<rparr>) [(1, ''./b.js'')] (entered 1 ''/w/d/a.js'') = Done (False, st') \<and>
     esm_ok st' \<and> (\<exists>es. module_path_map st' = (1, 0) # es)"
proof -
  obtain st where st: "instantiate (two_modules\<lparr>hs_linked := False\<rparr>) [(1, ''./b.js'')] (entered 1 ''/w/d/a.js'') = Done (False, st)"
    using two_modules_linked [of False] by blast
  have "esm_ok st \<and> (\<exists>es. module_path_map st = (1, 0) # es)"
    using esm_map_typed [OF entered_ok st] by (auto simp: entered_def)
  with st show ?thesis by (intro exI [of _ st] conjI) simp_all
qed

lemma esm_success_witness:
  "\<exists>st'. esm_main (two_modules\<lparr>hs_linked := True\<rparr>) [''ryze'', ''d/a.js''] = Done ([], 0, st') \<and> module_path_map st' = []"
proof -
  let ?hs = "two_modules\<lparr>hs_linked := True\<rparr>"
  obtain st where "instantiate ?hs (hs_imports ?hs) (entered 1 ''/w/d/a.js'') = Done (True, st)"
    using two_modules_linked [of True] by (auto simp: two_modules_entry(4))
  from esm_success [OF two_modules_entry(1-3) this] show ?thesis by (fastforce simp: two_modules_def)
qed

end
