(* ===== verification/XMain.thy ===== *)
theory XMain
  imports Esm
begin

text \<open>
  The program of the older tree, \<open>xxx/main.cc\<close>: its own path resolution over \<open>std::string\<close>, the resolution of
  imports, file reading, the report of an exception, and \<open>main\<close>. Strings are values here and nothing is freed by
  hand. V8 is a parameter, as in \<open>Esm\<close>.
\<close>

section \<open>NormalizePath\<close>

text \<open>The segments that \<open>std::getline\<close> delivers: what follows a last delimiter is one only if it is not empty.\<close>

function getlines :: "string \<Rightarrow> string list" where
  "getlines s =
     (if s = [] then []
      else takeWhile (\<lambda>c. c \<noteq> CHR ''/'') s # getlines (drop 1 (dropWhile (\<lambda>c. c \<noteq> CHR ''/'') s)))"
  by pat_completeness auto
termination
proof (relation "measure length")
  fix s :: string assume "s \<noteq> []"
  then have "length (drop 1 (dropWhile (\<lambda>c. c \<noteq> CHR ''/'') s)) < length s"
    using length_dropWhile_le [of "\<lambda>c. c \<noteq> CHR ''/''" s] by (cases s) auto
  then show "(drop 1 (dropWhile (\<lambda>c. c \<noteq> CHR ''/'') s), s) \<in> measure length" by simp
qed simp

declare getlines.simps [simp del]

fun push_segments :: "string list \<Rightarrow> string list \<Rightarrow> string list" where
  "push_segments segments [] = segments"
| "push_segments segments (segment # rest) =
     (if segment = ''..'' then push_segments (if segments \<noteq> [] then butlast segments else segments) rest
      else if segment \<noteq> ''.'' then push_segments (segments @ [segment]) rest
      else push_segments segments rest)"

definition join_segments :: "string list \<Rightarrow> string" where
  "join_segments segments =
     (if 1 < length segments then concat (map (\<lambda>s. s @ ''/'') (butlast segments)) @ last segments
      else ''/'' @ concat segments)"

definition NormalizePath :: "string \<Rightarrow> string \<Rightarrow> string" where
  "NormalizePath path dir =
     (let absolute_path = (if (path @ [NUL]) ! 0 = CHR ''/'' then path else dir @ ''/'' @ path)
      in join_segments (push_segments [] (getlines absolute_path)))"

section \<open>Modules\<close>

text \<open>\<open>ReadFile\<close>: the loop is that of \<open>read_file\<close>; the text has the length of the file. \<^term>\<open>None\<close> as its value: no
  string.\<close>

definition ReadFile :: "host \<Rightarrow> string \<Rightarrow> buf option run_result" where
  "ReadFile hs path =
     (case read_file (hs_fuel hs) (hs_files hs path) of
        None \<Rightarrow> Undef
      | Some Running \<Rightarrow> Spins
      | Some Null \<Rightarrow> Done None
      | Some (Value b) \<Rightarrow> Done (Some (butlast b)))"

type_synonym specifier_map = "(int \<times> string) list"

definition spec_insert :: "int \<Rightarrow> string \<Rightarrow> specifier_map \<Rightarrow> specifier_map" where
  "spec_insert k s m = (if map_of m k = None then m @ [(k, s)] else m)"

definition dir_of :: "string \<Rightarrow> string" where
  "dir_of str =
     (if CHR ''/'' \<in> set str then take (length str - 1 - length (takeWhile (\<lambda>c. c \<noteq> CHR ''/'') (rev str))) str else [])"

definition text_of :: "buf \<Rightarrow> string option" where
  "text_of b = (if None \<in> set b then None else Some (map the b))"

definition ResolveModuleCallback :: "host \<Rightarrow> int \<Rightarrow> string \<Rightarrow> specifier_map \<Rightarrow> (int option \<times> specifier_map) run_result" where
  "ResolveModuleCallback hs referer path m =
     andthen (known (map_of m referer)) (\<lambda>str.
     let absolute_path = NormalizePath path (dir_of str) in
     andthen (ReadFile hs absolute_path) (\<lambda>source_text.
     case source_text of
       None \<Rightarrow> Done (None, m)
     | Some b \<Rightarrow> andthen (known (text_of b)) (\<lambda>content.
         case hs_compile hs content path of
           None \<Rightarrow> Done (None, m)
         | Some module \<Rightarrow> Done (Some module, spec_insert module absolute_path m))))"

text \<open>\<open>import.meta.url\<close>: a working directory that does not fit into 255 bytes leaves the array unset.\<close>

definition InitImportMetaObjectCallback :: "host \<Rightarrow> int \<Rightarrow> specifier_map \<Rightarrow> string run_result" where
  "InitImportMetaObjectCallback hs module m =
     andthen (known (map_of m module)) (\<lambda>s.
     andthen (known (hs_cwd hs)) (\<lambda>cwd.
       if length cwd < 255 then Done (cwd @ ''/'' @ s) else Undef))"

fun x_instantiate :: "host \<Rightarrow> (int \<times> string) list \<Rightarrow> specifier_map \<Rightarrow> (bool \<times> specifier_map) run_result" where
  "x_instantiate hs [] m = Done (hs_linked hs, m)"
| "x_instantiate hs ((referer, path) # rest) m =
     andthen (ResolveModuleCallback hs referer path m) (\<lambda>(r, m1).
       if r = None then Done (False, m1) else x_instantiate hs rest m1)"

text \<open>\<open>main\<close> up to \<open>ev_loop_run\<close>: whether it gets there. \<open>ToLocalChecked\<close> of no string ends the process.\<close>

definition main_js :: string where
  "main_js = ''/home/share/ryze/js/main.js''"

datatype x_result = Crash | Event_Loop specifier_map

definition x_main :: "host \<Rightarrow> x_result run_result" where
  "x_main hs =
     andthen (ReadFile hs main_js) (\<lambda>src_text.
     case src_text of
       None \<Rightarrow> Done Crash
     | Some b \<Rightarrow> andthen (known (text_of b)) (\<lambda>content.
         case hs_compile hs content main_js of
           None \<Rightarrow> Done (Event_Loop [])
         | Some module \<Rightarrow>
             andthen (x_instantiate hs (hs_imports hs) (spec_insert module main_js [])) (\<lambda>(linked, m).
               if linked \<and> hs_eval hs = Eval_Pending then Spins else Done (Event_Loop m))))"

section \<open>ReportException\<close>

record message =
  msg_filename :: string
  msg_line :: nat
  msg_source :: string
  msg_start :: nat
  msg_end :: nat
  msg_stack :: "string option"

text \<open>What it writes to \<open>stderr\<close>; \<open>show_nat\<close> prints a number.\<close>

definition ReportException :: "(nat \<Rightarrow> string) \<Rightarrow> string \<Rightarrow> message option \<Rightarrow> string" where
  "ReportException show_nat ex msg =
     (case msg of
        None \<Rightarrow> ex @ [LF]
      | Some m \<Rightarrow>
          msg_filename m @ '':'' @ show_nat (msg_line m) @ '': '' @ ex @ [LF] @
          msg_source m @ [LF] @
          replicate (msg_start m) (CHR '' '') @ replicate (msg_end m - msg_start m) (CHR ''^'') @ [LF] @
          (case msg_stack m of
             Some s \<Rightarrow> if s \<noteq> [] then s @ [LF] else []
           | None \<Rightarrow> []))"

section \<open>Library\<close>

lemma getlines_Nil [simp]: "getlines [] = []"
  by (simp add: getlines.simps)

text \<open>On a non-empty string these are the pieces that \<open>normalize_path\<close> of \<open>util.c\<close> walks over.\<close>

lemma getlines_pieces: "s \<noteq> [] \<Longrightarrow> getlines s = pieces s"
proof (induction s rule: pieces.induct)
  case (2 c)
  show ?case by (subst getlines.simps) simp
next
  case (3 c d s)
  show ?case
  proof (cases "c = CHR ''/''")
    case True
    with 3 show ?thesis by (subst getlines.simps) simp
  next
    case False
    have "getlines (c # d # s) = (c # takeWhile (\<lambda>c. c \<noteq> CHR ''/'') (d # s)) #
        getlines (drop 1 (dropWhile (\<lambda>c. c \<noteq> CHR ''/'') (d # s)))"
      using False by (subst getlines.simps) simp
    moreover have "getlines (d # s) = takeWhile (\<lambda>c. c \<noteq> CHR ''/'') (d # s) #
        getlines (drop 1 (dropWhile (\<lambda>c. c \<noteq> CHR ''/'') (d # s)))"
      by (subst getlines.simps) simp
    ultimately have "getlines (c # d # s) = (c # hd (getlines (d # s))) # tl (getlines (d # s))" by simp
    with False 3 show ?thesis by simp
  qed
qed simp

lemma push_segments_resolve:
  "within (length stk) cs \<Longrightarrow> push_segments ([] # stk) cs = [] # resolve_from stk cs"
proof (induction cs arbitrary: stk)
  case (Cons c cs)
  show ?case
  proof (cases "c = ''..''")
    case True
    with Cons.prems have "stk \<noteq> []" "within (length (butlast stk)) cs" by auto
    with Cons.IH [of "butlast stk"] True show ?thesis by simp
  next
    case False
    with Cons.prems Cons.IH [of stk] Cons.IH [of "stk @ [c]"] show ?thesis by auto
  qed
qed simp

lemma join_render: "cs \<noteq> [] \<Longrightarrow> join_segments ([] # cs) = render cs"
proof -
  have "concat (map (\<lambda>s. s @ ''/'') (c # butlast cs)) @ last cs = c @ render cs" if "cs \<noteq> []" for c and cs :: "string list"
    using that by (induction cs arbitrary: c) (auto split: if_splits)
  then show "cs \<noteq> [] \<Longrightarrow> ?thesis" by (force simp: join_segments_def)
qed

lemma join_root: "join_segments [[]] = ''/''"
  by (simp add: join_segments_def)

lemma NormalizePath_absolute:
  assumes "t \<noteq> []" "within 0 (pieces t)"
  shows "NormalizePath (CHR ''/'' # t) dir =
    (if resolve (pieces t) = [] then ''/'' else render (resolve (pieces t)))"
proof -
  have "getlines (CHR ''/'' # t) = [] # pieces t"
    using getlines_pieces [of "CHR ''/'' # t"] assms(1) by (cases t) simp_all
  then have "NormalizePath (CHR ''/'' # t) dir = join_segments ([] # resolve (pieces t))"
    using push_segments_resolve [of "[]" "pieces t"] assms(2) by (simp add: NormalizePath_def resolve_def)
  then show ?thesis by (simp add: join_render join_root)
qed


section \<open>Properties\<close>



lemma dir_of_file: "CHR ''/'' \<notin> set f \<Longrightarrow> dir_of (d @ CHR ''/'' # f) = d"
  by (simp add: dir_of_def takeWhile_neq_append)

text \<open>An import of \<open>./g\<close> by the module at \<open>dir/f\<close> reads \<open>dir/g\<close> and, when that compiles, records it under its identity
  hash; the entries of other modules stay.\<close>

lemma x_import_relative:
  assumes "map_of m referer = Some (render (ds @ [f]))" "list_all ordinary (ds @ [f, g])" "ds \<noteq> []"
    and "ReadFile hs (render (ds @ [g])) = Done (Some (map Some content))"
    and "hs_compile hs content (''./'' @ g) = Some k" "map_of m k = None"
  shows "ResolveModuleCallback hs referer (''./'' @ g) m = Done (Some k, m @ [(k, render (ds @ [g]))])"
proof -
  have o: "list_all ordinary ds" "ordinary f" "ordinary g" using assms(2) by simp_all
  have d: "dir_of (render (ds @ [f])) = render ds" using dir_of_file [of f "render ds"] o(2) by (simp add: ordinary_def)
  obtain e es where ds: "ds = e # es" using assms(3) by (cases ds) auto
  let ?p = "''.'' @ CHR ''/'' # g"
  have g: "pieces ?p = [''.'', g]" 
    using pieces_append [of "''.''" g] pieces_one [of g] o(3) by (simp add: ordinary_def del: pieces.simps)
  have j: "pieces (tl (render ds) @ CHR ''/'' # ?p) = ds @ [''.'', g]"
    using pieces_render [OF o(1) assms(3), of ?p] g by simp
  have "within n (xs @ [''.'', g])" if "list_all ordinary xs" for n xs
    using that o(3) by (induction xs arbitrary: n) (auto simp: ordinary_def)
  then have w: "within 0 (pieces (tl (render ds) @ CHR ''/'' # ?p))" using j o(1) by simp
  have "resolve (ds @ [''.'', g]) = ds @ [g]" using o by (auto simp: resolve_def resolve_from_ordinary ordinary_def)
  then have "NormalizePath (CHR ''/'' # tl (render ds) @ CHR ''/'' # ?p) (render ds) = render (ds @ [g])"
    using NormalizePath_absolute [OF _ w] j by simp
  moreover have "NormalizePath (''./'' @ g) (render ds) =
      NormalizePath (CHR ''/'' # tl (render ds) @ CHR ''/'' # ?p) (render ds)"
    by (simp add: ds NormalizePath_def)
  ultimately have "NormalizePath (''./'' @ g) (render ds) = render (ds @ [g])" by simp
  then show ?thesis
    unfolding ResolveModuleCallback_def assms(1) known_simps andthen_simps Let_def d
    using assms(4-6) by (simp add: text_of_def spec_insert_def)
qed

lemma x_import_relative_witness:
  "ResolveModuleCallback two_modules 1 ''./b.js'' [(1, ''/w/d/a.js'')] = Done (Some 2, [(1, ''/w/d/a.js''), (2, ''/w/d/b.js'')])"
proof -
  have "ReadFile two_modules ''/w/d/b.js'' = Done (Some (map Some ''B''))" by code_simp
  moreover have "hs_compile two_modules ''B'' ''./b.js'' = Some 2" by (simp add: two_modules_def)
  ultimately show ?thesis
    using x_import_relative [of "[(1, ''/w/d/a.js'')]" 1 "[''w'', ''d'']" "''a.js''" "''b.js''" two_modules "''B''" 2]
    by (simp add: ordinary_def)
qed

text \<open>\<open>import.meta.url\<close> puts the working directory before a path that is absolute already.\<close>

lemma x_import_meta:
  "InitImportMetaObjectCallback two_modules 1 [(1, ''/w/d/a.js'')] = Done ''/w//w/d/a.js''"
  by (simp add: InitImportMetaObjectCallback_def two_modules_def)

text \<open>Above the root \<open>NormalizePath\<close> loses the leading slash: \<open>/../a/b\<close> becomes the relative path \<open>a/b\<close>. \<open>normalize_path\<close>
  is undefined there.\<close>

lemma NormalizePath_above_root: "NormalizePath ''/../a/b'' dir = ''a/b''"
proof -
  have "NormalizePath ''/../a/b'' dir = NormalizePath ''/../a/b'' []" by (simp add: NormalizePath_def)
  also have "\<dots> = ''a/b''" by code_simp
  finally show ?thesis .
qed

end
