(* ===== verification/RootMain.thy ===== *)
theory RootMain
  imports XMain Notify
begin

text \<open>
  The first runtime, \<open>main.cc\<close> at the top of the repository: the path functions and the functions it gives to JavaScript,
  its start-up, and its four worker threads, which talk to the main thread through two lists, each with a mutex and
  a condition variable, without an eventfd. \<open>NormalizePath\<close>, \<open>ReadFile\<close>, \<open>ReportException\<close> and \<open>ResolveModuleCallback\<close> have
  the text of \<open>xxx/main.cc\<close> and are those of \<open>XMain\<close>.

  The mutexes make the sections that hold them atomic: a step is such a section, or what a thread does between two.
  \<open>pthread_cond_signal\<close> comes after the unlock and is a step of its own. Spurious wake-ups are not modelled.
\<close>

section \<open>Start-up\<close>

text \<open>\<open>new char(255)\<close> is one \<open>char\<close> with the value 255, not 255 of them; \<open>getcwd\<close> writes the path and its terminator if they
  fit into the size it was told, and nothing otherwise. \<^term>\<open>None\<close>: undefined.\<close>

definition init_cwd :: "string \<Rightarrow> string option" where
  "init_cwd path = do {
     let cwd = [Some (char_of (255 :: nat))];
     cwd \<leftarrow> (if length path + 1 \<le> 255 then memcpy cwd 0 (map Some (path @ [NUL])) 0 (length path + 1) else Some cwd);
     c_str cwd
   }"

section \<open>Functions for JavaScript\<close>

text \<open>\<open>import.meta.url\<close> and \<open>import.meta.dirname\<close>.\<close>

definition HostInitializeImportMetaObject :: "string \<Rightarrow> int \<Rightarrow> specifier_map \<Rightarrow> (string \<times> string) option" where
  "HostInitializeImportMetaObject g_cwd module m = do {
     specifier \<leftarrow> map_of m module;
     let absolute_path = g_cwd @ ''/'' @ specifier;
     Some (absolute_path, dir_of absolute_path)
   }"

definition Log :: "string list \<Rightarrow> string" where
  "Log args = concat (map (\<lambda>s. s @ '' '') args) @ [LF]"

definition DirName :: "string \<Rightarrow> string" where
  "DirName path = dir_of path"

text \<open>The first segment loses a slash at its end; reading the last byte of an empty one is undefined. A later segment is
  appended after a slash, or without its own.\<close>

fun join_rest :: "string \<Rightarrow> string list \<Rightarrow> string" where
  "join_rest path [] = path"
| "join_rest path (seg # segs) =
     (if (seg @ [NUL]) ! 0 = CHR ''/'' then join_rest (path @ tl seg) segs else join_rest (path @ ''/'' @ seg) segs)"

definition Join :: "string list \<Rightarrow> string option" where
  "Join args =
     (case args of
        [] \<Rightarrow> Some []
      | seg # segs \<Rightarrow>
          if seg = [] then None
          else Some (join_rest (if seg ! (length seg - 1) = CHR ''/'' then take (length seg - 1) seg else seg) segs))"

text \<open>\<open>Read\<close> gives the text of a file, or throws: \<^term>\<open>None\<close>.\<close>

definition Read :: "host \<Rightarrow> string \<Rightarrow> string option run_result" where
  "Read hs path =
     andthen (ReadFile hs path) (\<lambda>value.
     case value of None \<Rightarrow> Done None | Some b \<Rightarrow> andthen (known (text_of b)) (\<lambda>s. Done (Some s)))"

section \<open>Loading the main module\<close>

definition resource_name :: string where
  "resource_name = ''./js/main.js''"

definition load_main :: "host \<Rightarrow> x_result run_result" where
  "load_main hs =
     andthen (ReadFile hs resource_name) (\<lambda>source_text.
     case source_text of
       None \<Rightarrow> Done Crash
     | Some b \<Rightarrow> andthen (known (text_of b)) (\<lambda>content.
         case hs_compile hs content resource_name of
           None \<Rightarrow> Done (Event_Loop [])
         | Some module \<Rightarrow>
             andthen (x_instantiate hs (hs_imports hs) (spec_insert module resource_name [])) (\<lambda>(linked, m).
               if linked \<and> hs_eval hs = Eval_Pending then Spins else Done (Event_Loop m))))"

section \<open>Threads\<close>

text \<open>A task on the heap: its result, once \<open>read_file\<close> has stored one, is a C string or null.\<close>

record ev_fs_t =
  fs_path :: string
  cb_result :: "string option option"

datatype rpc = R_Lock | R_Wait | R_Signal nat | R_Work nat | R_Put nat | R_Signal_Done

datatype rmain = N_Lock | N_Wait

record root =
  r_heap :: "nat \<Rightarrow> ev_fs_t option"
  r_next :: nat
  pending_list :: "nat list"
  done_list :: "nat list"
  r_pcs :: "rpc list"
  r_main :: rmain
  r_resolved :: "string list"

text \<open>The state when the module has been evaluated without a call of \<open>ReadFileAsync\<close>; the threads are started then.\<close>

definition root_start :: root where
  "root_start = \<lparr>r_heap = Map.empty, r_next = 0, pending_list = [], done_list = [], r_pcs = replicate 4 R_Lock,
     r_main = N_Lock, r_resolved = []\<rparr>"

text \<open>\<open>ReadFileAsync\<close> adds to the front of the list. No thread waits for its signal yet.\<close>

definition ReadFileAsync :: "root \<Rightarrow> root" where
  "ReadFileAsync s =
     (let task = r_next s in
      s\<lparr>r_heap := (r_heap s)(task \<mapsto> \<lparr>fs_path = ''./js/file.txt'', cb_result = None\<rparr>), r_next := task + 1,
        pending_list := task # pending_list s, r_pcs := signal_one R_Wait R_Lock 0 (r_pcs s)\<rparr>)"

text \<open>A step of thread \<open>i\<close>; \<open>j\<close> is the thread that a signal prefers to wake, and \<open>contents\<close> is what \<open>read_file\<close> gives for a path.\<close>

definition root_thread :: "(string \<Rightarrow> string option) \<Rightarrow> nat \<Rightarrow> nat \<Rightarrow> root \<Rightarrow> root outcome" where
  "root_thread contents i j s =
     (let goto = (\<lambda>pc s. s\<lparr>r_pcs := (r_pcs s)[i := pc]\<rparr>) in
      case r_pcs s ! i of
        R_Lock \<Rightarrow>
          (case pending_list s of
             [] \<Rightarrow> Next (goto R_Wait s)
           | entry # rest \<Rightarrow> Next (goto (R_Signal entry) (s\<lparr>pending_list := rest\<rparr>)))
      | R_Wait \<Rightarrow> Blocked
      | R_Signal task \<Rightarrow> Next (goto (R_Work task) (s\<lparr>r_pcs := signal_one R_Wait R_Lock j (r_pcs s)\<rparr>))
      | R_Work task \<Rightarrow>
          (case r_heap s task of
             None \<Rightarrow> Undefined
           | Some t \<Rightarrow>
               Next (goto (R_Put task) (s\<lparr>r_heap := (r_heap s)(task \<mapsto> t\<lparr>cb_result := Some (contents (fs_path t))\<rparr>)\<rparr>)))
      | R_Put task \<Rightarrow> Next (goto R_Signal_Done (s\<lparr>done_list := task # done_list s\<rparr>))
      | R_Signal_Done \<Rightarrow> Next (goto R_Lock (s\<lparr>r_main := N_Lock\<rparr>)))"

text \<open>The main thread's walk over \<open>done_list\<close>. A null result as a string is undefined, as is reading a freed task.\<close>

fun resolve_all :: "nat list \<Rightarrow> root \<Rightarrow> root option" where
  "resolve_all [] s = Some s"
| "resolve_all (task # rest) s = do {
     let s = s\<lparr>done_list := remove1 task (done_list s)\<rparr>;
     t \<leftarrow> r_heap s task;
     result \<leftarrow> cb_result t;
     str \<leftarrow> result;
     let s = s\<lparr>r_resolved := r_resolved s @ [str], r_heap := (r_heap s)(task := None)\<rparr>;
     t \<leftarrow> r_heap s task;
     result \<leftarrow> cb_result t;
     resolve_all rest s
   }"

text \<open>Its loop. Nobody but itself waits for the signal it gives.\<close>

definition done_loop :: "root \<Rightarrow> root outcome" where
  "done_loop s =
     (case r_main s of
        N_Wait \<Rightarrow> Blocked
      | N_Lock \<Rightarrow>
          if done_list s = [] then Next (s\<lparr>r_main := N_Wait\<rparr>)
          else (case resolve_all (done_list s) s of None \<Rightarrow> Undefined | Some s' \<Rightarrow> Next s'))"

inductive root_step :: "(string \<Rightarrow> string option) \<Rightarrow> root \<Rightarrow> root \<Rightarrow> bool" for contents where
  thread: "i < length (r_pcs s) \<Longrightarrow> root_thread contents i j s = Next s' \<Longrightarrow> root_step contents s s'"
| main: "done_loop s = Next s' \<Longrightarrow> root_step contents s s'"

section \<open>Library\<close>

lemma resolve_all_undefined: "resolve_all (task # rest) s = None"
  by (simp split: Option.bind_splits)

lemma done_loop_next: "done_loop s = Next s' \<longleftrightarrow> r_main s = N_Lock \<and> done_list s = [] \<and> s' = s\<lparr>r_main := N_Wait\<rparr>"
  by (cases "done_list s") (auto simp: done_loop_def resolve_all_undefined split: rmain.split)

fun held :: "rpc \<Rightarrow> nat list" where
  "held (R_Signal task) = [task]"
| "held (R_Work task) = [task]"
| "held (R_Put task) = [task]"
| "held _ = []"

text \<open>A worker waits only when nothing is pending, the main thread only when nothing is done or a worker is about to
  signal it; each of the \<open>k\<close> tasks is in one place.\<close>

definition root_inv :: "nat \<Rightarrow> root \<Rightarrow> bool" where
  "root_inv k s \<longleftrightarrow> length (r_pcs s) = 4 \<and>
     mset (pending_list s) + in_hands held (r_pcs s) + mset (done_list s) = mset [0..<k] \<and>
     (R_Wait \<in> set (r_pcs s) \<longrightarrow> pending_list s = []) \<and>
     (r_main s = N_Wait \<longrightarrow> done_list s = [] \<or> R_Signal_Done \<in> set (r_pcs s)) \<and>
     (\<forall>task < k. r_heap s task \<noteq> None)"

definition asked :: "nat \<Rightarrow> root" where
  "asked k = (ReadFileAsync ^^ k) root_start"

lemma asked_fields:
  "pending_list (asked k) = rev [0..<k] \<and> r_next (asked k) = k \<and> done_list (asked k) = [] \<and> r_pcs (asked k) = replicate 4 R_Lock \<and>
   r_main (asked k) = N_Lock \<and> (\<forall>task < k. r_heap (asked k) task \<noteq> None)"
proof (induction k)
  case (Suc k)
  have "signal_one R_Wait R_Lock 0 (replicate 4 R_Lock) = replicate 4 R_Lock" by code_simp
  with Suc show ?case by (simp add: asked_def ReadFileAsync_def Let_def less_Suc_eq)
qed (simp add: asked_def root_start_def)

lemma root_inv_start: "root_inv k (asked k)"
  using asked_fields [of k] by (simp add: root_inv_def in_hands_def eval_nat_numeral)

definition pc_cost :: "rpc \<Rightarrow> nat" where
  "pc_cost pc = (case pc of R_Lock \<Rightarrow> 1 | R_Wait \<Rightarrow> 0 | R_Signal _ \<Rightarrow> 7 | R_Work _ \<Rightarrow> 5 | R_Put _ \<Rightarrow> 4 | R_Signal_Done \<Rightarrow> 3)"

definition root_measure :: "root \<Rightarrow> nat" where
  "root_measure s = 7 * length (pending_list s) + sum_list (map pc_cost (r_pcs s)) + (if r_main s = N_Lock then 1 else 0)"

lemma signal_cost: "sum_list (map pc_cost (signal_one R_Wait R_Lock j ps)) \<le> sum_list (map pc_cost ps) + 1"
proof (cases "signal_one R_Wait R_Lock j ps = ps")
  case False
  then obtain i where i: "signal_one R_Wait R_Lock j ps = ps[i := R_Lock]" "i < length ps" "ps ! i = R_Wait"
    using signal_one_update [of R_Wait R_Lock j ps] by auto
  show ?thesis unfolding i(1) using sum_map_update [OF i(2), of pc_cost R_Lock] by (simp add: i(3) pc_cost_def)
qed simp

lemma signal_keeps:
  "ps ! i \<noteq> R_Wait \<Longrightarrow> signal_one R_Wait R_Lock j ps ! i = ps ! i"
  using signal_one_update [of R_Wait R_Lock j ps] by (metis nth_list_update_neq)

lemma root_step_measure:
  assumes "root_step contents s s'"
  shows "root_measure s' < root_measure s"
  using assms
proof (cases rule: root_step.cases)
  case (thread i j)
  note u = sum_map_update [OF thread(1), of pc_cost]
  show ?thesis
  proof (cases "r_pcs s ! i")
    case R_Lock
    with thread u [of R_Wait] u [of "R_Signal (hd (pending_list s))"] show ?thesis
      by (auto simp: root_thread_def root_measure_def pc_cost_def split: list.splits)
  next
    case (R_Signal task)
    let ?ps = "signal_one R_Wait R_Lock j (r_pcs s)"
    have "i < length ?ps" "?ps ! i = R_Signal task" using thread(1) R_Signal by (simp_all add: signal_keeps)
    with sum_map_update [of i ?ps pc_cost "R_Work task"] signal_cost [of j "r_pcs s"] thread R_Signal show ?thesis
      by (auto simp: root_thread_def root_measure_def pc_cost_def)
  next
    case (R_Work task)
    with thread u [of "R_Put task"] show ?thesis
      by (auto simp: root_thread_def root_measure_def pc_cost_def split: option.splits)
  next
    case (R_Put task)
    with thread u [of R_Signal_Done] show ?thesis by (auto simp: root_thread_def root_measure_def pc_cost_def)
  next
    case R_Signal_Done
    with thread u [of R_Lock] show ?thesis by (auto simp: root_thread_def root_measure_def pc_cost_def)
  qed (use thread in \<open>auto simp: root_thread_def\<close>)
qed (auto simp: done_loop_next root_measure_def)

lemma set_update_keep: "x \<in> set (ps[i := q]) \<Longrightarrow> x \<noteq> q \<Longrightarrow> x \<in> set ps"
  using set_update_subset_insert by fastforce

lemma update_keeps: "i < length ps \<Longrightarrow> x \<in> set ps \<Longrightarrow> ps ! i \<noteq> x \<Longrightarrow> x \<in> set (ps[i := q])"
  by (metis in_set_conv_nth length_list_update nth_list_update_neq)

text \<open>A step that moves thread \<open>i\<close> to \<open>pc\<close> and leaves the main thread alone.\<close>

lemma moved_inv:
  assumes inv: "root_inv k s" and i: "i < length (r_pcs s)" and pcs: "r_pcs s' = (r_pcs s)[i := pc]"
    and work: "mset (pending_list s') + mset (held pc) + mset (done_list s') = mset (pending_list s) + mset (held (r_pcs s ! i)) + mset (done_list s)"
    and wait: "pc = R_Wait \<or> R_Wait \<in> set (r_pcs s) \<Longrightarrow> pending_list s = [] \<Longrightarrow> pending_list s' = []" "pc = R_Wait \<Longrightarrow> pending_list s = []"
    and main: "r_main s' = N_Wait \<Longrightarrow> r_main s = N_Wait \<and> (pc = R_Signal_Done \<or> r_pcs s ! i \<noteq> R_Signal_Done \<and> done_list s' = done_list s)"
    and heap: "\<And>task. task < k \<Longrightarrow> r_heap s task \<noteq> None \<Longrightarrow> r_heap s' task \<noteq> None"
  shows "root_inv k s'"
proof -
  have "in_hands held (r_pcs s') + mset (held (r_pcs s ! i)) = in_hands held (r_pcs s) + mset (held pc)"
    unfolding pcs by (rule in_hands_update [OF i])
  then have "mset (pending_list s') + in_hands held (r_pcs s') + mset (done_list s') + (mset (held (r_pcs s ! i)) + mset (held pc)) =
      mset (pending_list s) + in_hands held (r_pcs s) + mset (done_list s) + (mset (held (r_pcs s ! i)) + mset (held pc))"
    using work by (simp add: ac_simps)
  then have "mset (pending_list s') + in_hands held (r_pcs s') + mset (done_list s') = mset [0..<k]"
    using inv by (simp add: root_inv_def)
  moreover have "R_Wait \<in> set (r_pcs s') \<Longrightarrow> pending_list s' = []"
    using inv wait set_update_keep [of R_Wait "r_pcs s" i pc] unfolding pcs by (cases "pc = R_Wait") (auto simp: root_inv_def)
  moreover have "r_main s' = N_Wait \<Longrightarrow> done_list s' = [] \<or> R_Signal_Done \<in> set (r_pcs s')"
    using inv main i set_update_memI [OF i, of pc] update_keeps [OF i, of R_Signal_Done pc] unfolding pcs
    by (auto simp: root_inv_def)
  ultimately show ?thesis using inv heap by (simp add: root_inv_def pcs)
qed

lemma signal_inv:
  assumes "root_inv k s"
  shows "root_inv k (s\<lparr>r_pcs := signal_one R_Wait R_Lock j (r_pcs s)\<rparr>)"
proof -
  have "R_Signal_Done \<in> set (r_pcs s) \<Longrightarrow> R_Signal_Done \<in> set (signal_one R_Wait R_Lock j (r_pcs s))"
    by (metis in_set_conv_nth length_signal_one nth_mem rpc.distinct signal_keeps)
  moreover have "R_Wait \<in> set (signal_one R_Wait R_Lock j (r_pcs s)) \<Longrightarrow> R_Wait \<in> set (r_pcs s)"
    using set_signal_one [of R_Wait R_Lock j "r_pcs s"] by auto
  ultimately show ?thesis using assms in_hands_signal [of held R_Wait R_Lock j "r_pcs s"] by (auto simp: root_inv_def)
qed

lemma thread_inv:
  assumes inv: "root_inv k s" and i: "i < length (r_pcs s)" and f: "root_thread contents i j s = Next s'"
  shows "root_inv k s'"
proof (cases "r_pcs s ! i")
  case R_Lock
  show ?thesis
  proof (cases "pending_list s")
    case Nil
    then show ?thesis using f R_Lock by (intro moved_inv [OF inv i, of s' R_Wait]) (auto simp: root_thread_def)
  next
    case (Cons entry rest)
    then show ?thesis using f R_Lock by (intro moved_inv [OF inv i, of s' "R_Signal entry"]) (auto simp: root_thread_def)
  qed
next
  case (R_Signal task)
  let ?s = "s\<lparr>r_pcs := signal_one R_Wait R_Lock j (r_pcs s)\<rparr>"
  have "i < length (r_pcs ?s)" "r_pcs ?s ! i = R_Signal task" using i R_Signal by (simp_all add: signal_keeps)
  then show ?thesis using f R_Signal
    by (intro moved_inv [OF signal_inv [OF inv], of i j s' "R_Work task"]) (auto simp: root_thread_def)
next
  case (R_Work task)
  then show ?thesis using f
    by (intro moved_inv [OF inv i, of s' "R_Put task"]) (auto simp: root_thread_def split: option.splits)
next
  case (R_Put task)
  then show ?thesis using f by (intro moved_inv [OF inv i, of s' R_Signal_Done]) (auto simp: root_thread_def)
next
  case R_Signal_Done
  then show ?thesis using f by (intro moved_inv [OF inv i, of s' R_Lock]) (auto simp: root_thread_def)
qed (use f in \<open>simp add: root_thread_def\<close>)

lemma root_steps_inv: "(root_step contents)\<^sup>*\<^sup>* (asked k) s \<Longrightarrow> root_inv k s"
proof (induction rule: rtranclp_induct)
  case (step s s')
  from step.hyps(2) show ?case
  proof (cases rule: root_step.cases)
    case (thread i j)
    with thread_inv step.IH show ?thesis by blast
  next
    case main
    with step.IH show ?thesis by (simp add: done_loop_next root_inv_def)
  qed
qed (rule root_inv_start)

text \<open>No worker is undefined.\<close>

lemma thread_defined:
  assumes "root_inv k s" "i < length (r_pcs s)"
  shows "root_thread contents i j s \<noteq> Undefined"
proof (cases "r_pcs s ! i")
  case (R_Work task)
  then have "task \<in> set (concat (map held (r_pcs s)))" using nth_mem [OF assms(2)] by force
  then have "task \<in># mset [0..<k]" using assms(1) unfolding root_inv_def in_hands_def by (metis set_mset_mset union_iff)
  then have "task < k" by simp
  with assms(1) R_Work show ?thesis by (auto simp: root_inv_def root_thread_def split: option.splits)
qed (auto simp: root_thread_def split: list.splits)

lemma root_stuck:
  assumes inv: "root_inv k s" and stuck: "\<nexists>s'. root_step contents s s'"
  shows "if k = 0 then r_main s = N_Wait \<and> set (r_pcs s) = {R_Wait} else done_loop s = Undefined"
proof -
  have w: "pc = R_Wait" if pc: "pc \<in> set (r_pcs s)" for pc
  proof -
    obtain i where i: "i < length (r_pcs s)" "r_pcs s ! i = pc" using pc by (auto simp: in_set_conv_nth)
    have "root_thread contents i 0 s \<noteq> Next s'" for s' using stuck root_step.thread [OF i(1), of contents 0 s'] by metis
    then have "root_thread contents i 0 s = Blocked" using thread_defined [OF inv i(1)] by (cases "root_thread contents i 0 s") auto
    then show ?thesis using i(2) by (cases pc) (simp_all add: root_thread_def split: list.splits option.splits)
  qed
  have "r_pcs s \<noteq> []" using inv by (auto simp: root_inv_def)
  then have ws: "set (r_pcs s) = {R_Wait}" using w by (cases "r_pcs s") auto
  have "held pc = []" if "pc \<in> set (r_pcs s)" for pc using w [OF that] by simp
  then have "in_hands held (r_pcs s) = {#}" by (auto simp: in_hands_def)
  then have d: "mset (done_list s) = mset [0..<k]" using inv ws by (auto simp: root_inv_def)
  have "r_main s = N_Wait \<or> done_loop s = Undefined"
    using stuck root_step.main [of s] by (cases "done_loop s") (auto simp: done_loop_def split: rmain.splits if_splits option.splits)
  moreover have "r_main s = N_Wait \<Longrightarrow> done_list s = []" using inv ws by (simp add: root_inv_def)
  moreover have "k = 0 \<Longrightarrow> done_loop s \<noteq> Undefined" using d by (auto simp: done_loop_def split: rmain.split)
  moreover have "done_list s = [] \<Longrightarrow> k = 0" using d by (cases k) auto
  ultimately show ?thesis using ws by auto
qed

section \<open>Properties\<close>

text \<open>C40. The runtime with \<open>k\<close> reads asked for: its threads and its main thread take at most \<open>7 k + 5\<close> steps in any order, and
  all that time each request is in one place. Where they stop, everything sleeps for good if nothing was asked for;
  otherwise the main thread has requests to answer, and that is undefined, for it frees each task before it reads
  the address of the result from it; a file that could not be read is a null string before that.\<close>

theorem root_runtime_fate:
  assumes "(root_step contents ^^ n) (asked k) s"
  shows "n \<le> 7 * k + 5 \<and>
    mset (pending_list s) + in_hands held (r_pcs s) + mset (done_list s) = mset [0..<k] \<and>
    ((\<nexists>s'. root_step contents s s') \<longrightarrow>
      (if k = 0 then r_main s = N_Wait \<and> set (r_pcs s) = {R_Wait} else done_loop s = Undefined))"
proof (intro conjI impI)
  have "root_measure (asked k) = 7 * k + 5" using asked_fields [of k] by (simp add: root_measure_def pc_cost_def sum_list_replicate)
  moreover have "n + root_measure s \<le> root_measure (asked k)" using root_step_measure assms by (rule relpow_measure)
  ultimately show "n \<le> 7 * k + 5" by simp
  have inv: "root_inv k s" by (rule root_steps_inv [OF relpowp_imp_rtranclp [OF assms]])
  then show "mset (pending_list s) + in_hands held (r_pcs s) + mset (done_list s) = mset [0..<k]" by (simp add: root_inv_def)
  show "if k = 0 then r_main s = N_Wait \<and> set (r_pcs s) = {R_Wait} else done_loop s = Undefined"
    if "\<nexists>s'. root_step contents s s'"
    using root_stuck [OF inv that] .
qed

lemma root_runtime_fate_witness:
  "\<exists>s. (root_step (\<lambda>_. Some ''hi'') ^^ 1) (asked 1) s \<and> r_pcs s = [R_Signal 0, R_Lock, R_Lock, R_Lock] \<and>
     mset (pending_list s) + in_hands held (r_pcs s) + mset (done_list s) = {#0#}"
proof -
  define s where "s = (asked 1)\<lparr>pending_list := [], r_pcs := [R_Signal 0, R_Lock, R_Lock, R_Lock]\<rparr>"
  have "root_thread (\<lambda>_. Some ''hi'') 0 0 (asked 1) = Next s"
    using asked_fields [of 1] by (simp add: root_thread_def s_def eval_nat_numeral)
  then have "root_step (\<lambda>_. Some ''hi'') (asked 1) s"
    using asked_fields [of 1] by (intro root_step.thread [of 0 _ _ 0]) simp_all
  then have "(root_step (\<lambda>_. Some ''hi'') ^^ 1) (asked 1) s" by (simp only: relpowp_1)
  with root_runtime_fate [OF this] show ?thesis by (intro exI [of _ s]) (simp add: s_def)
qed

text \<open>The start-up is undefined whatever the working directory: its path does not fit into one byte, and when \<open>getcwd\<close>
  fails, that byte has no terminator.\<close>

lemma char_255: "(char_of (255 :: nat) :: char) \<noteq> NUL"
  by code_simp

lemma init_cwd_undefined:
  assumes "path \<noteq> []"
  shows "init_cwd path = None"
proof -
  have "length path + 1 \<noteq> 1" using assms by simp
  then show ?thesis using assms by (auto simp: init_cwd_def memcpy_def Let_def char_255)
qed

text \<open>\<open>Join\<close> puts a slash between segments that neither begin nor end with one; a later segment that begins with one
  is glued to the path before it.\<close>

lemma Join_plain:
  assumes "seg \<noteq> []" "last seg \<noteq> CHR ''/''" "\<forall>s \<in> set segs. (s @ [NUL]) ! 0 \<noteq> CHR ''/''"
  shows "Join (seg # segs) = Some (seg @ concat (map ((#) (CHR ''/'')) segs))"
proof -
  have "join_rest p segs = p @ concat (map ((#) (CHR ''/'')) segs)" for p
    using assms(3) by (induction segs arbitrary: p) simp_all
  then show ?thesis using assms(1,2) by (simp add: Join_def last_conv_nth)
qed

lemma Join_glued: "Join [''a'', ''/b''] = Some ''ab''"
  by (simp add: Join_def)

text \<open>A module in the directory above \<open>js\<close>, imported from \<open>./js/main.js\<close>, is looked for in the root directory.\<close>

lemma import_above_js: "NormalizePath ''../x.js'' (dir_of resource_name) = ''/x.js''"
  by code_simp

end
