(* ===== verification/EpollHttp.thy ===== *)
theory EpollHttp
  imports ServerMain "HOL-Library.Sublist"
begin

text \<open>
  \<open>test3.cc\<close>, the demonstration of an HTTP server on epoll from which \<open>server/main.c\<close> grew: it answers
  every connection with the same text. System calls are answered and logged as in \<open>HttpServer\<close>; what the
  calls in a loop return is given, as in \<open>ServerMain\<close>, and a list that is used up means \<open>EAGAIN\<close>. All
  connections share the buffer of \<open>main\<close>, an array of \<open>BUFSIZ\<close> bytes. What \<open>perror\<close> prints is left out.
\<close>

unbundle bit_operations_syntax

section \<open>Definitions\<close>

definition BUFSIZ :: nat where "BUFSIZ = 8192"
definition MAX_EVENTS3 :: int where "MAX_EVENTS3 = 10"
definition PORT3 :: int where "PORT3 = 8080"

text \<open>\<^term>\<open>False\<close>: \<open>exit(1)\<close>.\<close>

definition setnonblocking :: "int \<Rightarrow> (world, bool) state" where
  "setnonblocking sockfd = do {
     opts \<leftarrow> sys (Sys_getfl sockfd);
     if opts < 0 then State_Monad.return False
     else do {
       r \<leftarrow> sys (Sys_setfl sockfd (opts OR O_NONBLOCK));
       State_Monad.return (\<not> r < 0)
     }
   }"

text \<open>Up to the loop: the listening socket and the epoll descriptor; \<^term>\<open>None\<close>: it exits.\<close>

definition http3_setup :: "(world, (int \<times> int) option) state" where
  "http3_setup = do {
     listenfd \<leftarrow> sys (Sys_socket AF_INET SOCK_STREAM 0);
     if listenfd < 0 then State_Monad.return None else do {
     ok \<leftarrow> setnonblocking listenfd;
     if \<not> ok then State_Monad.return None else do {
     r \<leftarrow> sys (Sys_bind listenfd AF_INET (htons PORT3) ''0.0.0.0'');
     if r < 0 then State_Monad.return None else do {
     r \<leftarrow> sys (Sys_listen listenfd 20);
     epfd \<leftarrow> sys (Sys_epoll_create MAX_EVENTS3);
     if epfd = -1 then State_Monad.return None else do {
     r \<leftarrow> sys (Sys_epoll_add epfd listenfd EPOLLIN);
     State_Monad.return (if r = -1 then None else Some (listenfd, epfd)) }}}}
   }"

fun accept3 :: "int \<Rightarrow> int list \<Rightarrow> (world, bool) state" where
  "accept3 epfd [] = State_Monad.return True"
| "accept3 epfd (conn_sock # accepts) =
     (if conn_sock > 0 then do {
        ok \<leftarrow> setnonblocking conn_sock;
        if \<not> ok then State_Monad.return False else do {
        r \<leftarrow> sys (Sys_epoll_add epfd conn_sock (EPOLLIN OR EPOLLET));
        if r = -1 then State_Monad.return False else accept3 epfd accepts }
      }
      else State_Monad.return True)"

text \<open>Reading: each result is the bytes that a \<open>read\<close> of at most \<open>BUFSIZ - 1\<close> delivers, none at the end of the
  stream, or an error. They go to \<open>buf + n\<close>; \<^term>\<open>None\<close>: past the end of \<open>buf\<close>.\<close>

fun read3 :: "buf \<Rightarrow> nat \<Rightarrow> (int + string) list \<Rightarrow> buf option" where
  "read3 buf n [] = Some buf"
| "read3 buf n (Inl errno # reads) = Some buf"
| "read3 buf n (Inr d # reads) =
     (if d = [] then Some buf
      else do { buf1 \<leftarrow> memcpy buf n (map Some d) 0 (length d); read3 buf1 (n + length d) reads })"

definition hello :: string where
  "hello = ''HTTP/1.1 200 OK'' @ [CR, LF] @ ''Content-Length: 11'' @ [CR, LF, CR, LF] @ ''Hello World''"

text \<open>Writing: what \<open>write\<close> returns each time; the bytes sent.\<close>

fun write3 :: "string \<Rightarrow> int \<Rightarrow> int list \<Rightarrow> string" where
  "write3 data n [] = []"
| "write3 data n (nwrite # writes) =
     (if n > 0 then
        take (nat nwrite) (drop (length data - nat n) data) @
        (if nwrite < n then [] else write3 data (n - nwrite) writes)
      else [])"

record event3 =
  e3_fd :: int
  e3_events :: int
  e3_accepts :: "int list"
  e3_reads :: "(int + string) list"
  e3_writes :: "int list"

text \<open>The program exits, has undefined behaviour, or goes on, with its buffer and what it sent.\<close>

datatype step3 = Exit3 | Undef3 | Go3 buf string

definition out3 :: "event3 \<Rightarrow> buf \<Rightarrow> (world, step3) state" where
  "out3 e buf =
     (if e3_events e AND EPOLLOUT \<noteq> 0 then
        (case do { buf1 \<leftarrow> memcpy buf 0 (cstr_mem hello) 0 (length hello + 1); data \<leftarrow> c_str buf1; Some (buf1, data) } of
           None \<Rightarrow> State_Monad.return Undef3
         | Some (buf1, data) \<Rightarrow> do {
             r \<leftarrow> sys (Sys_close (e3_fd e));
             State_Monad.return (Go3 buf1 (write3 data (int (length data)) (e3_writes e)))
           })
      else State_Monad.return (Go3 buf []))"

definition handle3 :: "int \<Rightarrow> int \<Rightarrow> event3 \<Rightarrow> buf \<Rightarrow> (world, step3) state" where
  "handle3 epfd listenfd e buf =
     (if e3_fd e = listenfd then do {
        ok \<leftarrow> accept3 epfd (e3_accepts e);
        State_Monad.return (if ok then Go3 buf [] else Exit3)
      }
      else if e3_events e AND EPOLLIN \<noteq> 0 then
        (case read3 buf 0 (e3_reads e) of
           None \<Rightarrow> State_Monad.return Undef3
         | Some buf1 \<Rightarrow> do {
             r \<leftarrow> sys (Sys_epoll_mod epfd (e3_fd e) (e3_events e OR EPOLLOUT));
             out3 e buf1
           })
      else out3 e buf)"

text \<open>The rounds of \<open>epoll_wait\<close>, each with its result; the result lists what was sent for each event.\<close>

fun events3 :: "int \<Rightarrow> int \<Rightarrow> event3 list \<Rightarrow> buf \<Rightarrow> (world, (step3 \<times> string list)) state" where
  "events3 epfd listenfd [] buf = State_Monad.return (Go3 buf [], [])"
| "events3 epfd listenfd (e # es) buf = do {
     s \<leftarrow> handle3 epfd listenfd e buf;
     (case s of
        Go3 buf1 sent \<Rightarrow> do {
          (s', sents) \<leftarrow> events3 epfd listenfd es buf1;
          State_Monad.return (s', sent # sents)
        }
      | _ \<Rightarrow> State_Monad.return (s, []))
   }"

fun loop3 :: "int \<Rightarrow> int \<Rightarrow> (int \<times> event3 list) list \<Rightarrow> buf \<Rightarrow> (world, (step3 \<times> string list)) state" where
  "loop3 epfd listenfd [] buf = State_Monad.return (Go3 buf [], [])"
| "loop3 epfd listenfd ((nfds, es) # polls) buf =
     (if nfds = -1 then State_Monad.return (Exit3, [])
      else do {
        (s, sents) \<leftarrow> events3 epfd listenfd (take (nat nfds) es) buf;
        (case s of
           Go3 buf1 sent \<Rightarrow> do {
             (s', sents') \<leftarrow> loop3 epfd listenfd polls buf1;
             State_Monad.return (s', sents @ sents')
           }
         | _ \<Rightarrow> State_Monad.return (s, sents))
      })"

definition main3 :: "(int \<times> event3 list) list \<Rightarrow> (world, (step3 \<times> string list)) state" where
  "main3 polls = do {
     fds \<leftarrow> http3_setup;
     (case fds of
        None \<Rightarrow> State_Monad.return (Exit3, [])
      | Some (listenfd, epfd) \<Rightarrow> loop3 epfd listenfd polls (replicate BUFSIZ None))
   }"

section \<open>Library\<close>

text \<open>What one event of a connection delivers before its stream ends or \<open>read\<close> fails.\<close>

fun delivered :: "(int + string) list \<Rightarrow> string" where
  "delivered [] = []"
| "delivered (Inl e # rs) = []"
| "delivered (Inr d # rs) = (if d = [] then [] else d @ delivered rs)"

lemma read3_bounds:
  "n \<le> length buf \<Longrightarrow>
   (read3 buf n rs = None \<longleftrightarrow> length buf < n + length (delivered rs)) \<and>
   (\<forall>b. read3 buf n rs = Some b \<longrightarrow> length b = length buf \<and> take n b = take n buf \<and> take (length (delivered rs)) (drop n b) = map Some (delivered rs))"
proof (induction buf n rs rule: read3.induct)
  case (3 buf n d rs)
  show ?case
  proof (cases "d = [] \<or> length buf < n + length d")
    case True
    then show ?thesis using 3(2) by (auto simp: memcpy_def)
  next
    case False
    define b1 where "b1 = take n buf @ map Some d @ drop (n + length d) buf"
    have m: "memcpy buf n (map Some d) 0 (length d) = Some b1" using False by (simp add: memcpy_def b1_def)
    have l: "length b1 = length buf" "n + length d \<le> length b1" "take n b1 = take n buf" "take (length d) (drop n b1) = map Some d"
      using False by (simp_all add: b1_def)
    have ih: "(read3 b1 (n + length d) rs = None \<longleftrightarrow> length b1 < n + length d + length (delivered rs)) \<and>
        (\<forall>b. read3 b1 (n + length d) rs = Some b \<longrightarrow> length b = length b1 \<and> take (n + length d) b = take (n + length d) b1 \<and>
          take (length (delivered rs)) (drop (n + length d) b) = map Some (delivered rs))"
      using 3(1) [OF _ m l(2)] False by blast
    have "take n b = take n buf \<and> take (length d + length (delivered rs)) (drop n b) = map Some d @ map Some (delivered rs)"
      if b: "take (n + length d) b = take (n + length d) b1" "take (length (delivered rs)) (drop (n + length d) b) = map Some (delivered rs)" for b
    proof -
      have "take n b = take n (take (n + length d) b)" "take (length d) (drop n b) = drop n (take (n + length d) b)"
        by (simp_all add: drop_take)
      then have "take n b = take n b1" "take (length d) (drop n b) = take (length d) (drop n b1)" using b(1) by (simp_all add: drop_take)
      then show ?thesis using l b(2) by (simp add: take_add add.commute)
    qed
    then have "\<forall>b. read3 b1 (n + length d) rs = Some b \<longrightarrow> length b = length buf \<and> take n b = take n buf \<and>
        take (length (d @ delivered rs)) (drop n b) = map Some (d @ delivered rs)"
      using ih l(1) by simp
    moreover have "read3 buf n (Inr d # rs) = read3 b1 (n + length d) rs" "delivered (Inr d # rs) = d @ delivered rs"
      using m False by simp_all
    ultimately show ?thesis using ih l(1) by (simp add: add.assoc)
  qed
qed simp_all

lemma no_nul_hello: "no_nul hello" "length hello = 50"
  by (simp_all add: hello_def no_nul_def)

lemma out3_go:
  assumes "length buf = BUFSIZ"
  shows "\<exists>b. fst (run_state (out3 e buf) w) =
    Go3 b (if e3_events e AND EPOLLOUT \<noteq> 0 then write3 hello 50 (e3_writes e) else []) \<and> length b = BUFSIZ"
proof -
  have m: "memcpy buf 0 (cstr_mem hello) 0 (length hello + 1) = Some (cstr_mem hello @ drop 51 buf)"
    using assms no_nul_hello by (simp add: memcpy_def BUFSIZ_def)
  have "c_str (cstr_mem hello @ drop 51 buf) = Some hello"
    using c_str_append_nul [OF no_nul_hello(1), of "drop 51 buf"] by (simp add: cstr_mem_def)
  then show ?thesis using m assms no_nul_hello by (simp add: out3_def BUFSIZ_def)
qed

text \<open>What is sent: \<open>write\<close> takes at most what it is given; the loop stops at the first short write.\<close>

lemma write3_sends: "write3 hello 50 ws = (case ws of [] \<Rightarrow> [] | n # _ \<Rightarrow> take (nat n) hello)"
proof (cases ws)
  case (Cons n ns)
  have "\<not> n < 50 \<Longrightarrow> write3 hello (50 - n) ns = []" by (cases ns) auto
  then show ?thesis using Cons no_nul_hello by simp
qed simp

lemma out3_defined:
  "length buf = BUFSIZ \<Longrightarrow> \<exists>b t. fst (run_state (out3 e buf) w) = Go3 b t \<and> length b = BUFSIZ \<and> prefix t hello"
  using out3_go [of buf e w] by (fastforce simp: write3_sends take_is_prefix split: list.splits)

text \<open>An event is undefined behaviour exactly when it is a connection's and brings more than the buffer holds: \<open>read\<close>
  is asked for \<open>BUFSIZ - 1\<close> bytes however many are there already.\<close>

lemma handle3_outcome:
  assumes "length buf = BUFSIZ"
  shows "fst (run_state (handle3 epfd listenfd e buf) w) = Undef3 \<longleftrightarrow>
      e3_fd e \<noteq> listenfd \<and> e3_events e AND EPOLLIN \<noteq> 0 \<and> BUFSIZ < length (delivered (e3_reads e))"
    and "fst (run_state (handle3 epfd listenfd e buf) w) = Go3 b t \<Longrightarrow> length b = BUFSIZ \<and> prefix t hello"
proof -
  note r = read3_bounds [of 0 buf "e3_reads e", simplified]
  have in_event: "fst (run_state (handle3 epfd listenfd e buf) w) = (case read3 buf 0 (e3_reads e) of None \<Rightarrow> Undef3
      | Some b1 \<Rightarrow> fst (run_state (out3 e b1) (snd (run_state (sys (Sys_epoll_mod epfd (e3_fd e) (e3_events e OR EPOLLOUT))) w))))"
    if "e3_fd e \<noteq> listenfd" "e3_events e AND EPOLLIN \<noteq> 0"
    using that by (simp add: handle3_def split: option.split)
  have "(fst (run_state (handle3 epfd listenfd e buf) w) = Undef3 \<longleftrightarrow>
      e3_fd e \<noteq> listenfd \<and> e3_events e AND EPOLLIN \<noteq> 0 \<and> BUFSIZ < length (delivered (e3_reads e))) \<and>
    (\<forall>b t. fst (run_state (handle3 epfd listenfd e buf) w) = Go3 b t \<longrightarrow> length b = BUFSIZ \<and> prefix t hello)"
  proof (cases "e3_fd e = listenfd")
    case True
    then show ?thesis using assms by (simp add: handle3_def split: prod.split)
  next
    case no_listen: False
    show ?thesis
    proof (cases "e3_events e AND EPOLLIN \<noteq> 0")
      case True
      show ?thesis
      proof (cases "read3 buf 0 (e3_reads e)")
        case None
        then show ?thesis using in_event [OF no_listen True] r no_listen True assms by simp
      next
        case (Some b1)
        then have "length b1 = BUFSIZ" "\<not> BUFSIZ < length (delivered (e3_reads e))" using r assms by auto
        then show ?thesis
          using out3_defined [of b1 e "snd (run_state (sys (Sys_epoll_mod epfd (e3_fd e) (e3_events e OR EPOLLOUT))) w)"]
            in_event [OF no_listen True] Some by auto
      qed
    next
      case False
      then show ?thesis using out3_defined [OF assms, of e w] no_listen by (auto simp: handle3_def)
    qed
  qed
  then show "fst (run_state (handle3 epfd listenfd e buf) w) = Undef3 \<longleftrightarrow>
      e3_fd e \<noteq> listenfd \<and> e3_events e AND EPOLLIN \<noteq> 0 \<and> BUFSIZ < length (delivered (e3_reads e))"
    and "fst (run_state (handle3 epfd listenfd e buf) w) = Go3 b t \<Longrightarrow> length b = BUFSIZ \<and> prefix t hello" by blast+
qed

definition modest :: "event3 \<Rightarrow> bool" where
  "modest e \<longleftrightarrow> length (delivered (e3_reads e)) \<le> BUFSIZ"

definition fine3 :: "step3 \<times> string list \<Rightarrow> bool" where
  "fine3 r \<longleftrightarrow> fst r \<noteq> Undef3 \<and> (\<forall>b t. fst r = Go3 b t \<longrightarrow> length b = BUFSIZ) \<and> (\<forall>t \<in> set (snd r). prefix t hello)"

lemma events3_fine:
  "length buf = BUFSIZ \<Longrightarrow> \<forall>e \<in> set es. modest e \<Longrightarrow> fine3 (fst (run_state (events3 epfd listenfd es buf) w))"
proof (induction es arbitrary: buf w)
  case (Cons e es)
  obtain s w1 where s: "run_state (handle3 epfd listenfd e buf) w = (s, w1)" by fastforce
  have nu: "s \<noteq> Undef3" using handle3_outcome(1) [OF Cons.prems(1), of epfd listenfd e w] s Cons.prems(2) by (auto simp: modest_def)
  show ?case
  proof (cases s)
    case (Go3 b t)
    then have b: "length b = BUFSIZ" "prefix t hello" using handle3_outcome(2) [OF Cons.prems(1), of epfd listenfd e w b t] s by auto
    obtain s' ts w2 where r: "run_state (events3 epfd listenfd es b) w1 = ((s', ts), w2)" by (metis prod.exhaust)
    from Cons.IH [OF b(1), of w1] Cons.prems(2) r have "fine3 (s', ts)" by simp
    then show ?thesis using s Go3 r b by (simp add: fine3_def)
  qed (use s nu in \<open>simp_all add: fine3_def\<close>)
qed (simp add: fine3_def)

lemma loop3_fine:
  "length buf = BUFSIZ \<Longrightarrow> \<forall>p \<in> set polls. \<forall>e \<in> set (snd p). modest e \<Longrightarrow> fine3 (fst (run_state (loop3 epfd listenfd polls buf) w))"
proof (induction polls arbitrary: buf w)
  case (Cons p polls)
  obtain nfds es where p: "p = (nfds, es)" by (cases p)
  have m: "\<forall>e \<in> set (take (nat nfds) es). modest e" using Cons.prems(2) p by (auto dest: in_set_takeD)
  show ?case
  proof (cases "nfds = -1")
    case False
    obtain s ts w1 where r: "run_state (events3 epfd listenfd (take (nat nfds) es) buf) w = ((s, ts), w1)" by (metis prod.exhaust)
    have f: "fine3 (s, ts)" using events3_fine [OF Cons.prems(1) m, of epfd listenfd w] r by simp
    show ?thesis
    proof (cases s)
      case (Go3 b t)
      then have b: "length b = BUFSIZ" using f by (simp add: fine3_def)
      obtain s' ts' w2 where r2: "run_state (loop3 epfd listenfd polls b) w1 = ((s', ts'), w2)" by (metis prod.exhaust)
      from Cons.IH [OF b, of w1] Cons.prems(2) r2 have "fine3 (s', ts')" by simp
      then show ?thesis using f r r2 Go3 False p by (auto simp: fine3_def)
    qed (use f r False p in \<open>simp_all add: fine3_def\<close>)
  qed (simp add: p fine3_def)
qed (simp add: fine3_def)

section \<open>Properties\<close>

text \<open>C39. The demonstration server writes within its buffer in every run in which no event of a connection brings more than
  \<open>BUFSIZ\<close> bytes before its stream runs dry, and what it sends in answer to an event is then the text or a
  beginning of it; but a single event of a connection that brings more overflows the buffer.\<close>

theorem http3_overflow:
  assumes "length buf = BUFSIZ" "fd \<noteq> listenfd" "e3_fd e = fd" "e3_events e = EPOLLIN"
  shows "(fst (run_state (handle3 epfd listenfd e buf) w) = Undef3 \<longleftrightarrow> BUFSIZ < length (delivered (e3_reads e))) \<and>
    ((\<forall>p \<in> set polls. \<forall>e \<in> set (snd p). length (delivered (e3_reads e)) \<le> BUFSIZ) \<longrightarrow>
      fst (fst (run_state (main3 polls) w)) \<noteq> Undef3 \<and> (\<forall>t \<in> set (snd (fst (run_state (main3 polls) w))). prefix t hello))"
proof -
  have "fine3 (fst (run_state (main3 polls) w))" if "\<forall>p \<in> set polls. \<forall>e \<in> set (snd p). modest e"
  proof -
    obtain fds w1 where r: "run_state http3_setup w = (fds, w1)" by fastforce
    have "fine3 (fst (run_state (loop3 epfd listenfd polls (replicate BUFSIZ None)) w1))" for epfd listenfd
      by (rule loop3_fine) (use that in simp_all)
    then show ?thesis using r by (cases fds) (auto simp: main3_def fine3_def split: prod.splits)
  qed
  then show ?thesis
    using handle3_outcome(1) [OF assms(1), of epfd listenfd e w] assms(2-4) by (auto simp: modest_def fine3_def EPOLLIN_def)
qed

text \<open>A request of 8193 bytes, in two reads.\<close>

definition long_event :: event3 where
  "long_event = \<lparr>e3_fd = 7, e3_events = EPOLLIN, e3_accepts = [], e3_reads = [Inr (replicate 8191 CHR ''a''), Inr ''bc''], e3_writes = []\<rparr>"

lemma http3_overflow_witness:
  "fst (run_state (handle3 4 3 long_event (replicate BUFSIZ None)) \<lparr>w_answer = os_ok, w_log = [], w_links = \<lparr>prev_of = \<lambda>_. None, next_of = \<lambda>_. None\<rparr>\<rparr>) = Undef3"
  using http3_overflow [of "replicate BUFSIZ None" 7 3 long_event 4 "\<lparr>w_answer = os_ok, w_log = [], w_links = \<lparr>prev_of = \<lambda>_. None, next_of = \<lambda>_. None\<rparr>\<rparr>" "[]"]
  by (simp add: long_event_def BUFSIZ_def)

text \<open>A short write ends the answer: the rest is not sent, and the connection is closed.\<close>

lemma http3_short_write:
  assumes "length buf = BUFSIZ" "0 \<le> n" "n < 50"
  shows "\<exists>b. run_state (out3 \<lparr>e3_fd = fd, e3_events = EPOLLOUT, e3_accepts = [], e3_reads = [], e3_writes = n # ns\<rparr> buf) w =
    (Go3 b (take (nat n) hello), w\<lparr>w_log := w_log w @ [Sys_close fd]\<rparr>)"
proof -
  have m: "memcpy buf 0 (cstr_mem hello) 0 (length hello + 1) = Some (cstr_mem hello @ drop 51 buf)"
    using assms(1) no_nul_hello by (simp add: memcpy_def BUFSIZ_def)
  have "c_str (cstr_mem hello @ drop 51 buf) = Some hello"
    using c_str_append_nul [OF no_nul_hello(1), of "drop 51 buf"] by (simp add: cstr_mem_def)
  then show ?thesis using m no_nul_hello assms(3) by (simp add: out3_def EPOLLOUT_def)
qed

end
