(* ===== verification/Globals.thy ===== *)
theory Globals
  imports Fs RootMain "HOL-Library.AList"
begin

text \<open>
  What the programs put into the global object of JavaScript: \<open>src/console\<close>, \<open>xxx/console\<close>, \<open>xxx/timer\<close>, the registration of
  \<open>xxx/fs\<close>, and the templates of \<open>main.cc\<close>. An object is the list of its members in the order of their creation; setting a member
  that is there replaces its value. A function is known by the name it has in the source.
\<close>

section \<open>Objects\<close>

datatype member = JS_fun string | JS_int int | JS_obj "(string \<times> member) list"

definition set_member :: "string \<Rightarrow> member \<Rightarrow> (string \<times> member) list \<Rightarrow> (string \<times> member) list" where
  "set_member name v obj = AList.update name v obj"

text \<open>\<open>a.b\<close> in JavaScript.\<close>

definition get2 :: "string \<Rightarrow> string \<Rightarrow> (string \<times> member) list \<Rightarrow> member option" where
  "get2 a b obj = (case map_of obj a of Some (JS_obj ms) \<Rightarrow> map_of ms b | _ \<Rightarrow> None)"

section \<open>console\<close>

text \<open>Each argument is printed with a blank behind it, then the end of the line; \<open>out\<close> is \<open>stdout\<close>.\<close>

fun console_log :: "string list \<Rightarrow> string \<Rightarrow> string" where
  "console_log [] out = out @ [LF]"
| "console_log (str # strs) out = console_log strs (out @ str @ '' '')"

definition console_init :: "(string \<times> member) list \<Rightarrow> (string \<times> member) list" where
  "console_init gobj = set_member ''console'' (JS_obj (set_member ''log'' (JS_fun ''console_log'') [])) gobj"

definition console_init_x :: "(string \<times> member) list \<Rightarrow> (string \<times> member) list" where
  "console_init_x obj =
     (let console = set_member ''log'' (JS_fun ''console_log'') [] in set_member ''console'' (JS_obj console) obj)"

section \<open>Timers\<close>

definition timer_init :: "(string \<times> member) list \<Rightarrow> (string \<times> member) list" where
  "timer_init obj =
     set_member ''clearInterval'' (JS_fun ''timer_clear_interval'')
       (set_member ''clearTimeout'' (JS_fun ''timer_clear_timeout'')
          (set_member ''setInterval'' (JS_fun ''timer_set_interval'')
             (set_member ''setTimeout'' (JS_fun ''timer_set_timeout'') obj)))"

text \<open>The four functions: none uses its arguments, or sets a result.\<close>

definition timer_set_timeout :: "'v list \<Rightarrow> 'v option" where "timer_set_timeout args = None"
definition timer_set_interval :: "'v list \<Rightarrow> 'v option" where "timer_set_interval args = None"
definition timer_clear_timeout :: "'v list \<Rightarrow> 'v option" where "timer_clear_timeout args = None"
definition timer_clear_interval :: "'v list \<Rightarrow> 'v option" where "timer_clear_interval args = None"

section \<open>The programs\<close>

fun fs_value :: "fs_member \<Rightarrow> member" where
  "fs_value F_open = JS_fun ''fs_open''"
| "fs_value F_read = JS_fun ''fs_read''"
| "fs_value F_close = JS_fun ''fs_close''"
| "fs_value (F_int n) = JS_int n"

text \<open>The end of \<open>fs_init\<close>, and the two calls in \<open>main\<close> of \<open>xxx/main.cc\<close>.\<close>

definition fs_register :: "(string \<times> member) list \<Rightarrow> (string \<times> member) list" where
  "fs_register obj = set_member ''fs'' (JS_obj (map (map_prod id fs_value) fs_init)) obj"

definition x_globals :: "(string \<times> member) list \<Rightarrow> (string \<times> member) list" where
  "x_globals g_obj = fs_register (console_init_x g_obj)"

text \<open>\<open>main.cc\<close>: the global template, then the console.\<close>

definition root_globals :: "(string \<times> member) list \<Rightarrow> (string \<times> member) list" where
  "root_globals builtin =
     (let fs_tmpl = set_member ''readFileAsync'' (JS_fun ''ReadFileAsync'') (set_member ''read'' (JS_fun ''Read'') []);
          path_tmpl = set_member ''join'' (JS_fun ''Join'') (set_member ''dirname'' (JS_fun ''DirName'') []);
          global = set_member ''path'' (JS_obj path_tmpl) (set_member ''fs'' (JS_obj fs_tmpl) builtin)
      in set_member ''console'' (JS_obj (set_member ''log'' (JS_fun ''Log'') [])) global)"

section \<open>What scripts find\<close>

lemma map_of_set_member [simp]: "map_of (set_member name v obj) = (map_of obj)(name \<mapsto> v)"
  by (simp add: set_member_def update_conv')

text \<open>\<open>console.log\<close> prints the same in all three programs.\<close>

lemma console_log_Log: "console_log args out = out @ Log args"
  by (induction args arbitrary: out) (simp_all add: Log_def)

lemma console_everywhere:
  "get2 ''console'' ''log'' (console_init g) = Some (JS_fun ''console_log'') \<and>
   get2 ''console'' ''log'' (x_globals g) = Some (JS_fun ''console_log'') \<and>
   get2 ''console'' ''log'' (root_globals g) = Some (JS_fun ''Log'')"
  by (simp add: get2_def console_init_def console_init_x_def x_globals_def root_globals_def fs_register_def Let_def)

lemma fs_everywhere:
  "get2 ''fs'' ''open'' (x_globals g) = Some (JS_fun ''fs_open'') \<and> get2 ''fs'' ''O_TRUNC'' (x_globals g) = Some (JS_int 0x200) \<and>
   get2 ''fs'' ''read'' (root_globals g) = Some (JS_fun ''Read'') \<and> get2 ''path'' ''join'' (root_globals g) = Some (JS_fun ''Join'')"
  by (simp add: get2_def x_globals_def root_globals_def fs_register_def fs_init_def Let_def)

text \<open>No program calls \<open>timer_init\<close>: \<open>setTimeout\<close> is what it was before.\<close>

lemma timers_missing: "map_of (x_globals g) ''setTimeout'' = map_of g ''setTimeout''"
  by (simp add: x_globals_def fs_register_def console_init_x_def Let_def)

lemma timers_registered:
  "map_of (timer_init g) ''setTimeout'' = Some (JS_fun ''timer_set_timeout'')"
  "map_of (timer_init g) ''clearTimeout'' = Some (JS_fun ''timer_clear_timeout'')"
  "name \<notin> {''setTimeout'', ''setInterval'', ''clearTimeout'', ''clearInterval''} \<Longrightarrow> map_of (timer_init g) name = map_of g name"
  by (simp_all add: timer_init_def)

end
