(* ===== verification/Spec2Isabelle.thy ===== *)
theory Spec2Isabelle
  imports UtilNet HttpParser HttpParserServer ListH EvLoop Eio Pico PicoChunked ServerMain
    Fs OldLoop RuntimeFate Main22 EpollTasks TaskList ThreadPool MainBak Esm XMain RootMain EpollHttp Globals
begin

text \<open>
  A verification development for ryze, a JavaScript runtime on V8: its C and C++ code as Isabelle definitions, with
  what makes it correct, and where it is not.

  The repository holds three generations of the program side by side. The current one is \<open>src/\<close> (module loader, path
  and HTTP utilities, event loop, HTTP parser and server library) with \<open>server/\<close> (a second HTTP parser, the
  vendored parser it was compared with, and an HTTP server program). \<open>xxx/\<close> is the one before: its main program,
  event loop, asynchronous file operations and file system module. At the top are the first runtime, \<open>main.cc\<close>, and
  the experiments in handing work to threads that led to the event loops. They interact as follows. A JavaScript
  call makes a request (\<open>Fs\<close>), the event loop queues it (\<open>EV_REQ_ADD\<close>), a worker runs its file operation (\<open>Eio\<close>) and
  puts it on the list of finished requests, and the main thread, told by an eventfd, runs its callback and frees
  it. Modules are found by path resolution and read from files or over HTTP (\<open>Esm\<close>, \<open>XMain\<close> over \<open>UtilPath\<close>, \<open>UtilNet\<close>).
  The HTTP server reads requests with a parser and sends buffers from its queues, which are intrusive lists
  (\<open>ListH\<close>).

  The theories, each with the code it models:

  \<^item> \<open>Prelude\<close>: arithmetic of \<open>size_t\<close> and \<open>int\<close> with the wrap-around written out (\<open>sz_add\<close>, \<open>sz_sub\<close>, \<open>c_int\<close>), and memory:
    a buffer is a list of bytes, \<^term>\<open>None\<close> for one that nothing has written; reading or writing outside,
    or reading an unwritten byte, makes the result \<^term>\<open>None\<close>, which stands for undefined behaviour.
  \<^item> \<open>UtilPath\<close>, \<open>UtilNet\<close>: \<open>src/util/util.c\<close>. Paths are strings; \<open>normalize_path\<close> is translated with the buffer it splits in
    place and the stack of pointers into it. For paths that stay within the root it is compared with a resolution of
    components that knows nothing of the code, and proved right just where its sum of lengths (\<open>length_error\<close>) is.
    \<open>read_file\<close> runs over a model of a file, with fuel for its loop; \<open>http_get\<close> over the segments that arrive from a peer.
  \<^item> \<open>HttpParser\<close> (\<open>src/http/http_parser.c\<close>), \<open>HttpParserServer\<close> (\<open>server/http_parser.c\<close>, \<open>server/test.c\<close>): pointers are positions
    in the data. Grammar of the request line, round trips for headers, chunks and whole requests.
  \<^item> \<open>Pico\<close>, \<open>PicoChunked\<close>: \<open>server/pico/picohttpparser.c\<close>. A pointer is the list of the bytes that follow it. The parsers
    are incremental, the same with and without SSE4.2, and invert printing; the chunked decoder, with the
    buffer it rewrites and its resumable state, refines an automaton on single bytes.
  \<^item> \<open>HttpServer\<close> (\<open>src/http/http_server.c\<close>), \<open>ServerMain\<close> (\<open>server/main.c\<close>): system calls are answered by an oracle and logged.
    \<open>EpollHttp\<close> (\<open>test3.cc\<close>) is the demonstration that came before.
  \<^item> \<open>ListH\<close>: \<open>include/list.h\<close>, \<open>server/list.h\<close>, \<open>list.h\<close> as operations on the links of a heap, and the interface
    \<open>intrusive_queue\<close>, a first-in first-out queue, which both versions provide.
  \<^item> \<open>Notify\<close>: what the programs with threads share: the eventfd under an edge-triggered epoll, condition variables,
    the multiset of work in the hands of threads, counting of steps; and the interface \<open>edge_queue\<close>, a protocol under
    which finished work is never slept on.
  \<^item> \<open>EvLoop\<close> (\<open>src/ev/ev.c\<close>), \<open>OldLoop\<close> (\<open>xxx/ev/ev.c\<close>), \<open>Main22\<close> (\<open>xxx/main22.c\<close>), \<open>MainBak\<close> (\<open>xxx/main-bak.c\<close>), \<open>EpollTasks\<close>
    (\<open>epoll.cc\<close>), \<open>TaskList\<close> (\<open>epoll2.cc\<close>), \<open>ThreadPool\<close> (\<open>ev_thread_pool.cc\<close>), \<open>RootMain\<close> (\<open>main.cc\<close>): threads as state machines. Each
    thread has a place in its code; a step runs one thread from its place to the next, and a critical section is
    one step, or in \<open>EvLoop\<close>, where the mutex is part of the state, several. Queues are the links of the code where their
    order is at stake: the rings of \<open>EvLoop\<close>, the doubly linked list of \<open>TaskList\<close> and the singly linked one of
    \<open>ThreadPool\<close>, whose tasks are cells of a heap. The theorems hold for every order of
    steps: every request is in one place, none is lost or run twice, runs end, and what can block can be
    woken; or they give the schedule under which the program fails.
  \<^item> \<open>Eio\<close> (\<open>xxx/eio/eio.c\<close>), \<open>Fs\<close> (\<open>xxx/fs/fs.cc\<close>): the file operations over a heap of blocks that can be freed once, with
    the system calls as a parameter. \<open>eio_made\<close> lists the calls the code makes, \<open>eio_table\<close> those it should make: they
    differ in the mode of \<open>open\<close>. \<open>Fs\<close> follows requests from the JavaScript call to the settled promise.
  \<^item> \<open>Runtime\<close>, \<open>RuntimeFate\<close>: the three parts of the older runtime together. A state has the event loop of \<open>OldLoop\<close>, one heap
    for all requests and their promises; a step is a call of \<open>Fs\<close>, a step of a worker, which may run an operation of \<open>Eio\<close>,
    or one of the main thread, which may run a callback and free its request. Proved for every order of the steps:
    each promise is settled with the answer of the operating system to the call that the code makes for it, memory is
    neither lost nor freed twice, and the only undefined behaviour is that of \<open>fs_read\<close>, where the program may stop too.
  \<^item> \<open>Esm\<close> (\<open>src/esm/esm.cc\<close>, \<open>src/main.cc\<close>), \<open>XMain\<close> (\<open>xxx/main.cc\<close>): module loaders. V8 is a parameter, the record \<open>host\<close>.
  \<^item> \<open>Globals\<close>: what \<open>src/console\<close>, \<open>xxx/console\<close>, \<open>xxx/timer\<close>, \<open>xxx/fs\<close> and \<open>main.cc\<close> put into the global object of JavaScript.

  Bounds. \<open>int\<close> has 32 bits and \<open>size_t\<close> 64; theorems on parsers assume that the data is not longer than \<open>int_max\<close>, for
  results are \<open>int\<close>, and those on paths that strings are shorter than \<open>obj_limit\<close>, the largest size of an object. The
  fuel of \<open>read_file\<close> counts calls of \<open>fread\<close>; a file as long as it says needs one, which is proved, and a shorter one
  uses up any. \<open>process_task\<close> of \<open>xxx/main-bak.c\<close> has fuel for ten turns of its loop, one more than its list has tasks.
  All other loops are recursions with a measure.

  Findings are stated as lemmas beside the properties: the wrong lengths of \<open>normalize_path\<close>, the double free of \<open>esm_init\<close>, the lost notification of
  \<open>epoll.cc\<close>, the self-deadlock of the thread pool, the use of freed tasks in \<open>main.cc\<close> and \<open>xxx/main22.c\<close>, the shutdown of
  \<open>xxx/ev/ev.c\<close> that never ends, the unterminated buffer of \<open>fs_read\<close>, the mixed-up argument of \<open>eio_open\<close>, the last byte
  that \<open>http_on_write\<close> may drop, the read buffer of \<open>test3.cc\<close>, and inputs on which the
  parsers and path functions leave their data.

  Not modelled: V8 itself (the headers under \<open>include/\<close> declare a library that is not here) and the set-up of it in
  each \<open>main\<close>; the printing of messages,
  except where it is the result; \<open>xxx/thread\<close>, an empty file; \<open>shell.cc\<close>, \<open>test.cc\<close>,
  \<open>test1.cc\<close>, \<open>test2.cc\<close>, samples of V8 and earlier stages of \<open>main.cc\<close>; test and benchmark drivers; the
  JavaScript files, for the repository has no engine to run them. \<open>src/http/main.c\<close> is the text of \<open>server/main.c\<close>.
\<close>

section \<open>Properties that span components\<close>

lemma tchar_token_char: "tchar (uchar c) \<Longrightarrow> token_char c"
  unfolding token_char_map_tchar by (auto simp: tchar_def)

text \<open>A field that both parsers read: an empty value has no blanks before it.\<close>

definition good_for_both :: "string \<times> string \<times> string \<Rightarrow> bool" where
  "good_for_both f \<longleftrightarrow> good_phr_field f \<and> (snd (snd f) = [] \<longrightarrow> fst (snd f) = [])"

lemma good_for_both_field:
  assumes "good_for_both f"
  shows "good_field f"
proof -
  obtain n w v where f: "f = (n, w, v)" by (cases f)
  have "ctl CR" by (simp add: ctl_def uchar_def)
  moreover have "is_ws = blank" by (simp add: fun_eq_iff is_ws_def blank_def)
  moreover have "list_all token_char n"
    using assms tchar_token_char by (auto simp: good_for_both_def good_phr_field_def f list_all_iff)
  ultimately show ?thesis
    using assms by (auto simp: good_for_both_def good_phr_field_def plain_def f list_all_iff)
qed

lemma same_request: "phr_request_text m path d fs = request_line m path d @ header_block fs @ [CR, LF]"
proof -
  have "phr_field = field_line" by (simp add: phr_field_def fun_eq_iff)
  then show ?thesis by (simp add: phr_request_text_def request_line_def header_block_def)
qed

lemma slices:
  assumes "mem = request_line m path v @ rest"
  shows "slice mem 0 (length m) = m" "slice mem (length m + 1) (length path) = path"
  by (simp_all add: assms request_line_def slice_def)

text \<open>C38. The two parsers of requests, that of \<open>server/http_parser.c\<close> and picohttpparser, agree: in a request that is
  well-formed for both they find the same method, path, version and header fields, and the same start of the
  body, whatever the body is.\<close>

theorem request_parsers_agree:
  assumes "is_token m" "good_path path" "48 \<le> uchar d" "uchar d \<le> 57" "fs \<noteq> []" "\<forall>f \<in> set fs. good_for_both f"
    and "length fs \<le> max_headers" and mem: "mem = phr_request_text m path d fs @ body" "int (length mem) \<le> int_max"
  shows "\<exists>r k q. http_parse_request mem (length mem) (int max_headers) = Some (Returns r) \<and>
    phr_parse_request sse mem max_headers 0 = Go (k, q) \<and>
    q_method q = slice mem (rl_method (request.rq_line r)) (rl_method_len (request.rq_line r)) \<and>
    q_path q = slice mem (rl_path (request.rq_line r)) (rl_path_len (request.rq_line r)) \<and>
    q_minor_version q = rl_minor (request.rq_line r) \<and>
    map (\<lambda>h. (the (phr_name h), phr_value h)) (q_headers q) = map (header_strings mem) (request.rq_headers r) \<and>
    k = int (request.rq_read r) \<and> drop (request.rq_read r) mem = body"
proof -
  have t: "mem = request_line m path d @ header_block fs @ [CR, LF] @ body" by (simp add: mem same_request)
  have sp: "SP \<notin> set m" "SP \<notin> set path" "d \<noteq> CR" "list_all good_field fs"
    using assms(1-4,6) by (auto simp: tchar_def good_path_def uchar_def list_all_iff good_for_both_field)
  obtain r where r: "http_parse_request mem (length mem) (int max_headers) = Some (Returns r)"
      "request.rq_line r = line_result m path d" "request.rq_read r = length (request_line m path d @ header_block fs) + 2"
      "map (header_strings mem) (request.rq_headers r) = map (\<lambda>(n, w, v). (n, v)) fs"
    using request_parts [OF sp(1-3) assms(5) sp(4) _ t mem(2), of "int max_headers"] assms(7) by auto
  have g: "\<forall>f \<in> set fs. good_phr_field f" using assms(6) by (simp add: good_for_both_def)
  have "int (length (phr_request_text m path d fs)) \<le> int_max" using mem by simp
  note q = phr_parse_request_text [OF assms(1-4) g assms(7) this, of sse body, folded mem(1)]
  have "schar d - 48 = int (uchar d) - 48" using assms(4) by (simp add: schar_def)
  moreover have "map (\<lambda>h. (the (phr_name h), phr_value h)) (map Pico.field_header fs) = map (\<lambda>(n, w, v). (n, v)) fs"
    by (simp add: Pico.field_header_def split_beta)
  moreover have "length (phr_request_text m path d fs) = request.rq_read r" by (simp add: r(3) same_request)
  moreover from this have "drop (request.rq_read r) mem = body" using mem(1) by simp
  ultimately show ?thesis using r q slices [OF t] by (simp add: line_result_def)
qed

lemma request_parsers_agree_witness:
  "\<exists>r k q. http_parse_request (''GET /a HTTP/1.1'' @ [CR, LF] @ ''Host: x'' @ [CR, LF, CR, LF] @ ''hi'') 30 8 = Some (Returns r) \<and>
    phr_parse_request True (''GET /a HTTP/1.1'' @ [CR, LF] @ ''Host: x'' @ [CR, LF, CR, LF] @ ''hi'') 8 0 = Go (k, q) \<and>
    k = int (request.rq_read r)"
proof -
  have "is_token ''GET''" by (simp add: tchar_def uchar_def)
  moreover have "good_for_both (''Host'', '' '', ''x'')"
    by (simp add: good_for_both_def good_phr_field_def plain_def ctl_def blank_def tchar_def uchar_def)
  ultimately show ?thesis
    using request_parsers_agree [of "''GET''" "''/a''" "CHR ''1''" "[(''Host'', '' '', ''x'')]" 8 _ "''hi''" True, OF _ _ _ _ _ _ _ refl]
    by (fastforce simp: phr_request_text_def phr_field_def good_path_def uchar_def int_max_def eval_nat_numeral)
qed

end
